(* ===== verification/Ski_Prelude.thy ===== *)
theory Ski_Prelude
  imports Main "HOL-Library.Word" "HOL-Library.Multiset"
begin

text \<open>
  Shared vocabulary of the development: the ways a run of the program stops
  (libc assertion, trap, process exit, undefined behaviour), the result type of
  fallible operations with its sequencing operator and loop, the selection loop
  that several parts of the scheduler use, and generic facts on lists.
\<close>

section \<open>Errors and results\<close>

text \<open>
  \<open>Assert_failed\<close> is a failed libc \<open>assert\<close>, \<open>Int3_trap\<close> the trap of
  \<open>SKI_ASSERT\<close>, \<open>Ski_exit c\<close> the process exit of \<open>SKI_ASSERT_MSG\<close> with code
  \<open>c\<close>, \<open>Hw_error\<close> the abort of \<open>hw_error\<close>, \<open>Stack_overflow\<close> a recursion that
  exhausts the stack, and the others are C undefined behaviour that the model stops at.
\<close>

datatype ski_error =
    Assert_failed
  | Int3_trap
  | Ski_exit int
  | Null_deref
  | Out_of_bounds
  | Div_by_zero
  | Stack_overflow
  | Hw_error

type_synonym 'a res = "ski_error + 'a"

fun bind_res :: "'a res \<Rightarrow> ('a \<Rightarrow> 'b res) \<Rightarrow> 'b res" where
  "bind_res (Inl e) f = Inl e"
| "bind_res (Inr x) f = f x"

definition c_assert :: "bool \<Rightarrow> unit res" where
  "c_assert b = (if b then Inr () else Inl Assert_failed)"

definition null_check :: "'a option \<Rightarrow> 'a res" where
  "null_check p = (case p of None \<Rightarrow> Inl Null_deref | Some x \<Rightarrow> Inr x)"

fun fold_res :: "('s \<Rightarrow> 'a \<Rightarrow> 's res) \<Rightarrow> 's \<Rightarrow> 'a list \<Rightarrow> 's res" where
  "fold_res f s [] = Inr s"
| "fold_res f s (x # xs) = bind_res (f s x) (\<lambda>s'. fold_res f s' xs)"

text \<open>The position of the first element with a property, counted from \<open>k\<close>.\<close>

fun index_from :: "('a \<Rightarrow> bool) \<Rightarrow> nat \<Rightarrow> 'a list \<Rightarrow> nat option" where
  "index_from P k [] = None"
| "index_from P k (x # xs) = (if P x then Some k else index_from P (Suc k) xs)"

text \<open>
  The selection step \<open>res = (res && prio(res) < prio(tc)) ? res : tc\<close>.
\<close>

definition pick_min :: "('a \<Rightarrow> int) \<Rightarrow> 'a option \<Rightarrow> 'a \<Rightarrow> 'a option" where
  "pick_min p r x = (case r of None \<Rightarrow> Some x | Some y \<Rightarrow> if p y < p x then Some y else Some x)"

definition pick_loop :: "('a \<Rightarrow> bool) \<Rightarrow> ('a \<Rightarrow> int) \<Rightarrow> 'a option \<Rightarrow> 'a list \<Rightarrow> 'a option" where
  "pick_loop elig p r xs = foldl (\<lambda>r x. if elig x then pick_min p r x else r) r xs"

named_theorems res_simps \<open>evaluation of fallible operations\<close>
named_theorems inv_intros \<open>preservation of the component invariants\<close>

text \<open>The value of an expression stored into a 32-bit \<open>int\<close>, and the values it can hold.\<close>

definition int32 :: "int \<Rightarrow> int" where
  "int32 v = sint (word_of_int v :: 32 word)"

definition c_int :: "int \<Rightarrow> bool" where
  "c_int v \<longleftrightarrow> - (2 ^ 31) \<le> v \<and> v < 2 ^ 31"

lemma int32_id [simp]: "c_int v \<Longrightarrow> int32 v = v"
  by (simp add: int32_def c_int_def sint_sbintrunc' signed_take_bit_int_eq_self)

section \<open>Results\<close>

lemma bind_res_assoc [simp]:
  "bind_res (bind_res m f) g = bind_res m (\<lambda>x. bind_res (f x) g)"
  by (cases m) simp_all

lemma bind_res_Inr_right [simp]: "bind_res m Inr = m"
  by (cases m) simp_all

lemma bind_res_eq_Inr:
  "bind_res m f = Inr y \<longleftrightarrow> (\<exists>x. m = Inr x \<and> f x = Inr y)"
  by (cases m) simp_all

lemma bind_res_eq_Inl:
  "bind_res m f = Inl e \<longleftrightarrow> m = Inl e \<or> (\<exists>x. m = Inr x \<and> f x = Inl e)"
  by (cases m) simp_all

lemma bind_res_split:
  "P (bind_res m f) \<longleftrightarrow> (\<forall>e. m = Inl e \<longrightarrow> P (Inl e)) \<and> (\<forall>x. m = Inr x \<longrightarrow> P (f x))"
  by (cases m) simp_all

lemma bind_res_split_asm:
  "P (bind_res m f) \<longleftrightarrow>
    \<not> ((\<exists>e. m = Inl e \<and> \<not> P (Inl e)) \<or> (\<exists>x. m = Inr x \<and> \<not> P (f x)))"
  by (cases m) simp_all

lemmas bind_res_splits = bind_res_split bind_res_split_asm

lemma bind_res_cong [fundef_cong]:
  "m = m' \<Longrightarrow> (\<And>x. m' = Inr x \<Longrightarrow> f x = f' x) \<Longrightarrow> bind_res m f = bind_res m' f'"
  by (cases m') simp_all

lemma c_assert_True [simp]: "c_assert True = Inr ()"
  and c_assert_False [simp]: "c_assert False = Inl Assert_failed"
  by (simp_all add: c_assert_def)

lemma c_assert_eq_Inr [simp]: "c_assert b = Inr u \<longleftrightarrow> b"
  by (simp add: c_assert_def)

lemma c_assert_eq_Inl [simp]: "c_assert b = Inl e \<longleftrightarrow> \<not> b \<and> e = Assert_failed"
  by (auto simp: c_assert_def)

lemma null_check_Some [simp]: "null_check (Some x) = Inr x"
  and null_check_None [simp]: "null_check None = Inl Null_deref"
  by (simp_all add: null_check_def)

lemma null_check_eq_Inr [simp]: "null_check p = Inr x \<longleftrightarrow> p = Some x"
  by (cases p) simp_all

lemma fold_res_append:
  "fold_res f s (xs @ ys) = bind_res (fold_res f s xs) (\<lambda>s'. fold_res f s' ys)"
  by (induction xs arbitrary: s) simp_all

text \<open>A loop whose body cannot fail on the elements it visits is a plain fold.\<close>

lemma fold_res_pure:
  assumes "\<And>s x. x \<in> set xs \<Longrightarrow> f s x = Inr (g s x)"
  shows "fold_res f s xs = Inr (foldl g s xs)"
  using assms by (induction xs arbitrary: s) simp_all

lemma fold_res_pure_inv:
  assumes "P s" and "\<And>s x. P s \<Longrightarrow> x \<in> set xs \<Longrightarrow> f s x = Inr (g s x) \<and> P (g s x)"
  shows "fold_res f s xs = Inr (foldl g s xs)"
  using assms by (induction xs arbitrary: s) simp_all

lemma fold_res_invariant:
  assumes "fold_res f s xs = Inr s'" and "P s"
    and step: "\<And>s x s'. P s \<Longrightarrow> x \<in> set xs \<Longrightarrow> f s x = Inr s' \<Longrightarrow> P s'"
  shows "P s'"
  using assms(1,2) step
proof (induction xs arbitrary: s)
  case (Cons x xs)
  from Cons.prems(1) obtain s1 where s1: "f s x = Inr s1" "fold_res f s1 xs = Inr s'"
    by (auto simp: bind_res_eq_Inr)
  have "P s1" by (rule Cons.prems(3)[OF Cons.prems(2) _ s1(1)]) simp
  with s1(2) show ?case
    by (rule Cons.IH) (rule Cons.prems(3), assumption, simp_all)
qed simp

section \<open>The selection loop\<close>

lemma pick_loop_Nil [simp]: "pick_loop elig p r [] = r"
  by (simp add: pick_loop_def)

lemma pick_loop_snoc [simp]:
  "pick_loop elig p r (xs @ [x]) =
    (if elig x then pick_min p (pick_loop elig p r xs) x else pick_loop elig p r xs)"
  by (simp add: pick_loop_def)

lemma pick_loop_Cons [simp]:
  "pick_loop elig p r (x # xs) = pick_loop elig p (if elig x then pick_min p r x else r) xs"
  by (simp add: pick_loop_def)

lemma pick_loop_None:
  "pick_loop elig p None xs = None \<longleftrightarrow> (\<forall>x\<in>set xs. \<not> elig x)"
  by (induction xs rule: rev_induct) (auto simp: pick_min_def split: option.splits)

text \<open>
  Over an ascending list of indices the loop returns an eligible index of least
  value, the last of those that tie.
\<close>

lemma pick_loop_Some:
  assumes "pick_loop elig p None xs = Some i" and "sorted_wrt (<) (xs :: nat list)"
  shows "i \<in> set xs \<and> elig i \<and>
    (\<forall>j\<in>set xs. elig j \<longrightarrow> p i \<le> p j \<and> (p j = p i \<longrightarrow> j \<le> i))"
  using assms
proof (induction xs arbitrary: i rule: rev_induct)
  case (snoc x xs)
  have srt: "sorted_wrt (<) xs" and lt: "\<forall>y\<in>set xs. y < x"
    using snoc.prems(2) by (simp_all add: sorted_wrt_append)
  show ?case
  proof (cases "pick_loop elig p None xs")
    case None
    then have "\<forall>y\<in>set xs. \<not> elig y" by (simp add: pick_loop_None)
    with None snoc.prems(1) show ?thesis
      by (auto simp: pick_min_def split: if_splits)
  next
    case (Some y)
    note IH = snoc.IH[OF Some srt]
    show ?thesis
    proof (cases "elig x \<and> \<not> p y < p x")
      case True
      with snoc.prems(1) Some have "i = x" by (simp add: pick_min_def)
      with True IH lt show ?thesis by fastforce
    next
      case False
      with snoc.prems(1) Some have "i = y" by (auto simp: pick_min_def split: if_splits)
      with False IH lt show ?thesis by auto
    qed
  qed
qed simp

lemma pick_loop_unique:
  assumes "sorted_wrt (<) (xs :: nat list)" and "i \<in> set xs" and "elig i"
    and "\<And>j. j \<in> set xs \<Longrightarrow> elig j \<Longrightarrow> p i \<le> p j \<and> (p j = p i \<longrightarrow> j \<le> i)"
  shows "pick_loop elig p None xs = Some i"
proof (cases "pick_loop elig p None xs")
  case None
  with assms(2,3) show ?thesis by (simp add: pick_loop_None)
next
  case (Some k)
  from pick_loop_Some[OF this assms(1)] assms(2-4) have "k = i"
    by (metis order_antisym)
  with Some show ?thesis by simp
qed

section \<open>Lists\<close>

lemma map_list_update_same:
  "distinct xs \<Longrightarrow> i < length xs \<Longrightarrow>
    map (\<lambda>j. if j = xs ! i then y else f j) xs = (map f xs)[i := y]"
  by (rule nth_equalityI) (auto simp: nth_list_update nth_eq_iff_index_eq)

lemma nth_list_update_if:
  "i < length xs \<Longrightarrow> xs[i := v] ! j = (if j = i then v else xs ! j)"
  by auto

lemma remove1_map_inj:
  "inj_on f (set xs) \<Longrightarrow> x \<in> set xs \<Longrightarrow> remove1 (f x) (map f xs) = map f (remove1 x xs)"
proof (induction xs)
  case (Cons y ys)
  show ?case
  proof (cases "y = x")
    case False
    with Cons.prems have "f y \<noteq> f x" "x \<in> set ys" by (auto simp: inj_on_def)
    with Cons False show ?thesis by simp
  qed simp
qed simp

lemma mset_swap_idx:
  "i < length xs \<Longrightarrow> j < length xs \<Longrightarrow> mset (xs[i := xs ! j, j := xs ! i]) = mset xs"
  by (simp add: mset_swap)

lemma all_less_2: "(\<forall>i<2::nat. P i) \<longleftrightarrow> P 0 \<and> P (Suc 0)"
  by (auto simp: numeral_2_eq_2 less_Suc_eq)

lemma all_less_3: "(\<forall>i<3::nat. P i) \<longleftrightarrow> P 0 \<and> P (Suc 0) \<and> P 2"
  by (auto simp: numeral_3_eq_3 numeral_2_eq_2 less_Suc_eq)

lemma upt_0_4: "[0..<4] = [0, Suc 0, 2, 3]"
  by (simp add: upt_conv_Cons)

lemma upt_0_3: "[0..<3] = [0, Suc 0, 2]"
  by (simp add: upt_conv_Cons)

section \<open>The search loop\<close>

lemma index_from_Some:
  "index_from P k xs = Some j \<Longrightarrow> k \<le> j \<and> j - k < length xs \<and> P (xs ! (j - k))"
proof (induction xs arbitrary: k)
  case (Cons x xs)
  show ?case
  proof (cases "P x")
    case False
    with Cons.prems have "index_from P (Suc k) xs = Some j" by simp
    from Cons.IH[OF this] have "Suc k \<le> j" "j - Suc k < length xs" "P (xs ! (j - Suc k))" by auto
    moreover from this have "j - k = Suc (j - Suc k)" by linarith
    ultimately show ?thesis by simp
  qed (use Cons.prems in auto)
qed simp

lemma index_from_None: "index_from P k xs = None \<longleftrightarrow> (\<forall>x\<in>set xs. \<not> P x)"
  by (induction xs arbitrary: k) auto

lemma index_from_unique:
  assumes "i < length xs" "\<And>j. j < length xs \<Longrightarrow> P (xs ! j) \<longleftrightarrow> j = i"
  shows "index_from P 0 xs = Some i"
proof -
  obtain j where "index_from P 0 xs = Some j"
    using assms index_from_None[of P 0 xs] by (metis not_None_eq nth_mem)
  then show ?thesis using index_from_Some[of P 0 xs j] assms(2) by auto
qed

end
