(* ===== verification/Ski_Liveness.thy ===== *)
theory Ski_Liveness
  imports Ski_Prelude
begin

text \<open>
  The read set of the liveness heuristics (\<open>vmm/ski-liveness.h\<close>): a bounded table of
  the memory addresses a thread has read recently.  An entry lives in a slot of a fixed
  array; a doubly linked list (\<open>utlist.h\<close>) orders the used slots from the oldest to the
  newest access and a hash table (\<open>uthash.h\<close>) finds the slot of an address.  The list is
  modelled by the sequence of slot numbers, the hash table by a partial map from addresses
  to slot numbers.  The theory proves that the three structures stay consistent, that the
  operations implement a least-recently-used cache, and states the interface
  \<open>read_set\<close> that the scheduler relies on.
\<close>

section \<open>Data and operations\<close>

abbreviation (input) SKI_MA_ENTRIES_MAX :: nat where
  "SKI_MA_ENTRIES_MAX \<equiv> 20"

record ski_ma_entry =
  mae_count :: int
  mae_eip :: int
  mae_mem_address :: int
  mae_mem_value :: int

record ski_ma =
  ma_is_initialized :: int
  ma_entries :: "ski_ma_entry list"
  ma_n_entries :: nat
  ma_max_entries :: int
  ma_list :: "nat list"
  ma_hash :: "int \<Rightarrow> nat option"

definition zero_mae :: ski_ma_entry where
  "zero_mae = \<lparr>mae_count = 0, mae_eip = 0, mae_mem_address = 0, mae_mem_value = 0\<rparr>"

text \<open>The all-zero structure that \<open>bzero\<close> leaves.\<close>

definition zero_ma :: ski_ma where
  "zero_ma = \<lparr>ma_is_initialized = 0, ma_entries = replicate SKI_MA_ENTRIES_MAX zero_mae,
    ma_n_entries = 0, ma_max_entries = 0, ma_list = [], ma_hash = Map.empty\<rparr>"

definition ski_liveness_init :: "int \<Rightarrow> ski_ma res" where
  "ski_liveness_init max_entries =
    bind_res (c_assert (max_entries \<le> int SKI_MA_ENTRIES_MAX)) (\<lambda>_.
      Inr (zero_ma\<lparr>ma_max_entries := max_entries, ma_is_initialized := 1\<rparr>))"

text \<open>
  The returned number is the updated access count; an uninitialised set returns no
  defined value (\<open>return;\<close> in a function of type \<open>int\<close>).
\<close>

definition ski_liveness_store ::
  "ski_ma \<Rightarrow> int \<Rightarrow> int \<Rightarrow> int \<Rightarrow> (ski_ma \<times> int option) res" where
  "ski_liveness_store ma eip mem_address mem_value =
    (if ma_is_initialized ma = 0 then Inr (ma, None)
     else case ma_hash ma mem_address of
       Some k \<Rightarrow>
         let mae = ma_entries ma ! k;
             mae = (if mae_mem_value mae \<noteq> mem_value
                    then mae\<lparr>mae_mem_value := mem_value, mae_count := 0\<rparr> else mae);
             mae = mae\<lparr>mae_count := mae_count mae + 1\<rparr>
         in Inr (ma\<lparr>ma_entries := (ma_entries ma)[k := mae],
                    ma_list := remove1 k (ma_list ma) @ [k]\<rparr>, Some (mae_count mae))
     | None \<Rightarrow>
         let mae = \<lparr>mae_count = 1, mae_eip = eip, mae_mem_address = mem_address,
                    mae_mem_value = mem_value\<rparr>
         in if int (ma_n_entries ma) < ma_max_entries ma
            then let k = ma_n_entries ma
                 in Inr (ma\<lparr>ma_entries := (ma_entries ma)[k := mae], ma_n_entries := k + 1,
                            ma_list := ma_list ma @ [k],
                            ma_hash := (ma_hash ma)(mem_address \<mapsto> k)\<rparr>, Some 1)
            else case ma_list ma of
              [] \<Rightarrow> Inl Null_deref
            | k # rest \<Rightarrow>
                Inr (ma\<lparr>ma_entries := (ma_entries ma)[k := mae],
                        ma_list := rest @ [k],
                        ma_hash := ((ma_hash ma)(mae_mem_address (ma_entries ma ! k) := None))
                                   (mem_address \<mapsto> k)\<rparr>, Some 1))"

definition ski_liveness_is_present :: "ski_ma \<Rightarrow> int \<Rightarrow> bool" where
  "ski_liveness_is_present ma mem_address = (ma_hash ma mem_address \<noteq> None)"

definition ski_liveness_reset :: "ski_ma \<Rightarrow> ski_ma res" where
  "ski_liveness_reset ma =
    bind_res (c_assert (ma_is_initialized ma \<noteq> 0)) (\<lambda>_. ski_liveness_init (ma_max_entries ma))"

definition ski_liveness_copy :: "ski_ma \<Rightarrow> ski_ma res" where
  "ski_liveness_copy ma_src =
    bind_res (c_assert (ma_is_initialized ma_src \<noteq> 0)) (\<lambda>_.
    bind_res (ski_liveness_init (ma_max_entries ma_src)) (\<lambda>ma_dest.
      fold_res (\<lambda>ma_dest k.
          let mae = ma_entries ma_src ! k
          in bind_res (ski_liveness_store ma_dest (mae_eip mae) (mae_mem_address mae)
                         (mae_mem_value mae)) (\<lambda>(ma_dest, _). Inr ma_dest))
        ma_dest (ma_list ma_src)))"

section \<open>Abstract view\<close>

text \<open>
  A read set stands for the sequence of its entries from the oldest to the newest access,
  and \<open>lru_store\<close> is the textbook least-recently-used update of such a sequence.
\<close>

definition rs_seq :: "ski_ma \<Rightarrow> ski_ma_entry list" where
  "rs_seq ma = map (\<lambda>k. ma_entries ma ! k) (ma_list ma)"

definition rs_addrs :: "ski_ma \<Rightarrow> int list" where
  "rs_addrs ma = map mae_mem_address (rs_seq ma)"

definition mae_hit :: "int \<Rightarrow> ski_ma_entry \<Rightarrow> ski_ma_entry" where
  "mae_hit v e = e\<lparr>mae_mem_value := v,
      mae_count := (if mae_mem_value e = v then mae_count e else 0) + 1\<rparr>"

definition lru_store :: "nat \<Rightarrow> ski_ma_entry list \<Rightarrow> int \<Rightarrow> int \<Rightarrow> int \<Rightarrow> ski_ma_entry list" where
  "lru_store cap es eip a v =
    (case find (\<lambda>e. mae_mem_address e = a) es of
       Some e \<Rightarrow> remove1 e es @ [mae_hit v e]
     | None \<Rightarrow> (if length es < cap then es else tl es) @
         [\<lparr>mae_count = 1, mae_eip = eip, mae_mem_address = a, mae_mem_value = v\<rparr>])"

text \<open>The address sequence of the same cache.\<close>

definition lru_addrs :: "nat \<Rightarrow> int list \<Rightarrow> int \<Rightarrow> int list" where
  "lru_addrs cap as a =
    (if a \<in> set as then remove1 a as else if length as < cap then as else tl as) @ [a]"

text \<open>Consistency of slots, list and hash table.\<close>

definition rs_wf :: "ski_ma \<Rightarrow> bool" where
  "rs_wf ma \<longleftrightarrow>
    ma_is_initialized ma = 1 \<and>
    length (ma_entries ma) = SKI_MA_ENTRIES_MAX \<and>
    0 < ma_max_entries ma \<and> ma_max_entries ma \<le> int SKI_MA_ENTRIES_MAX \<and>
    int (ma_n_entries ma) \<le> ma_max_entries ma \<and>
    distinct (ma_list ma) \<and> set (ma_list ma) = {0..<ma_n_entries ma} \<and>
    (\<forall>a k. ma_hash ma a = Some k \<longleftrightarrow>
       k < ma_n_entries ma \<and> mae_mem_address (ma_entries ma ! k) = a)"

text \<open>A run of accesses \<open>(eip, address, value)\<close> over a read set.\<close>

definition rs_run :: "ski_ma \<Rightarrow> (int \<times> int \<times> int) list \<Rightarrow> ski_ma res" where
  "rs_run ma tr = fold_res (\<lambda>ma (eip, a, v).
      bind_res (ski_liveness_store ma eip a v) (\<lambda>(ma, _). Inr ma)) ma tr"

section \<open>Consistency\<close>

lemma rs_wfD:
  assumes "rs_wf ma"
  shows "ma_is_initialized ma = 1" "length (ma_entries ma) = SKI_MA_ENTRIES_MAX"
    "0 < ma_max_entries ma" "ma_max_entries ma \<le> int SKI_MA_ENTRIES_MAX"
    "int (ma_n_entries ma) \<le> ma_max_entries ma"
    "distinct (ma_list ma)" "set (ma_list ma) = {0..<ma_n_entries ma}"
    "\<And>a k. ma_hash ma a = Some k \<longleftrightarrow>
       k < ma_n_entries ma \<and> mae_mem_address (ma_entries ma ! k) = a"
  using assms by (auto simp: rs_wf_def)

lemma rs_wf_length_list: "rs_wf ma \<Longrightarrow> length (ma_list ma) = ma_n_entries ma"
  using rs_wfD(6,7)[of ma] by (metis card_atLeastLessThan diff_zero distinct_card)

lemma rs_wf_slot_unique:
  assumes "rs_wf ma" "i < ma_n_entries ma" "j < ma_n_entries ma"
    and "mae_mem_address (ma_entries ma ! i) = mae_mem_address (ma_entries ma ! j)"
  shows "i = j"
  using rs_wfD(8)[OF assms(1), of "mae_mem_address (ma_entries ma ! j)" i]
    rs_wfD(8)[OF assms(1), of "mae_mem_address (ma_entries ma ! j)" j] assms(2-4) by simp

lemma rs_wf_hash_None:
  "rs_wf ma \<Longrightarrow> ma_hash ma a = None \<longleftrightarrow>
    (\<forall>k<ma_n_entries ma. mae_mem_address (ma_entries ma ! k) \<noteq> a)"
  using rs_wfD(8)[of ma a] by (metis not_Some_eq)

lemma rs_wf_zero [simp]:
  "0 < m \<Longrightarrow> m \<le> int SKI_MA_ENTRIES_MAX \<Longrightarrow>
    rs_wf (zero_ma\<lparr>ma_max_entries := m, ma_is_initialized := 1\<rparr>)"
  by (simp add: rs_wf_def zero_ma_def)

lemma ski_liveness_init_eq [simp]:
  "m \<le> int SKI_MA_ENTRIES_MAX \<Longrightarrow>
    ski_liveness_init m = Inr (zero_ma\<lparr>ma_max_entries := m, ma_is_initialized := 1\<rparr>)"
  by (simp add: ski_liveness_init_def)

lemma zero_ma_list [simp]: "ma_list zero_ma = []"
  by (simp add: zero_ma_def)

lemma rs_addrs_eq: "rs_addrs ma = map (\<lambda>k. mae_mem_address (ma_entries ma ! k)) (ma_list ma)"
  by (simp add: rs_addrs_def rs_seq_def)

lemma rs_wf_inj:
  "rs_wf ma \<Longrightarrow> inj_on (\<lambda>k. mae_mem_address (ma_entries ma ! k)) (set (ma_list ma))"
  by (intro inj_onI) (simp add: rs_wfD(7) rs_wf_slot_unique)

lemma rs_wf_addrs:
  assumes "rs_wf ma"
  shows "distinct (rs_addrs ma)" "length (rs_addrs ma) = ma_n_entries ma"
    "set (rs_addrs ma) = {a. ski_liveness_is_present ma a}"
proof -
  show "distinct (rs_addrs ma)"
    using rs_wf_inj[OF assms] rs_wfD(6)[OF assms] by (simp add: rs_addrs_eq distinct_map)
  show "length (rs_addrs ma) = ma_n_entries ma"
    using rs_wf_length_list[OF assms] by (simp add: rs_addrs_eq)
  show "set (rs_addrs ma) = {a. ski_liveness_is_present ma a}"
    using rs_wf_hash_None[OF assms] rs_wfD(7)[OF assms]
    by (auto simp: rs_addrs_eq ski_liveness_is_present_def)
qed

text \<open>The three ways of a store: hit, free slot, and reuse of the oldest slot.\<close>

lemma store_hit:
  assumes "rs_wf ma" and "ma_hash ma a = Some k"
  shows "ski_liveness_store ma eip a v =
    Inr (ma\<lparr>ma_entries := (ma_entries ma)[k := mae_hit v (ma_entries ma ! k)],
      ma_list := remove1 k (ma_list ma) @ [k]\<rparr>, Some (mae_count (mae_hit v (ma_entries ma ! k))))"
  using assms(2) rs_wfD(1)[OF assms(1)]
  by (cases "ma_entries ma ! k") (auto simp: ski_liveness_store_def Let_def mae_hit_def)

lemma store_free:
  assumes "rs_wf ma" and "ma_hash ma a = None" and "int (ma_n_entries ma) < ma_max_entries ma"
  shows "ski_liveness_store ma eip a v = Inr (ma\<lparr>ma_entries := (ma_entries ma)[ma_n_entries ma :=
        \<lparr>mae_count = 1, mae_eip = eip, mae_mem_address = a, mae_mem_value = v\<rparr>],
      ma_n_entries := ma_n_entries ma + 1, ma_list := ma_list ma @ [ma_n_entries ma],
      ma_hash := (ma_hash ma)(a \<mapsto> ma_n_entries ma)\<rparr>, Some 1)"
  using assms rs_wfD(1)[OF assms(1)] by (simp add: ski_liveness_store_def Let_def)

lemma store_reuse:
  assumes "rs_wf ma" and "ma_hash ma a = None" and "\<not> int (ma_n_entries ma) < ma_max_entries ma"
  obtains k rest where "ma_list ma = k # rest"
    and "ski_liveness_store ma eip a v = Inr (ma\<lparr>ma_entries := (ma_entries ma)[k :=
        \<lparr>mae_count = 1, mae_eip = eip, mae_mem_address = a, mae_mem_value = v\<rparr>],
      ma_list := rest @ [k],
      ma_hash := ((ma_hash ma)(mae_mem_address (ma_entries ma ! k) := None))(a \<mapsto> k)\<rparr>, Some 1)"
proof (cases "ma_list ma")
  case Nil
  then have "ma_n_entries ma = 0" using rs_wf_length_list[OF assms(1)] by simp
  then show ?thesis using assms(3) rs_wfD(3)[OF assms(1)] by simp
next
  case (Cons k rest)
  then show ?thesis
    using that assms(2,3) rs_wfD(1)[OF assms(1)] by (simp add: ski_liveness_store_def Let_def)
qed

lemma store_hit_wf:
  assumes wf: "rs_wf ma" and hit: "ma_hash ma a = Some k"
    and addr: "mae_mem_address e = mae_mem_address (ma_entries ma ! k)"
  shows "rs_wf (ma\<lparr>ma_entries := (ma_entries ma)[k := e],
    ma_list := remove1 k (ma_list ma) @ [k]\<rparr>)"
proof -
  have k: "k < ma_n_entries ma" "k < length (ma_entries ma)" "k \<in> set (ma_list ma)"
    using hit rs_wfD[OF wf] by auto
  have "mae_mem_address ((ma_entries ma)[k := e] ! j) = mae_mem_address (ma_entries ma ! j)" for j
    using addr k(2) by (simp add: nth_list_update_if)
  then have "ma_hash ma b = Some j \<longleftrightarrow>
      j < ma_n_entries ma \<and> mae_mem_address ((ma_entries ma)[k := e] ! j) = b" for b j
    by (simp add: rs_wfD(8)[OF wf])
  moreover have "set (remove1 k (ma_list ma) @ [k]) = set (ma_list ma)"
    using rs_wfD(6)[OF wf] k(3) by (simp add: set_remove1_eq insert_absorb)
  ultimately show ?thesis
    using rs_wfD[OF wf] k by (simp add: rs_wf_def)
qed

lemma store_free_wf:
  assumes wf: "rs_wf ma" and miss: "ma_hash ma a = None"
    and free: "int (ma_n_entries ma) < ma_max_entries ma" and addr: "mae_mem_address e = a"
  shows "rs_wf (ma\<lparr>ma_entries := (ma_entries ma)[ma_n_entries ma := e],
    ma_n_entries := ma_n_entries ma + 1, ma_list := ma_list ma @ [ma_n_entries ma],
    ma_hash := (ma_hash ma)(a \<mapsto> ma_n_entries ma)\<rparr>)"
proof -
  let ?n = "ma_n_entries ma"
  have n: "?n < length (ma_entries ma)" using rs_wfD(2,4)[OF wf] free by simp
  have "((ma_hash ma)(a \<mapsto> ?n)) b = Some j \<longleftrightarrow>
      j < ?n + 1 \<and> mae_mem_address ((ma_entries ma)[?n := e] ! j) = b" for b j
    using rs_wfD(8)[OF wf, of b j] rs_wf_hash_None[OF wf, of a] miss addr n
    by (auto simp: nth_list_update)
  then show ?thesis
    using rs_wfD[OF wf] free by (simp add: rs_wf_def) auto
qed

lemma store_reuse_wf:
  assumes wf: "rs_wf ma" and miss: "ma_hash ma a = None"
    and l: "ma_list ma = k # rest" and addr: "mae_mem_address e = a"
  shows "rs_wf (ma\<lparr>ma_entries := (ma_entries ma)[k := e], ma_list := rest @ [k],
    ma_hash := ((ma_hash ma)(mae_mem_address (ma_entries ma ! k) := None))(a \<mapsto> k)\<rparr>)"
proof -
  have k: "k < ma_n_entries ma" "k < length (ma_entries ma)"
    using rs_wfD[OF wf] l by (auto simp: set_eq_iff)
  have "(((ma_hash ma)(mae_mem_address (ma_entries ma ! k) := None))(a \<mapsto> k)) b = Some j \<longleftrightarrow>
      j < ma_n_entries ma \<and> mae_mem_address ((ma_entries ma)[k := e] ! j) = b" for b j
    using rs_wfD(8)[OF wf, of b j] rs_wf_hash_None[OF wf, of a] miss addr k
      rs_wf_slot_unique[OF wf k(1), of j]
    by (auto simp: nth_list_update)
  moreover have "set (rest @ [k]) = {0..<ma_n_entries ma}"
    using rs_wfD(7)[OF wf] l by auto
  ultimately show ?thesis
    using rs_wfD[OF wf] l by (simp add: rs_wf_def)
qed

lemmas store_wf_lemmas = store_hit_wf store_free_wf store_reuse_wf

lemma mae_hit_address [simp]: "mae_mem_address (mae_hit v e) = mae_mem_address e"
  by (simp add: mae_hit_def)

lemma ski_liveness_store_wf:
  assumes "rs_wf ma"
  shows "\<exists>ma' c. ski_liveness_store ma eip a v = Inr (ma', Some c) \<and> rs_wf ma' \<and>
    ma_max_entries ma' = ma_max_entries ma"
proof (cases "ma_hash ma a")
  case (Some k)
  show ?thesis
    unfolding store_hit[OF assms Some] using store_hit_wf[OF assms Some] by simp
next
  case None
  show ?thesis
  proof (cases "int (ma_n_entries ma) < ma_max_entries ma")
    case True
    show ?thesis
      unfolding store_free[OF assms None True] using store_free_wf[OF assms None True] by simp
  next
    case False
    from store_reuse[OF assms None False, of eip v] obtain k rest where
      l: "ma_list ma = k # rest" and eq: "ski_liveness_store ma eip a v = Inr (ma\<lparr>ma_entries := (ma_entries ma)[k :=
        \<lparr>mae_count = 1, mae_eip = eip, mae_mem_address = a, mae_mem_value = v\<rparr>],
      ma_list := rest @ [k],
      ma_hash := ((ma_hash ma)(mae_mem_address (ma_entries ma ! k) := None))(a \<mapsto> k)\<rparr>, Some 1)"
      by blast
    show ?thesis unfolding eq using store_reuse_wf[OF assms None l] by simp
  qed
qed

section \<open>The operations implement a least-recently-used cache\<close>

lemma find_address:
  assumes "rs_wf ma" and "ma_hash ma a = Some k"
  shows "find (\<lambda>e. mae_mem_address e = a) (rs_seq ma) = Some (ma_entries ma ! k)"
proof -
  have k: "k \<in> set (ma_list ma)" "mae_mem_address (ma_entries ma ! k) = a"
    using assms rs_wfD(7,8)[OF assms(1)] by auto
  then obtain i where i: "i < length (ma_list ma)" "ma_list ma ! i = k"
    by (auto simp: in_set_conv_nth)
  have "\<forall>j<i. mae_mem_address (rs_seq ma ! j) \<noteq> a"
  proof (intro allI impI notI)
    fix j assume j: "j < i" and eq: "mae_mem_address (rs_seq ma ! j) = a"
    have "ma_list ma ! j = ma_list ma ! i"
      using rs_wf_inj[OF assms(1)] i j eq k
      by (auto simp: rs_seq_def inj_on_def)
    then show False
      using nth_eq_iff_index_eq[OF rs_wfD(6)[OF assms(1)], of j i] i j by simp
  qed
  then show ?thesis
    unfolding find_Some_iff using i k by (intro exI[of _ i]) (simp add: rs_seq_def)
qed

lemma find_address_None:
  assumes "rs_wf ma" and "ma_hash ma a = None"
  shows "find (\<lambda>e. mae_mem_address e = a) (rs_seq ma) = None"
  using rs_wf_hash_None[OF assms(1), of a] assms(2) rs_wfD(7)[OF assms(1)]
  by (auto simp: find_None_iff rs_seq_def)

lemma map_nth_update_notin:
  "k \<notin> set ks \<Longrightarrow> map (\<lambda>j. es[k := e] ! j) ks = map (\<lambda>j. es ! j) ks"
  by (induction ks) auto

lemma rs_entries_inj:
  "rs_wf ma \<Longrightarrow> inj_on (\<lambda>k. ma_entries ma ! k) (set (ma_list ma))"
  using rs_wf_inj[of ma] by (auto simp: inj_on_def)

lemma ski_liveness_store_seq:
  assumes wf: "rs_wf ma"
  shows "\<exists>ma' c. ski_liveness_store ma eip a v = Inr (ma', Some c) \<and>
    rs_seq ma' = lru_store (nat (ma_max_entries ma)) (rs_seq ma) eip a v \<and>
    c = mae_count (last (rs_seq ma'))"
proof (cases "ma_hash ma a")
  case (Some k)
  then have k: "k \<in> set (ma_list ma)" "k < length (ma_entries ma)"
    using rs_wfD[OF wf] by auto
  have "k \<notin> set (remove1 k (ma_list ma))" using rs_wfD(6)[OF wf] by simp
  then show ?thesis
    unfolding store_hit[OF wf Some] lru_store_def find_address[OF wf Some]
    using k by (simp add: rs_seq_def map_nth_update_notin remove1_map_inj[OF rs_entries_inj[OF wf]])
next
  case None
  have len: "length (rs_seq ma) = ma_n_entries ma"
    using rs_wf_length_list[OF wf] by (simp add: rs_seq_def)
  show ?thesis
  proof (cases "int (ma_n_entries ma) < ma_max_entries ma")
    case True
    then have "ma_n_entries ma \<notin> set (ma_list ma)" "ma_n_entries ma < length (ma_entries ma)"
      "ma_n_entries ma < nat (ma_max_entries ma)"
      using rs_wfD[OF wf] by auto
    then show ?thesis
      unfolding store_free[OF wf None True] lru_store_def find_address_None[OF wf None]
      using len by (simp add: rs_seq_def map_nth_update_notin)
  next
    case False
    from store_reuse[OF wf None False, of eip v] obtain k rest where
      l: "ma_list ma = k # rest" and eq: "ski_liveness_store ma eip a v = Inr (ma\<lparr>ma_entries := (ma_entries ma)[k :=
        \<lparr>mae_count = 1, mae_eip = eip, mae_mem_address = a, mae_mem_value = v\<rparr>],
      ma_list := rest @ [k],
      ma_hash := ((ma_hash ma)(mae_mem_address (ma_entries ma ! k) := None))(a \<mapsto> k)\<rparr>, Some 1)"
      by blast
    have "k \<notin> set rest" "k < length (ma_entries ma)" "\<not> ma_n_entries ma < nat (ma_max_entries ma)"
      using rs_wfD[OF wf] l False by (auto simp: set_eq_iff)
    then show ?thesis
      unfolding eq lru_store_def find_address_None[OF wf None]
      using len l by (simp add: rs_seq_def map_nth_update_notin)
  qed
qed

text \<open>On addresses: the newest address moves to the end and the oldest leaves.\<close>

lemma remove1_find_address:
  assumes "distinct (map mae_mem_address es)" and "find (\<lambda>e. mae_mem_address e = a) es = Some e"
  shows "map mae_mem_address (remove1 e es) = remove1 a (map mae_mem_address es)"
  using assms
proof (induction es)
  case (Cons x es)
  then show ?case
    by (cases "mae_mem_address x = a") (auto simp: find_Some_iff)
qed simp

lemma lru_store_addrs:
  assumes "distinct (map mae_mem_address es)"
  shows "map mae_mem_address (lru_store cap es eip a v) = lru_addrs cap (map mae_mem_address es) a"
proof (cases "find (\<lambda>e. mae_mem_address e = a) es")
  case None
  then have "a \<notin> set (map mae_mem_address es)" by (auto simp: find_None_iff)
  with None show ?thesis by (simp add: lru_store_def lru_addrs_def map_tl)
next
  case (Some e)
  then have "mae_mem_address e = a" "a \<in> set (map mae_mem_address es)"
    by (auto simp: find_Some_iff)
  with Some remove1_find_address[OF assms Some] show ?thesis
    by (simp add: lru_store_def lru_addrs_def)
qed

lemma ski_liveness_store_addrs:
  assumes "rs_wf ma" and "ski_liveness_store ma eip a v = Inr (ma', c)"
  shows "rs_wf ma' \<and> ma_max_entries ma' = ma_max_entries ma \<and>
    rs_addrs ma' = lru_addrs (nat (ma_max_entries ma)) (rs_addrs ma) a"
  using ski_liveness_store_wf[OF assms(1), of eip a v] ski_liveness_store_seq[OF assms(1), of eip a v]
    assms(2) lru_store_addrs[of "rs_seq ma"] rs_wf_addrs(1)[OF assms(1)]
  by (auto simp: rs_addrs_def)

lemma remdups_snoc: "remdups (xs @ [a]) = removeAll a (remdups xs) @ [a]"
  by (induction xs) auto

lemma lru_addrs_suffix:
  assumes "0 < cap" and "distinct ds" and "as = drop (length ds - cap) ds"
  shows "lru_addrs cap as a =
    drop (length (removeAll a ds @ [a]) - cap) (removeAll a ds @ [a])"
proof -
  define p where "p = take (length ds - cap) ds"
  have ds: "ds = p @ as" "length as \<le> cap" "p \<noteq> [] \<Longrightarrow> length as = cap"
    "a \<in> set as \<Longrightarrow> a \<notin> set p" "distinct as"
    using assms(2,3) by (auto simp: p_def append_take_drop_id[symmetric]
        simp del: append_take_drop_id
        dest: set_take_disj_set_drop_if_distinct[of ds "length ds - cap" "length ds - cap"])
  show ?thesis
  proof (cases "a \<in> set as")
    case True
    with ds have "removeAll a ds = p @ remove1 a as"
      by (simp add: removeAll_id distinct_remove1_removeAll)
    moreover have "length (remove1 a as) = length as - 1" "0 < length as"
      using True by (auto simp: length_remove1)
    ultimately show ?thesis
      using True ds(2,3) assms(1) by (cases "p = []") (auto simp: lru_addrs_def)
  next
    case False
    show ?thesis
    proof (cases "length as < cap")
      case True
      with ds(3) have "p = []" by auto
      with ds(1) False True show ?thesis by (simp add: lru_addrs_def removeAll_id)
    next
      case full: False
      then have "length as = cap" using ds(2) by simp
      moreover obtain x xs where "as = x # xs" using \<open>length as = cap\<close> assms(1) by (cases as) auto
      ultimately show ?thesis
        using ds(1) False full by (simp add: lru_addrs_def removeAll_id)
    qed
  qed
qed

lemma rs_run_snoc:
  "rs_run ma (tr @ [(eip, a, v)]) = bind_res (rs_run ma tr) (\<lambda>ma.
     bind_res (ski_liveness_store ma eip a v) (\<lambda>(ma, _). Inr ma))"
  by (simp add: rs_run_def fold_res_append)

lemma rs_run_lru:
  assumes "0 < m" and "m \<le> int SKI_MA_ENTRIES_MAX"
  shows "\<exists>ma. bind_res (ski_liveness_init m) (\<lambda>ma. rs_run ma tr) = Inr ma \<and> rs_wf ma \<and>
    ma_max_entries ma = m \<and>
    rs_addrs ma = (let ds = remdups (map (\<lambda>(_, a, _). a) tr) in drop (length ds - nat m) ds)"
proof (induction tr rule: rev_induct)
  case Nil
  then show ?case using assms by (simp add: rs_run_def rs_addrs_eq)
next
  case (snoc x tr)
  obtain eip a v where x: "x = (eip, a, v)" by (cases x)
  from snoc obtain ma where ma: "rs_run (zero_ma\<lparr>ma_max_entries := m, ma_is_initialized := 1\<rparr>) tr = Inr ma"
    "rs_wf ma" "ma_max_entries ma = m"
    "rs_addrs ma = (let ds = remdups (map (\<lambda>(_, a, _). a) tr) in drop (length ds - nat m) ds)"
    using assms by auto
  obtain ma' c where st: "ski_liveness_store ma eip a v = Inr (ma', Some c)"
    using ski_liveness_store_wf[OF ma(2)] by blast
  show ?case
    using ski_liveness_store_addrs[OF ma(2) st] ma st assms
      lru_addrs_suffix[of "nat m" "remdups (map (\<lambda>(_, a, _). a) tr)"]
    by (simp add: x rs_run_snoc Let_def remdups_snoc)
qed

lemma lru_store_append:
  assumes "a \<notin> set (map mae_mem_address es)" and "length es < cap"
  shows "lru_store cap es eip a v =
      es @ [\<lparr>mae_count = 1, mae_eip = eip, mae_mem_address = a, mae_mem_value = v\<rparr>]"
proof -
  have "find (\<lambda>e. mae_mem_address e = a) es = None"
    using assms(1) by (auto simp: find_None_iff)
  with assms(2) show ?thesis by (simp add: lru_store_def)
qed

text \<open>
  A copy holds the same entries in the same order, with every count restarted at one.
\<close>

definition restart :: "ski_ma_entry \<Rightarrow> ski_ma_entry" where
  "restart e = e\<lparr>mae_count := 1\<rparr>"

lemma restart_eq:
  "\<lparr>mae_count = 1, mae_eip = mae_eip e, mae_mem_address = mae_mem_address e,
     mae_mem_value = mae_mem_value e\<rparr> = restart e"
  by (cases e) (simp add: restart_def)

lemma restart_address [simp]: "mae_mem_address (restart e) = mae_mem_address e"
  by (simp add: restart_def)

lemma copy_loop:
  assumes "rs_wf dst" and "distinct (map mae_mem_address (rs_seq dst @ es))"
    and "int (length (rs_seq dst @ es)) \<le> ma_max_entries dst"
  shows "\<exists>ma. fold_res (\<lambda>ma e. bind_res (ski_liveness_store ma (mae_eip e) (mae_mem_address e)
        (mae_mem_value e)) (\<lambda>(ma, _). Inr ma)) dst es = Inr ma \<and>
      rs_wf ma \<and> ma_max_entries ma = ma_max_entries dst \<and> rs_seq ma = rs_seq dst @ map restart es"
  using assms
proof (induction es arbitrary: dst)
  case (Cons e es)
  from ski_liveness_store_wf[OF Cons.prems(1)]
    ski_liveness_store_seq[OF Cons.prems(1), of "mae_eip e" "mae_mem_address e" "mae_mem_value e"]
  obtain ma c where st: "ski_liveness_store dst (mae_eip e) (mae_mem_address e) (mae_mem_value e) = Inr (ma, Some c)"
    and ma: "rs_wf ma" "ma_max_entries ma = ma_max_entries dst"
      "rs_seq ma = lru_store (nat (ma_max_entries dst)) (rs_seq dst) (mae_eip e) (mae_mem_address e) (mae_mem_value e)"
    by fastforce
  have seq: "rs_seq ma = rs_seq dst @ [restart e]"
    unfolding ma(3) using Cons.prems(2,3) by (subst lru_store_append) (auto simp: restart_eq)
  have "\<exists>ma'. fold_res (\<lambda>ma e. bind_res (ski_liveness_store ma (mae_eip e) (mae_mem_address e)
        (mae_mem_value e)) (\<lambda>(ma, _). Inr ma)) ma es = Inr ma' \<and>
      rs_wf ma' \<and> ma_max_entries ma' = ma_max_entries ma \<and> rs_seq ma' = rs_seq ma @ map restart es"
    using Cons.prems(2,3) ma(2) by (intro Cons.IH[OF ma(1)]) (auto simp: seq)
  with st seq ma(2) show ?case by auto
qed simp

lemma fold_res_map: "fold_res f s (map g xs) = fold_res (\<lambda>s x. f s (g x)) s xs"
  by (induction xs arbitrary: s) simp_all

lemma ski_liveness_copy_seq:
  assumes "rs_wf src"
  shows "\<exists>ma. ski_liveness_copy src = Inr ma \<and> rs_wf ma \<and>
    ma_max_entries ma = ma_max_entries src \<and> rs_seq ma = map restart (rs_seq src)"
proof -
  note wf = rs_wfD[OF assms]
  let ?z = "zero_ma\<lparr>ma_max_entries := ma_max_entries src, ma_is_initialized := 1\<rparr>"
  have z: "rs_wf ?z" "rs_seq ?z = []" using wf by (simp_all add: rs_seq_def)
  have "\<exists>ma. fold_res (\<lambda>ma e. bind_res (ski_liveness_store ma (mae_eip e) (mae_mem_address e)
        (mae_mem_value e)) (\<lambda>(ma, _). Inr ma)) ?z (rs_seq src) = Inr ma \<and>
      rs_wf ma \<and> ma_max_entries ma = ma_max_entries ?z \<and> rs_seq ma = rs_seq ?z @ map restart (rs_seq src)"
    using rs_wf_addrs(1,2)[OF assms] wf(5) z
    by (intro copy_loop[OF z(1)]) (auto simp: rs_addrs_def)
  then show ?thesis
    using wf z(2) by (auto simp: ski_liveness_copy_def rs_seq_def fold_res_map Let_def)
qed

section \<open>The interface of a read set\<close>

text \<open>
  What the scheduler relies on: storing makes an address present and forgets only other
  addresses, resetting forgets all, and a copy has exactly the addresses of its source.
\<close>

locale read_set =
  fixes wf :: "'m \<Rightarrow> bool"
    and present :: "'m \<Rightarrow> int \<Rightarrow> bool"
    and store :: "'m \<Rightarrow> int \<Rightarrow> int \<Rightarrow> int \<Rightarrow> ('m \<times> int option) res"
    and reset :: "'m \<Rightarrow> 'm res"
    and copy :: "'m \<Rightarrow> 'm res"
  assumes store_ok: "wf m \<Longrightarrow> \<exists>m' c. store m eip a v = Inr (m', Some c)"
    and store_wf: "wf m \<Longrightarrow> store m eip a v = Inr (m', c) \<Longrightarrow> wf m'"
    and store_present: "wf m \<Longrightarrow> store m eip a v = Inr (m', c) \<Longrightarrow> present m' a"
    and store_only: "wf m \<Longrightarrow> store m eip a v = Inr (m', c) \<Longrightarrow> present m' b \<Longrightarrow> b = a \<or> present m b"
    and reset_ok: "wf m \<Longrightarrow> \<exists>m'. reset m = Inr m' \<and> wf m' \<and> (\<forall>a. \<not> present m' a)"
    and copy_ok: "wf m \<Longrightarrow> \<exists>m'. copy m = Inr m' \<and> wf m' \<and> (\<forall>a. present m' a = present m a)"
begin

definition after :: "'m \<Rightarrow> (int \<times> int \<times> int) list \<Rightarrow> 'm res" where
  "after m tr = fold_res (\<lambda>m (eip, a, v). bind_res (store m eip a v) (\<lambda>(m, _). Inr m)) m tr"

lemma after_ok: "wf m \<Longrightarrow> \<exists>m'. after m tr = Inr m' \<and> wf m'"
proof (induction tr arbitrary: m)
  case (Cons x tr)
  obtain eip a v where x: "x = (eip, a, v)" by (cases x)
  from store_ok[OF Cons.prems] obtain m1 c where st: "store m eip a v = Inr (m1, Some c)" by blast
  with Cons.IH[OF store_wf[OF Cons.prems st]] x show ?case by (simp add: after_def)
qed (simp add: after_def)

lemma after_present_sub:
  "wf m \<Longrightarrow> after m tr = Inr m' \<Longrightarrow> present m' b \<Longrightarrow>
    present m b \<or> b \<in> (\<lambda>(_, a, _). a) ` set tr"
proof (induction tr arbitrary: m)
  case (Cons x tr)
  obtain eip a v where x: "x = (eip, a, v)" by (cases x)
  from store_ok[OF Cons.prems(1)] obtain m1 c where st: "store m eip a v = Inr (m1, Some c)" by blast
  with Cons.prems(2) x have "after m1 tr = Inr m'" by (simp add: after_def)
  from Cons.IH[OF store_wf[OF Cons.prems(1) st] this Cons.prems(3)]
    store_only[OF Cons.prems(1) st] x show ?case by auto
qed (simp add: after_def)

end

lemma ski_liveness_reset_wf:
  "rs_wf ma \<Longrightarrow> ski_liveness_reset ma =
    Inr (zero_ma\<lparr>ma_max_entries := ma_max_entries ma, ma_is_initialized := 1\<rparr>)"
  using rs_wfD(1,4)[of ma] by (simp add: ski_liveness_reset_def)

lemma lru_addrs_set_sub: "set (lru_addrs cap as a) \<subseteq> insert a (set as)"
  using set_remove1_subset[of a as] by (cases as) (auto simp: lru_addrs_def)

lemma lru_addrs_last: "a \<in> set (lru_addrs cap as a)"
  by (simp add: lru_addrs_def)

interpretation rs: read_set rs_wf ski_liveness_is_present ski_liveness_store
  ski_liveness_reset ski_liveness_copy
proof (unfold_locales, goal_cases)
  case (1 m eip a v)
  then show ?case using ski_liveness_store_wf by blast
next
  case (2 m eip a v m' c)
  then show ?case using ski_liveness_store_addrs by blast
next
  case (3 m eip a v m' c)
  from ski_liveness_store_addrs[OF this] rs_wf_addrs(3)[of m'] lru_addrs_last[of a]
  show ?case by auto
next
  case (4 m eip a v m' c b)
  from ski_liveness_store_addrs[OF 4(1,2)] rs_wf_addrs(3)[of m'] rs_wf_addrs(3)[OF 4(1)] 4(3)
    lru_addrs_set_sub[of "nat (ma_max_entries m)" "rs_addrs m" a]
  show ?case by auto
next
  case (5 m)
  then show ?case
    using rs_wfD[OF 5] by (simp add: ski_liveness_reset_wf)
      (simp add: ski_liveness_is_present_def zero_ma_def)
next
  case (6 m)
  from ski_liveness_copy_seq[OF 6] obtain ma where
    ma: "ski_liveness_copy m = Inr ma" "rs_wf ma" "rs_seq ma = map restart (rs_seq m)" by blast
  then have "rs_addrs ma = rs_addrs m" by (simp add: rs_addrs_def)
  with rs_wf_addrs(3)[OF ma(2)] rs_wf_addrs(3)[OF 6] ma show ?case by auto
qed

section \<open>Properties of the read set\<close>

text \<open>
  C23: a read set of capacity \<open>m\<close> never fails and holds, after any trace of stores, the
  last \<open>m\<close> distinct addresses of the trace in the order of their latest access.
\<close>

theorem read_set_recent:
  assumes "0 < m" and "m \<le> int SKI_MA_ENTRIES_MAX"
  shows "\<exists>ma. bind_res (ski_liveness_init m) (\<lambda>ma. rs_run ma tr) = Inr ma \<and> rs_wf ma \<and>
    rs_addrs ma = (let ds = remdups (map (\<lambda>(_, a, _). a) tr) in drop (length ds - nat m) ds) \<and>
    (\<forall>a. ski_liveness_is_present ma a \<longleftrightarrow> a \<in> set (rs_addrs ma))"
proof -
  from rs_run_lru[OF assms, of tr] obtain ma where
    "bind_res (ski_liveness_init m) (\<lambda>ma. rs_run ma tr) = Inr ma" "rs_wf ma"
    "rs_addrs ma = (let ds = remdups (map (\<lambda>(_, a, _). a) tr) in drop (length ds - nat m) ds)" by blast
  with rs_wf_addrs(3)[of ma] show ?thesis by blast
qed

theorem read_set_recent_witness:
  "\<exists>ma. bind_res (ski_liveness_init 2) (\<lambda>ma. rs_run ma [(1, 100, 5), (2, 200, 6), (3, 100, 5), (4, 300, 7)]) = Inr ma \<and>
     rs_addrs ma = [100, 300]"
  using read_set_recent[of 2 "[(1, 100, 5), (2, 200, 6), (3, 100, 5), (4, 300, 7)]"] by auto

text \<open>
  C24: the store of the read set (slots, access order and hash index) refines the plain
  least-recently-used list: under the invariant it succeeds, keeps the invariant, returns the
  hit count of the stored entry, and its sequence of entries is the one \<open>lru_store\<close> computes.
\<close>

theorem liveness_store_refines:
  assumes "rs_wf ma"
  shows "\<exists>ma' c. ski_liveness_store ma eip a v = Inr (ma', Some c) \<and> rs_wf ma' \<and>
    rs_seq ma' = lru_store (nat (ma_max_entries ma)) (rs_seq ma) eip a v \<and>
    c = mae_count (last (rs_seq ma'))"
proof -
  from ski_liveness_store_seq[OF assms, of eip a v] obtain ma' c where
    st: "ski_liveness_store ma eip a v = Inr (ma', Some c)"
    "rs_seq ma' = lru_store (nat (ma_max_entries ma)) (rs_seq ma) eip a v" "c = mae_count (last (rs_seq ma'))"
    by blast
  moreover have "rs_wf ma'" by (rule rs.store_wf[OF assms st(1)])
  ultimately show ?thesis by blast
qed

theorem liveness_store_refines_witness:
  "\<exists>ma'. ski_liveness_store (zero_ma\<lparr>ma_max_entries := 2, ma_is_initialized := 1\<rparr>) 7 100 5 = Inr (ma', Some 1) \<and>
     rs_wf ma' \<and> map mae_mem_address (rs_seq ma') = [100]"
  using liveness_store_refines[of "zero_ma\<lparr>ma_max_entries := 2, ma_is_initialized := 1\<rparr>" 7 100 5]
  by (auto simp: rs_seq_def lru_store_def)

text \<open>
  Copying a read set succeeds on every consistent source and yields a consistent set with
  the same capacity and the same entries in the same order, with their hit counts restarted.
\<close>

theorem liveness_copy_faithful:
  assumes "rs_wf src"
  shows "\<exists>ma. ski_liveness_copy src = Inr ma \<and> rs_wf ma \<and> ma_max_entries ma = ma_max_entries src \<and>
    rs_seq ma = map restart (rs_seq src) \<and>
    (\<forall>a. ski_liveness_is_present ma a = ski_liveness_is_present src a)"
proof -
  from ski_liveness_copy_seq[OF assms] obtain ma where ma: "ski_liveness_copy src = Inr ma" "rs_wf ma"
    "ma_max_entries ma = ma_max_entries src" "rs_seq ma = map restart (rs_seq src)" by blast
  then have "rs_addrs ma = rs_addrs src" by (simp add: rs_addrs_def)
  with rs_wf_addrs(3)[OF ma(2)] rs_wf_addrs(3)[OF assms] ma show ?thesis by auto
qed

theorem liveness_copy_faithful_witness:
  "\<exists>ma. ski_liveness_copy (zero_ma\<lparr>ma_max_entries := 2, ma_is_initialized := 1\<rparr>) = Inr ma \<and> rs_wf ma"
  using liveness_copy_faithful[of "zero_ma\<lparr>ma_max_entries := 2, ma_is_initialized := 1\<rparr>"] by auto

end
