(* ===== verification/Ski_Bitmap.thy ===== *)
theory Ski_Bitmap
  imports Ski_Prelude
begin

text \<open>
  256-bit tables held in eight 32-bit words, as the interrupt controller
  (\<open>vmm/hw/apic.c\<close>) keeps its request, service and trigger-mode registers and the scheduler
  (\<open>vmm/cpu-exec.c\<close>) its set of ignored vectors.  The interface \<open>bit_table\<close> states a table
  as a set of indices; the search for the highest vector is proved to return the maximum.
\<close>

unbundle bit_operations_syntax

section \<open>Operations\<close>

type_synonym bitmap = "32 word list"

definition apic_set_bit :: "bitmap \<Rightarrow> nat \<Rightarrow> bitmap" where
  "apic_set_bit tab index =
    (let i = drop_bit 5 index; mask = push_bit (index AND 31) 1 in tab[i := tab ! i OR mask])"

definition apic_reset_bit :: "bitmap \<Rightarrow> nat \<Rightarrow> bitmap" where
  "apic_reset_bit tab index =
    (let i = drop_bit 5 index; mask = push_bit (index AND 31) 1 in tab[i := tab ! i AND NOT mask])"

definition apic_get_bit :: "bitmap \<Rightarrow> nat \<Rightarrow> bool" where
  "apic_get_bit tab index =
    (let i = drop_bit 5 index; mask = push_bit (index AND 31) 1 in tab ! i AND mask \<noteq> 0)"

definition ski_set_bit :: "bitmap \<Rightarrow> nat \<Rightarrow> bitmap" where
  "ski_set_bit tab index =
    (let i = drop_bit 5 index; mask = push_bit (index AND 31) 1 in tab[i := tab ! i OR mask])"

text \<open>\<open>clz32\<close> and \<open>ctz32\<close> count the zero bits above the highest and below the lowest set bit.\<close>

fun clz_from :: "32 word \<Rightarrow> nat \<Rightarrow> nat" where
  "clz_from v 0 = 0"
| "clz_from v (Suc n) = (if bit v n then 0 else Suc (clz_from v n))"

definition clz32 :: "32 word \<Rightarrow> nat" where
  "clz32 v = clz_from v 32"

definition fls_bit :: "32 word \<Rightarrow> int" where
  "fls_bit value = 31 - int (clz32 value)"

fun ctz_from :: "32 word \<Rightarrow> nat \<Rightarrow> nat \<Rightarrow> nat" where
  "ctz_from v i 0 = i"
| "ctz_from v i (Suc n) = (if bit v i then i else ctz_from v (Suc i) n)"

definition ctz32 :: "32 word \<Rightarrow> nat" where
  "ctz32 v = ctz_from v 0 32"

definition ffs_bit :: "32 word \<Rightarrow> int" where
  "ffs_bit value = int (ctz32 value)"

fun highest_from :: "bitmap \<Rightarrow> nat \<Rightarrow> int" where
  "highest_from tab 0 = -1"
| "highest_from tab (Suc i) =
    (if tab ! i \<noteq> 0 then int i * 32 + fls_bit (tab ! i) else highest_from tab i)"

definition get_highest_priority_int :: "bitmap \<Rightarrow> int" where
  "get_highest_priority_int tab = highest_from tab 8"

definition bitmap_wf :: "bitmap \<Rightarrow> bool" where
  "bitmap_wf tab \<longleftrightarrow> length tab = 8"

definition zero_bitmap :: bitmap where
  "zero_bitmap = replicate 8 0"

definition bitmap_set :: "bitmap \<Rightarrow> nat set" where
  "bitmap_set tab = {n. n < 256 \<and> apic_get_bit tab n}"

section \<open>The interface of a bit table\<close>

locale bit_table =
  fixes wf :: "'t \<Rightarrow> bool"
    and get :: "'t \<Rightarrow> nat \<Rightarrow> bool"
    and set_b :: "'t \<Rightarrow> nat \<Rightarrow> 't"
    and reset_b :: "'t \<Rightarrow> nat \<Rightarrow> 't"
    and cap :: nat
  assumes wf_set: "wf t \<Longrightarrow> wf (set_b t i)"
    and wf_reset: "wf t \<Longrightarrow> wf (reset_b t i)"
    and get_set: "wf t \<Longrightarrow> i < cap \<Longrightarrow> j < cap \<Longrightarrow> get (set_b t i) j \<longleftrightarrow> j = i \<or> get t j"
    and get_reset: "wf t \<Longrightarrow> i < cap \<Longrightarrow> j < cap \<Longrightarrow> get (reset_b t i) j \<longleftrightarrow> j \<noteq> i \<and> get t j"
begin

lemma wf_foldl_set: "wf t \<Longrightarrow> wf (foldl set_b t is)"
  by (induction "is" arbitrary: t) (simp_all add: wf_set)

lemma get_foldl_set:
  "wf t \<Longrightarrow> \<forall>i\<in>set is. i < cap \<Longrightarrow> j < cap \<Longrightarrow>
    get (foldl set_b t is) j \<longleftrightarrow> j \<in> set is \<or> get t j"
  by (induction "is" arbitrary: t) (auto simp: wf_set get_set)

text \<open>Moving an index from one table to another.\<close>

lemma get_move:
  assumes "wf t" "wf u" "i < cap" "j < cap"
  shows "get (reset_b t i) j \<or> get (set_b u i) j \<longleftrightarrow> get t j \<and> j \<noteq> i \<or> j = i \<or> get u j"
  using assms by (simp add: get_set get_reset) blast

end

section \<open>Laws of the tables\<close>

lemma drop_bit5_nat: "drop_bit 5 (n::nat) = n div 32"
  by (simp add: drop_bit_eq_div)

lemma and31_nat: "(n::nat) AND 31 = n mod 32"
  using take_bit_eq_mask[of 5 n] take_bit_eq_mod[of 5 n] by (simp add: mask_eq_exp_minus_1)

lemma idx_word: "(n::nat) < 256 \<Longrightarrow> n div 32 < 8"
  by simp

lemma word32_zero_iff: "(v :: 32 word) = 0 \<longleftrightarrow> (\<forall>m<32. \<not> bit v m)"
  by (auto intro: bit_word_eqI)

lemma word_and_bit_iff: "m < 32 \<Longrightarrow> (w :: 32 word) AND 2 ^ m \<noteq> 0 \<longleftrightarrow> bit w m"
  by (auto simp: word32_zero_iff bit_and_iff bit_exp_iff)

lemma apic_get_bit_iff: "apic_get_bit tab n \<longleftrightarrow> bit (tab ! (n div 32)) (n mod 32)"
  by (simp add: apic_get_bit_def Let_def drop_bit5_nat and31_nat word_and_bit_iff)

lemma apic_set_bit_eq:
  "apic_set_bit tab n = tab[n div 32 := tab ! (n div 32) OR 2 ^ (n mod 32)]"
  by (simp add: apic_set_bit_def Let_def drop_bit5_nat and31_nat)

lemma apic_reset_bit_eq:
  "apic_reset_bit tab n = tab[n div 32 := tab ! (n div 32) AND NOT (2 ^ (n mod 32))]"
  by (simp add: apic_reset_bit_def Let_def drop_bit5_nat and31_nat)

lemma div_mod_32_eq: "(i::nat) div 32 = j div 32 \<Longrightarrow> i mod 32 = j mod 32 \<Longrightarrow> i = j"
  by (metis mult_div_mod_eq)

lemma bit_or_push:
  "m < 32 \<Longrightarrow> k < 32 \<Longrightarrow> bit ((w :: 32 word) OR 2 ^ k) m \<longleftrightarrow> m = k \<or> bit w m"
  by (auto simp: bit_or_iff bit_exp_iff)

lemma bit_and_not_push:
  "m < 32 \<Longrightarrow> k < 32 \<Longrightarrow> bit ((w :: 32 word) AND NOT (2 ^ k)) m \<longleftrightarrow> m \<noteq> k \<and> bit w m"
  by (auto simp: bit_and_iff bit_not_iff bit_exp_iff)

lemma apic_get_set_bit:
  assumes "bitmap_wf tab" "i < 256" "j < 256"
  shows "apic_get_bit (apic_set_bit tab i) j \<longleftrightarrow> j = i \<or> apic_get_bit tab j"
proof (cases "j div 32 = i div 32")
  case True
  then have "j mod 32 = i mod 32 \<longleftrightarrow> j = i" using div_mod_32_eq[of j i] by blast
  with True assms show ?thesis
    by (simp add: apic_get_bit_iff apic_set_bit_eq bitmap_wf_def nth_list_update_if bit_or_push)
next
  case False
  then have "j \<noteq> i" by blast
  with False assms show ?thesis
    by (simp add: apic_get_bit_iff apic_set_bit_eq bitmap_wf_def nth_list_update_if)
qed

lemma apic_get_reset_bit:
  assumes "bitmap_wf tab" "i < 256" "j < 256"
  shows "apic_get_bit (apic_reset_bit tab i) j \<longleftrightarrow> j \<noteq> i \<and> apic_get_bit tab j"
proof (cases "j div 32 = i div 32")
  case True
  then have "j mod 32 = i mod 32 \<longleftrightarrow> j = i" using div_mod_32_eq[of j i] by blast
  with True assms show ?thesis
    by (simp add: apic_get_bit_iff apic_reset_bit_eq bitmap_wf_def nth_list_update_if bit_and_not_push)
next
  case False
  then have "j \<noteq> i" by blast
  with False assms show ?thesis
    by (simp add: apic_get_bit_iff apic_reset_bit_eq bitmap_wf_def nth_list_update_if)
qed

lemma ski_set_bit_eq: "ski_set_bit = apic_set_bit"
  by (simp add: fun_eq_iff ski_set_bit_def apic_set_bit_def)

interpretation apic_bits: bit_table bitmap_wf apic_get_bit apic_set_bit apic_reset_bit 256
  by unfold_locales
    (simp_all add: apic_get_set_bit apic_get_reset_bit,
      simp_all add: bitmap_wf_def apic_set_bit_eq apic_reset_bit_eq)

interpretation ski_bits: bit_table bitmap_wf apic_get_bit ski_set_bit apic_reset_bit 256
  unfolding ski_set_bit_eq by (rule apic_bits.bit_table_axioms)

lemma bitmap_wf_zero [simp]: "bitmap_wf zero_bitmap"
  by (simp add: bitmap_wf_def zero_bitmap_def)

lemma apic_get_bit_zero [simp]: "n < 256 \<Longrightarrow> \<not> apic_get_bit zero_bitmap n"
  by (simp add: apic_get_bit_iff zero_bitmap_def idx_word)

lemma bitmap_set_simps [simp]:
  "bitmap_set zero_bitmap = {}"
  "bitmap_wf tab \<Longrightarrow> i < 256 \<Longrightarrow> bitmap_set (apic_set_bit tab i) = insert i (bitmap_set tab)"
  "bitmap_wf tab \<Longrightarrow> i < 256 \<Longrightarrow> bitmap_set (apic_reset_bit tab i) = bitmap_set tab - {i}"
  by (auto simp: bitmap_set_def apic_get_set_bit apic_get_reset_bit)

lemma finite_bitmap_set [simp]: "finite (bitmap_set tab)"
  by (simp add: bitmap_set_def)

section \<open>The highest vector\<close>

lemma clz_from_le: "clz_from v n \<le> n"
  by (induction n) auto

lemma clz_from_spec:
  "clz_from v n < n \<Longrightarrow> bit v (n - 1 - clz_from v n) \<and> (\<forall>m<n. bit v m \<longrightarrow> m \<le> n - 1 - clz_from v n)"
proof (induction n)
  case (Suc n)
  then show ?case
    using clz_from_le[of v n] by (auto split: if_splits simp: less_Suc_eq)
qed simp

lemma clz_from_all: "clz_from v n = n \<longleftrightarrow> (\<forall>m<n. \<not> bit v m)"
proof (induction n)
  case (Suc n)
  then show ?case using clz_from_le[of v n] by (auto simp: less_Suc_eq)
qed simp

lemma fls_bit_spec:
  assumes "v \<noteq> 0"
  shows "\<exists>m<32. fls_bit v = int m \<and> bit v m \<and> (\<forall>k<32. bit v k \<longrightarrow> k \<le> m)"
proof -
  have "clz_from v 32 \<noteq> 32" using assms by (simp add: clz_from_all word32_zero_iff)
  then have lt: "clz_from v 32 < 32" using clz_from_le[of v 32] by simp
  let ?m = "31 - clz_from v 32"
  have "fls_bit v = int ?m" using lt by (simp add: fls_bit_def clz32_def of_nat_diff)
  with clz_from_spec[OF lt] lt show ?thesis by (intro exI[of _ ?m]) simp
qed

lemma highest_from_spec:
  "(highest_from tab n = -1 \<and> (\<forall>i<n. tab ! i = 0)) \<or>
   (\<exists>k. highest_from tab n = int k \<and> k < 32 * n \<and> apic_get_bit tab k \<and>
      (\<forall>j<32 * n. apic_get_bit tab j \<longrightarrow> j \<le> k))"
proof (induction n)
  case (Suc n)
  show ?case
  proof (cases "tab ! n = 0")
    case False
    from fls_bit_spec[OF this] obtain m where m: "m < 32" "fls_bit (tab ! n) = int m"
      "bit (tab ! n) m" "\<forall>k<32. bit (tab ! n) k \<longrightarrow> k \<le> m" by blast
    have le: "j \<le> n * 32 + m" if j: "j < 32 * Suc n" "apic_get_bit tab j" for j
    proof (cases "j div 32 = n")
      case True
      then have "j mod 32 \<le> m" using j(2) m(4) by (simp add: apic_get_bit_iff)
      then show ?thesis using True by (metis add_left_mono mult.commute mult_div_mod_eq)
    next
      case False
      then have "j < 32 * n" using j(1) by auto
      then show ?thesis by simp
    qed
    have "apic_get_bit tab (n * 32 + m)" using m by (simp add: apic_get_bit_iff)
    then show ?thesis using False m(1,2) le by (intro disjI2 exI[of _ "n * 32 + m"]) simp
  next
    case True
    have *: "j < 32 * n" if "j < 32 * Suc n" "apic_get_bit tab j" for j
    proof (rule ccontr)
      assume "\<not> j < 32 * n"
      then have "j div 32 = n" using that(1) by auto
      then show False using that(2) True by (simp add: apic_get_bit_iff)
    qed
    from Suc.IH show ?thesis
    proof
      assume "highest_from tab n = -1 \<and> (\<forall>i<n. tab ! i = 0)"
      then show ?thesis using True by (auto simp: less_Suc_eq)
    next
      assume "\<exists>k. highest_from tab n = int k \<and> k < 32 * n \<and> apic_get_bit tab k \<and>
        (\<forall>j<32 * n. apic_get_bit tab j \<longrightarrow> j \<le> k)"
      then show ?thesis using True * by (intro disjI2) fastforce
    qed
  qed
qed simp

lemma get_highest_priority_int_eq:
  assumes "bitmap_wf tab"
  shows "get_highest_priority_int tab =
    (if bitmap_set tab = {} then -1 else int (Max (bitmap_set tab)))"
  using highest_from_spec[of tab 8]
proof
  assume "highest_from tab 8 = -1 \<and> (\<forall>i<8. tab ! i = 0)"
  then have "bitmap_set tab = {}" by (auto simp: bitmap_set_def apic_get_bit_iff idx_word)
  then show ?thesis using \<open>highest_from tab 8 = -1 \<and> _\<close>
    by (simp only: get_highest_priority_int_def refl if_True)
next
  assume "\<exists>k. highest_from tab 8 = int k \<and> k < 32 * 8 \<and> apic_get_bit tab k \<and>
      (\<forall>j<32 * 8. apic_get_bit tab j \<longrightarrow> j \<le> k)"
  then obtain k where k: "highest_from tab 8 = int k" "k \<in> bitmap_set tab"
    "\<forall>j\<in>bitmap_set tab. j \<le> k" by (auto simp: bitmap_set_def)
  then have "Max (bitmap_set tab) = k" by (intro Max_eqI) auto
  moreover have "bitmap_set tab \<noteq> {}" using k(2) by blast
  ultimately show ?thesis
    using k(1) by (simp only: get_highest_priority_int_def if_False)
qed

end
