(* ===== verification/Ski_State.thy ===== *)
theory Ski_State
  imports Ski_Liveness Ski_Bitmap
begin

text \<open>
  The data of the scheduler: thread contexts (\<open>vmm/ski.h\<close>), the per-CPU part of SKI and
  the fields of the emulated CPU that it reads or writes (\<open>vmm/cpu-defs.h\<close>,
  \<open>vmm/target-i386/cpu.h\<close>), the local interrupt controller (\<open>vmm/hw/apic.c\<close>) and the
  globals of \<open>vmm/cpu-exec.c\<close> and \<open>vmm/vl.c\<close>.  CPUs form a list in the order of the
  linked list \<open>first_cpu\<close>; a pointer to a CPU is its position in that list and a pointer
  to a thread context is its position in the array \<open>ski_threads\<close>.
\<close>

section \<open>Constants\<close>

abbreviation (input) SKI_TC_STATE_RUNNABLE :: int where "SKI_TC_STATE_RUNNABLE \<equiv> 1"
abbreviation (input) SKI_TC_STATE_BLOCKED :: int where "SKI_TC_STATE_BLOCKED \<equiv> 2"
abbreviation (input) SKI_TC_STATE_IS_WAITING :: int where "SKI_TC_STATE_IS_WAITING \<equiv> 4"
abbreviation (input) SKI_TC_STATE_MAYBE_WAITING :: int where "SKI_TC_STATE_MAYBE_WAITING \<equiv> 8"
abbreviation (input) SKI_TC_STATE_NEEDS_TRIGGER :: int where "SKI_TC_STATE_NEEDS_TRIGGER \<equiv> 16"
abbreviation (input) SKI_TC_STATE_COUNT_ZERO :: int where "SKI_TC_STATE_COUNT_ZERO \<equiv> 32"
abbreviation (input) SKI_TC_STATE_NA :: int where "SKI_TC_STATE_NA \<equiv> 64"

abbreviation (input) SKI_LIVENESS_PRIORITY_HLT :: int where "SKI_LIVENESS_PRIORITY_HLT \<equiv> 10000"
abbreviation (input) SKI_LIVENESS_PRIORITY_PAUSE :: int where "SKI_LIVENESS_PRIORITY_PAUSE \<equiv> 5000"
abbreviation (input) SKI_LIVENESS_PRIORITY_NOPAUSE_LOOP :: int where
  "SKI_LIVENESS_PRIORITY_NOPAUSE_LOOP \<equiv> 2000"

abbreviation (input) MAX_SKI_THREADS :: nat where "MAX_SKI_THREADS \<equiv> 512"
abbreviation (input) SKI_MAX_INTERRUPTS_STACK :: nat where "SKI_MAX_INTERRUPTS_STACK \<equiv> 20"
abbreviation (input) SKI_MAX_LIVENESS_PAUSE_DISTANCE :: int where "SKI_MAX_LIVENESS_PAUSE_DISTANCE \<equiv> 30"
abbreviation (input) SKI_MAX_LIVENESS_MA_LOOP_THRESHOLD :: int where
  "SKI_MAX_LIVENESS_MA_LOOP_THRESHOLD \<equiv> 10000"

abbreviation (input) SKI_CPU_NA :: int where "SKI_CPU_NA \<equiv> 0"
abbreviation (input) SKI_CPU_BLOCKED_ON_ENTER :: int where "SKI_CPU_BLOCKED_ON_ENTER \<equiv> 1"
abbreviation (input) SKI_CPU_RUNNING_TEST :: int where "SKI_CPU_RUNNING_TEST \<equiv> 2"
abbreviation (input) SKI_CPU_BLOCKED_ON_EXIT :: int where "SKI_CPU_BLOCKED_ON_EXIT \<equiv> 3"

abbreviation (input) SKI_PREEMPTION_MODE_ALL :: int where "SKI_PREEMPTION_MODE_ALL \<equiv> 1"
abbreviation (input) SKI_PREEMPTION_MODE_CPU :: int where "SKI_PREEMPTION_MODE_CPU \<equiv> 2"
abbreviation (input) SKI_PREEMPTION_MODE_CPU_AND_NONTIMER :: int where
  "SKI_PREEMPTION_MODE_CPU_AND_NONTIMER \<equiv> 3"

abbreviation (input) SKI_SCHED_ADJUST_MODULO :: int where "SKI_SCHED_ADJUST_MODULO \<equiv> 500000"
abbreviation (input) SKI_SCHED_ADJUST_INC :: int where "SKI_SCHED_ADJUST_INC \<equiv> 20"
abbreviation (input) SKI_DEBUG_MAX_ADJUST :: int where "SKI_DEBUG_MAX_ADJUST \<equiv> 500"
abbreviation (input) SKI_SCHED_MAX_PREEMPTION_INSTRUCTIONS :: int where
  "SKI_SCHED_MAX_PREEMPTION_INSTRUCTIONS \<equiv> 100000000"

abbreviation (input) EXCP_SKI_ENTER_WAITING :: int where "EXCP_SKI_ENTER_WAITING \<equiv> 65540"
abbreviation (input) EXCP_SKI_EXIT_WAITING :: int where "EXCP_SKI_EXIT_WAITING \<equiv> 65541"
abbreviation (input) EXCP_SKI_SCHEDULER :: int where "EXCP_SKI_SCHEDULER \<equiv> 65542"

abbreviation (input) SKI_EXIT_OK :: int where "SKI_EXIT_OK \<equiv> 4"
abbreviation (input) SKI_EXIT_NO_RUNNABLE :: int where "SKI_EXIT_NO_RUNNABLE \<equiv> 2"
abbreviation (input) SKI_EXIT_MAX_PRIORITY_ADJ :: int where "SKI_EXIT_MAX_PRIORITY_ADJ \<equiv> 5"
abbreviation (input) SKI_EXIT_MAX_PREEMPTION_INST :: int where "SKI_EXIT_MAX_PREEMPTION_INST \<equiv> 6"
abbreviation (input) SKI_EXIT_ASSERT_INTERRUPT :: int where "SKI_EXIT_ASSERT_INTERRUPT \<equiv> 7"
abbreviation (input) SKI_EXIT_AFTER_HYPERCALL :: int where "SKI_EXIT_AFTER_HYPERCALL \<equiv> 8"

abbreviation (input) CPU_INTERRUPT_HARD :: "32 word" where "CPU_INTERRUPT_HARD \<equiv> 0x2"
abbreviation (input) HF2_VINTR_MASK :: "32 word" where "HF2_VINTR_MASK \<equiv> 0x8"
abbreviation (input) HF2_HIF_MASK :: "32 word" where "HF2_HIF_MASK \<equiv> 0x2"
abbreviation (input) IF_MASK :: "32 word" where "IF_MASK \<equiv> 0x200"
abbreviation (input) HF_INHIBIT_IRQ_MASK :: "32 word" where "HF_INHIBIT_IRQ_MASK \<equiv> 0x8"

section \<open>Records\<close>

record ski_interrupt =
  si_exists :: int
  si_int_no :: int
  si_is_int_instruction :: int
  si_is_hw :: int

record SKICPU =
  sc_nr_cpus :: int
  sc_nr_max_instr :: int
  sc_state :: int
  sc_nr_instr_executed :: int
  sc_nr_instr_executed_other :: int
  sc_priority :: int
  sc_priority_adjust :: int
  sc_blocked :: bool
  sc_ignore_interrupts :: bitmap
  sc_nr_syscalls_self :: int
  sc_nr_interrupts_self :: int
  sc_nr_syscalls_other :: int
  sc_nr_interrupts_other :: int
  sc_cr3 :: int
  sc_gdt :: int
  sc_interrupts_stack :: "ski_interrupt list"
  sc_interrupts_stack_no :: int
  sc_cpu_rs :: ski_ma
  sc_wait_for_interrupt :: int
  sc_last_enter_cpu :: bool

record APICState =
  apic_apicbase :: "32 word"
  apic_id :: "8 word"
  apic_arb_id :: "8 word"
  apic_tpr :: "8 word"
  apic_spurious_vec :: "32 word"
  apic_log_dest :: "8 word"
  apic_dest_mode :: "8 word"
  apic_isr :: bitmap
  apic_tmr :: bitmap
  apic_irr :: bitmap
  apic_lvt :: "32 word list"
  apic_esr :: "32 word"
  apic_icr :: "32 word list"
  apic_divide_conf :: "32 word"
  apic_count_shift :: nat
  apic_initial_count :: "32 word"
  apic_initial_count_load_time :: int
  apic_next_time :: int
  apic_idx :: nat
  apic_sipi_vector :: int
  apic_wait_for_sipi :: int

record CPUState =
  cpu_index :: int
  cpu_stop :: int
  cpu_stopped :: int
  cpu_exception_index :: int
  cpu_interrupt_request :: "32 word"
  cpu_hflags :: "32 word"
  cpu_hflags2 :: "32 word"
  cpu_eflags :: "32 word"
  cpu_eip :: int
  cpu_cr3 :: int
  cpu_gdt_base :: int
  cpu_apic :: APICState
  ski_active :: bool
  ski_cpu :: SKICPU
  ski_old_stopped :: bool
  ski_old_stop :: bool

record thread_context =
  tc_exists :: int
  tc_id :: int
  tc_priority :: int
  tc_priority_adjust :: int
  tc_cpu_no :: int
  tc_is_int :: int
  tc_int_no :: int
  tc_reentry_no :: int
  tc_count :: int
  tc_state :: int
  tc_last_pause :: int
  tc_wait_rs :: ski_ma
  tc_wait_for_rs_on_pause :: int
  tc_wait_for_rs :: int

text \<open>The globals; the option fields are set by \<open>ski_parse\<close> and \<open>ski_input_init\<close>.\<close>

record ski_state =
  cpus :: "CPUState list"
  ski_threads :: "thread_context list"
  ski_threads_no :: nat
  ski_threads_current :: "nat option"
  ski_threads_need_reevaluate :: int
  ski_sched_instructions_current :: int
  ski_sched_instructions_total :: int
  ski_exec_instruction_counter_total :: int
  ski_exec_instruction_counter_per_cycle :: int
  ski_apic_disable_timer :: int
  ski_apic_disable_all :: int
  ski_block_other_cpus :: int
  ski_global_init_preemption :: int
  opt_preemptions :: "int list"
  opt_preemption_mode :: int
  opt_input_number :: "int list"
  opt_seed :: int
  opt_nr_cpus :: int
  opt_trap_enabled :: bool
  opt_preemption_by_eip :: bool
  opt_forkall_enabled :: bool
  ski_preemption_by_eip :: "int list"
  ski_last_eip :: int
  ski_snapshot_restoring :: int
  opt_priorities_file :: "string option"
  opt_exit_after_hypercall :: bool
  opt_quit_hypercall_threshold :: int
  ski_quit_hypercall_counter :: int

type_synonym env = nat

section \<open>Access and update\<close>

definition cpu_of :: "ski_state \<Rightarrow> env \<Rightarrow> CPUState" where
  "cpu_of s c = cpus s ! c"

definition sc_of :: "ski_state \<Rightarrow> env \<Rightarrow> SKICPU" where
  "sc_of s c = ski_cpu (cpus s ! c)"

definition upd_cpu :: "env \<Rightarrow> (CPUState \<Rightarrow> CPUState) \<Rightarrow> ski_state \<Rightarrow> ski_state" where
  "upd_cpu c f s = s\<lparr>cpus := (cpus s)[c := f (cpus s ! c)]\<rparr>"

definition upd_sc :: "env \<Rightarrow> (SKICPU \<Rightarrow> SKICPU) \<Rightarrow> ski_state \<Rightarrow> ski_state" where
  "upd_sc c f s = upd_cpu c (\<lambda>e. e\<lparr>ski_cpu := f (ski_cpu e)\<rparr>) s"

definition tc_of :: "ski_state \<Rightarrow> nat \<Rightarrow> thread_context" where
  "tc_of s i = ski_threads s ! i"

definition upd_tc :: "nat \<Rightarrow> (thread_context \<Rightarrow> thread_context) \<Rightarrow> ski_state \<Rightarrow> ski_state" where
  "upd_tc i f s = s\<lparr>ski_threads := (ski_threads s)[i := f (ski_threads s ! i)]\<rparr>"

text \<open>\<open>SKI_ASSERT\<close> traps only where the option enables it and is otherwise a no-op.\<close>

definition SKI_ASSERT :: "ski_state \<Rightarrow> bool \<Rightarrow> unit res" where
  "SKI_ASSERT s x = (if \<not> x \<and> opt_trap_enabled s then Inl Int3_trap else Inr ())"

definition SKI_ASSERT_MSG :: "bool \<Rightarrow> int \<Rightarrow> unit res" where
  "SKI_ASSERT_MSG e exit_code = (if e then Inr () else Inl (Ski_exit exit_code))"

section \<open>Laws of the updates\<close>

lemma SKI_ASSERT_True [simp]: "SKI_ASSERT s True = Inr ()"
  by (simp add: SKI_ASSERT_def)

lemma SKI_ASSERT_eq_Inr [simp]: "SKI_ASSERT s b = Inr u \<longleftrightarrow> b \<or> \<not> opt_trap_enabled s"
  by (auto simp: SKI_ASSERT_def)

lemma SKI_ASSERT_MSG_simps [simp]:
  "SKI_ASSERT_MSG True c = Inr ()" "SKI_ASSERT_MSG False c = Inl (Ski_exit c)"
  by (simp_all add: SKI_ASSERT_MSG_def)

lemma SKI_ASSERT_MSG_eq_Inr [simp]: "SKI_ASSERT_MSG b c = Inr u \<longleftrightarrow> b"
  by (simp add: SKI_ASSERT_MSG_def)

lemma upd_cpu_fields [simp]:
  "length (cpus (upd_cpu c f s)) = length (cpus s)"
  "ski_threads (upd_cpu c f s) = ski_threads s"
  "ski_threads_no (upd_cpu c f s) = ski_threads_no s"
  "ski_threads_current (upd_cpu c f s) = ski_threads_current s"
  "ski_threads_need_reevaluate (upd_cpu c f s) = ski_threads_need_reevaluate s"
  "opt_trap_enabled (upd_cpu c f s) = opt_trap_enabled s"
  by (simp_all add: upd_cpu_def)

lemma upd_sc_fields [simp]:
  "length (cpus (upd_sc c f s)) = length (cpus s)"
  "ski_threads (upd_sc c f s) = ski_threads s"
  "ski_threads_no (upd_sc c f s) = ski_threads_no s"
  "ski_threads_current (upd_sc c f s) = ski_threads_current s"
  "ski_threads_need_reevaluate (upd_sc c f s) = ski_threads_need_reevaluate s"
  "opt_trap_enabled (upd_sc c f s) = opt_trap_enabled s"
  by (simp_all add: upd_sc_def)

lemma upd_tc_fields [simp]:
  "cpus (upd_tc i f s) = cpus s"
  "length (ski_threads (upd_tc i f s)) = length (ski_threads s)"
  "ski_threads_no (upd_tc i f s) = ski_threads_no s"
  "ski_threads_current (upd_tc i f s) = ski_threads_current s"
  "ski_threads_need_reevaluate (upd_tc i f s) = ski_threads_need_reevaluate s"
  "opt_trap_enabled (upd_tc i f s) = opt_trap_enabled s"
  by (simp_all add: upd_tc_def)

lemma tc_of_upd_tc [simp]:
  "i < length (ski_threads s) \<Longrightarrow> tc_of (upd_tc i f s) j = (if j = i then f (tc_of s i) else tc_of s j)"
  by (simp add: tc_of_def upd_tc_def nth_list_update_if)

lemma tc_of_upd_cpu [simp]: "tc_of (upd_cpu c f s) j = tc_of s j"
  and tc_of_upd_sc [simp]: "tc_of (upd_sc c g s) j = tc_of s j"
  by (simp_all add: tc_of_def)

lemma cpu_of_upd_cpu [simp]:
  "c < length (cpus s) \<Longrightarrow> cpu_of (upd_cpu c f s) d = (if d = c then f (cpu_of s c) else cpu_of s d)"
  by (simp add: cpu_of_def upd_cpu_def nth_list_update_if)

lemma sc_of_upd_sc [simp]:
  "c < length (cpus s) \<Longrightarrow> sc_of (upd_sc c f s) d = (if d = c then f (sc_of s c) else sc_of s d)"
  by (simp add: sc_of_def upd_sc_def upd_cpu_def nth_list_update_if)

lemma cpu_of_upd_tc [simp]: "cpu_of (upd_tc i f s) c = cpu_of s c"
  and sc_of_upd_tc [simp]: "sc_of (upd_tc i f s) c = sc_of s c"
  by (simp_all add: cpu_of_def sc_of_def)

lemma of_reevaluate [simp]:
  "sc_of (s\<lparr>ski_threads_need_reevaluate := v\<rparr>) c = sc_of s c"
  "cpu_of (s\<lparr>ski_threads_need_reevaluate := v\<rparr>) c = cpu_of s c"
  "tc_of (s\<lparr>ski_threads_need_reevaluate := v\<rparr>) i = tc_of s i"
  by (simp_all add: sc_of_def cpu_of_def tc_of_def)

lemma cpu_index_upd_sc [simp]: "map cpu_index (cpus (upd_sc c f s)) = map cpu_index (cpus s)"
  by (cases "c < length (cpus s)")
    (auto simp: upd_sc_def upd_cpu_def map_update list_update_beyond list_update_same_conv)

end
