(* ===== verification/Ski_Threads.thy ===== *)
theory Ski_Threads
  imports Ski_State
begin

text \<open>
  The thread table of the scheduler (\<open>vmm/cpu-exec.c\<close>): construction of the table, the
  effective priority of a thread, the two searches over the table and the choice of the
  next thread to run.  The searches can stop at the assertion of \<open>find_cpu\<close>; under the
  invariant that every thread names an existing CPU they are proved equal to a pure
  selection, and the choice is characterised as the eligible thread of least effective
  priority.
\<close>

unbundle bit_operations_syntax

section \<open>Construction of the table\<close>

definition ski_tc_initialize ::
  "thread_context \<Rightarrow> int \<Rightarrow> int \<Rightarrow> int \<Rightarrow> int \<Rightarrow> int \<Rightarrow> thread_context" where
  "ski_tc_initialize tc tid priority cpu_no int_no reentry_no =
    (let is_int = (if int_no \<ge> 0 then 1 else 0 :: int)
     in tc\<lparr>tc_priority := priority, tc_priority_adjust := 0,
          tc_exists := (if is_int \<noteq> 0 then 0 else 1), tc_id := tid,
          tc_cpu_no := cpu_no, tc_is_int := is_int, tc_int_no := int_no,
          tc_reentry_no := reentry_no, tc_count := 1,
          tc_state := (if is_int \<noteq> 0 then SKI_TC_STATE_NA else SKI_TC_STATE_RUNNABLE)\<rparr>)"

definition ski_threads_reset :: "ski_state \<Rightarrow> ski_state" where
  "ski_threads_reset s = s\<lparr>ski_threads_no := 0\<rparr>"

definition ski_threads_insert :: "ski_state \<Rightarrow> int \<Rightarrow> int \<Rightarrow> int \<Rightarrow> ski_state res" where
  "ski_threads_insert s cpu i n =
    (let entry_index = ski_threads_no s
     in bind_res (c_assert (i = -1 \<or> i \<ge> 0)) (\<lambda>_.
        bind_res (c_assert (entry_index < MAX_SKI_THREADS)) (\<lambda>_.
          Inr ((upd_tc entry_index (\<lambda>tc.
                 (ski_tc_initialize tc (int entry_index) (int entry_index) cpu i 0)
                   \<lparr>tc_count := n\<rparr>) s)\<lparr>ski_threads_no := ski_threads_no s + 1\<rparr>))))"

definition liveness_clear :: "thread_context \<Rightarrow> thread_context" where
  "liveness_clear tc = tc\<lparr>tc_last_pause := - SKI_MAX_LIVENESS_PAUSE_DISTANCE,
    tc_wait_rs := zero_ma, tc_wait_for_rs_on_pause := 0, tc_wait_for_rs := 0\<rparr>"

definition ski_liveness_initialize :: "ski_state \<Rightarrow> ski_state" where
  "ski_liveness_initialize s =
    s\<lparr>ski_threads := map liveness_clear (take (ski_threads_no s) (ski_threads s)) @
        drop (ski_threads_no s) (ski_threads s),
      cpus := map (\<lambda>e. e\<lparr>ski_cpu := (ski_cpu e)\<lparr>sc_wait_for_interrupt := 0\<rparr>\<rparr>) (cpus s)\<rparr>"

section \<open>Interrupt stack queries\<close>

fun find_cpu_from :: "CPUState list \<Rightarrow> env \<Rightarrow> int \<Rightarrow> env res" where
  "find_cpu_from [] c cpu_no = Inl Assert_failed"
| "find_cpu_from (e # es) c cpu_no =
    (if cpu_index e = cpu_no then Inr c else find_cpu_from es (Suc c) cpu_no)"

definition find_cpu :: "ski_state \<Rightarrow> int \<Rightarrow> env res" where
  "find_cpu s cpu_no = find_cpu_from (cpus s) 0 cpu_no"

definition hw_entry :: "ski_interrupt \<Rightarrow> bool" where
  "hw_entry si \<longleftrightarrow> si_exists si \<noteq> 0 \<and> si_is_hw si = 1 \<and> si_is_int_instruction si = 0"

definition ski_interrupts_in_hw_int :: "SKICPU \<Rightarrow> bool" where
  "ski_interrupts_in_hw_int sc = list_ex hw_entry (take SKI_MAX_INTERRUPTS_STACK (sc_interrupts_stack sc))"

text \<open>
  The loop of \<open>ski_interrupts_is_top_hw_stack\<close> runs to \<open>i <= SKI_MAX_INTERRUPTS_STACK\<close> and
  so reads one element past the array.  In the x86-64 layout of \<open>SKICPU\<close> that element
  covers \<open>interrupts_stack_no\<close>, \<open>cpu_rs.is_initialized\<close>, four padding bytes and
  \<open>cpu_rs.entries[0].count\<close>.
\<close>

definition past_stack :: "SKICPU \<Rightarrow> ski_interrupt" where
  "past_stack sc = \<lparr>si_exists = sc_interrupts_stack_no sc,
    si_int_no = ma_is_initialized (sc_cpu_rs sc), si_is_int_instruction = 0,
    si_is_hw = mae_count (ma_entries (sc_cpu_rs sc) ! 0)\<rparr>"

definition ski_interrupts_is_top_hw_stack :: "SKICPU \<Rightarrow> thread_context \<Rightarrow> bool" where
  "ski_interrupts_is_top_hw_stack sc tc =
    (let reentry_no = foldl (\<lambda>r si. if hw_entry si \<and> si_int_no si = tc_int_no tc then r + 1 else r)
         (-1) (take SKI_MAX_INTERRUPTS_STACK (sc_interrupts_stack sc) @ [past_stack sc])
     in tc_reentry_no tc = reentry_no)"

definition ski_cpu_can_start_interrupts :: "CPUState \<Rightarrow> bool" where
  "ski_cpu_can_start_interrupts e \<longleftrightarrow>
    cpu_interrupt_request e AND CPU_INTERRUPT_HARD \<noteq> 0 \<and>
    (cpu_hflags2 e AND HF2_VINTR_MASK \<noteq> 0 \<and> cpu_hflags2 e AND HF2_HIF_MASK \<noteq> 0 \<or>
     cpu_hflags2 e AND HF2_VINTR_MASK = 0 \<and>
       (cpu_eflags e AND IF_MASK \<noteq> 0 \<and> cpu_hflags e AND HF_INHIBIT_IRQ_MASK = 0))"

section \<open>Priorities and searches\<close>

text \<open>\<open>find_cpu(tc->cpu_no)->ski_cpu\<close> as an expression that may stop at the assertion.\<close>

definition on_cpu :: "ski_state \<Rightarrow> thread_context \<Rightarrow> (env \<Rightarrow> 'a) \<Rightarrow> 'a res" where
  "on_cpu s tc f = bind_res (find_cpu s (tc_cpu_no tc)) (\<lambda>c. Inr (f c))"

definition ski_threads_calculate_priority :: "ski_state \<Rightarrow> thread_context \<Rightarrow> int res" where
  "ski_threads_calculate_priority s tc =
    bind_res (if tc_is_int tc = 0
              then on_cpu s tc (\<lambda>c. sc_wait_for_interrupt (sc_of s c) \<noteq> 0) else Inr False) (\<lambda>hlt.
      Inr (tc_priority tc + tc_priority_adjust tc
        + (if hlt then SKI_LIVENESS_PRIORITY_HLT else 0)
        + (if tc_wait_for_rs_on_pause tc \<noteq> 0 then SKI_LIVENESS_PRIORITY_PAUSE else 0)
        + (if tc_wait_for_rs tc \<noteq> 0 then SKI_LIVENESS_PRIORITY_NOPAUSE_LOOP else 0)))"

definition pick_res :: "ski_state \<Rightarrow> nat option \<Rightarrow> nat \<Rightarrow> nat option res" where
  "pick_res s res i =
    (case res of
       None \<Rightarrow> Inr (Some i)
     | Some r \<Rightarrow>
         bind_res (ski_threads_calculate_priority s (tc_of s r)) (\<lambda>pr.
         bind_res (ski_threads_calculate_priority s (tc_of s i)) (\<lambda>pi.
           Inr (if pr < pi then Some r else Some i))))"

definition tc_waiting :: "ski_state \<Rightarrow> thread_context \<Rightarrow> bool res" where
  "tc_waiting s tc =
    (if tc_wait_for_rs tc \<noteq> 0 \<or> tc_wait_for_rs_on_pause tc \<noteq> 0 then Inr True
     else if tc_is_int tc = 0 then on_cpu s tc (\<lambda>c. sc_wait_for_interrupt (sc_of s c) \<noteq> 0)
     else Inr False)"

text \<open>
  One iteration: each \<open>continue\<close> of the source keeps the candidate \<open>res\<close>.
\<close>

definition next_runnable_step :: "ski_state \<Rightarrow> nat option \<Rightarrow> nat \<Rightarrow> nat option res" where
  "next_runnable_step s res i =
    (let tc = tc_of s i
     in if tc_exists tc = 0 then Inr res
        else bind_res (tc_waiting s tc) (\<lambda>waiting.
          if waiting then Inr res
          else bind_res (if tc_is_int tc = 0
                         then on_cpu s tc (\<lambda>c. sc_state (sc_of s c) = SKI_CPU_BLOCKED_ON_EXIT)
                         else Inr False) (\<lambda>finished.
            if finished then Inr res
            else bind_res
              (if tc_is_int tc = 1
               then bind_res (on_cpu s tc (\<lambda>c. ski_interrupts_is_top_hw_stack (sc_of s c) tc)) (\<lambda>top.
                      if top then Inr True
                      else on_cpu s tc (\<lambda>c. ski_cpu_can_start_interrupts (cpu_of s c)))
               else on_cpu s tc (\<lambda>c. \<not> ski_interrupts_in_hw_int (sc_of s c))) (\<lambda>consider.
              if consider then pick_res s res i else Inr res))))"

definition ski_threads_find_next_runnable :: "ski_state \<Rightarrow> nat res" where
  "ski_threads_find_next_runnable s =
    bind_res (fold_res (next_runnable_step s) None [0..<ski_threads_no s]) (\<lambda>res.
      case res of
        None \<Rightarrow> Inl (Ski_exit SKI_EXIT_NO_RUNNABLE)
      | Some i \<Rightarrow>
          bind_res (ski_threads_calculate_priority s (tc_of s i)) (\<lambda>p.
          bind_res (SKI_ASSERT_MSG (\<not> p > SKI_LIVENESS_PRIORITY_NOPAUSE_LOOP) SKI_EXIT_NO_RUNNABLE)
            (\<lambda>_. Inr i)))"

definition ski_threads_find_next_runnable_int :: "ski_state \<Rightarrow> env \<Rightarrow> int" where
  "ski_threads_find_next_runnable_int s c =
    (case ski_threads_current s of
       None \<Rightarrow> -1
     | Some i \<Rightarrow>
         if tc_is_int (tc_of s i) = 0 \<or> tc_cpu_no (tc_of s i) \<noteq> cpu_index (cpu_of s c) then -1
         else tc_int_no (tc_of s i))"

definition tc_matches :: "int \<Rightarrow> int \<Rightarrow> int \<Rightarrow> int \<Rightarrow> int \<Rightarrow> thread_context \<Rightarrow> bool" where
  "tc_matches exists cpu_no is_int int_no state_mask tc \<longleftrightarrow>
    (exists = -1 \<or> tc_exists tc = exists) \<and> state_mask AND tc_state tc \<noteq> 0 \<and>
    tc_cpu_no tc = cpu_no \<and> tc_is_int tc = is_int \<and> tc_int_no tc = int_no"

definition ski_threads_find ::
  "ski_state \<Rightarrow> int \<Rightarrow> int \<Rightarrow> int \<Rightarrow> int \<Rightarrow> int \<Rightarrow> nat option res" where
  "ski_threads_find s exists cpu_no is_int int_no state_mask =
    fold_res (\<lambda>res i. if tc_matches exists cpu_no is_int int_no state_mask (tc_of s i)
                      then pick_res s res i else Inr res) None [0..<ski_threads_no s]"

section \<open>Specification of the choice\<close>

text \<open>Every thread of the table names an existing CPU and the table is consistent.\<close>

definition cpu_nos :: "ski_state \<Rightarrow> int set" where
  "cpu_nos s = set (map cpu_index (cpus s))"

definition threads_wf :: "ski_state \<Rightarrow> bool" where
  "threads_wf s \<longleftrightarrow>
    length (ski_threads s) = MAX_SKI_THREADS \<and> ski_threads_no s \<le> MAX_SKI_THREADS \<and>
    (\<forall>i < ski_threads_no s. tc_cpu_no (tc_of s i) \<in> cpu_nos s \<and>
       tc_is_int (tc_of s i) = (if tc_int_no (tc_of s i) \<ge> 0 then 1 else 0) \<and>
       tc_id (tc_of s i) = int i)"

definition home :: "ski_state \<Rightarrow> nat \<Rightarrow> env" where
  "home s i = (case find_cpu s (tc_cpu_no (tc_of s i)) of Inr c \<Rightarrow> c | Inl _ \<Rightarrow> 0)"

definition halted_on :: "ski_state \<Rightarrow> nat \<Rightarrow> bool" where
  "halted_on s i \<longleftrightarrow> tc_is_int (tc_of s i) = 0 \<and> sc_wait_for_interrupt (sc_of s (home s i)) \<noteq> 0"

definition eff_priority :: "ski_state \<Rightarrow> nat \<Rightarrow> int" where
  "eff_priority s i = tc_priority (tc_of s i) + tc_priority_adjust (tc_of s i)
    + (if halted_on s i then SKI_LIVENESS_PRIORITY_HLT else 0)
    + (if tc_wait_for_rs_on_pause (tc_of s i) \<noteq> 0 then SKI_LIVENESS_PRIORITY_PAUSE else 0)
    + (if tc_wait_for_rs (tc_of s i) \<noteq> 0 then SKI_LIVENESS_PRIORITY_NOPAUSE_LOOP else 0)"

definition eligible :: "ski_state \<Rightarrow> nat \<Rightarrow> bool" where
  "eligible s i \<longleftrightarrow>
    (let tc = tc_of s i; c = home s i
     in tc_exists tc \<noteq> 0 \<and> tc_wait_for_rs tc = 0 \<and> tc_wait_for_rs_on_pause tc = 0 \<and>
        (if tc_is_int tc = 1
         then ski_interrupts_is_top_hw_stack (sc_of s c) tc \<or> ski_cpu_can_start_interrupts (cpu_of s c)
         else sc_wait_for_interrupt (sc_of s c) = 0 \<and>
              sc_state (sc_of s c) \<noteq> SKI_CPU_BLOCKED_ON_EXIT \<and>
              \<not> ski_interrupts_in_hw_int (sc_of s c)))"

section \<open>The searches are pure selections\<close>

lemma find_cpu_from_spec:
  "x \<in> cpu_index ` set es \<Longrightarrow>
    \<exists>k<length es. find_cpu_from es c x = Inr (c + k) \<and> cpu_index (es ! k) = x \<and>
      (\<forall>j<k. cpu_index (es ! j) \<noteq> x)"
proof (induction es arbitrary: c)
  case (Cons e es)
  show ?case
  proof (cases "cpu_index e = x")
    case False
    with Cons.prems have "x \<in> cpu_index ` set es" by auto
    from Cons.IH[OF this, of "Suc c"] obtain k where k: "k < length es"
      "find_cpu_from es (Suc c) x = Inr (Suc c + k)" "cpu_index (es ! k) = x"
      "\<forall>j<k. cpu_index (es ! j) \<noteq> x" by blast
    with False show ?thesis
      by (intro exI[of _ "Suc k"]) (auto simp: nth_Cons split: nat.splits)
  qed (intro exI[of _ 0], simp)
qed simp

lemma find_cpu_spec:
  assumes "x \<in> cpu_nos s"
  obtains c where "find_cpu s x = Inr c" "c < length (cpus s)" "cpu_index (cpu_of s c) = x"
    "\<forall>d<c. cpu_index (cpu_of s d) \<noteq> x"
  using find_cpu_from_spec[of x "cpus s" 0] assms
  by (auto simp: cpu_nos_def find_cpu_def cpu_of_def)

lemma find_cpu_fails: "x \<notin> cpu_nos s \<Longrightarrow> find_cpu s x = Inl Assert_failed"
proof -
  have "x \<notin> cpu_index ` set es \<Longrightarrow> find_cpu_from es c x = Inl Assert_failed" for es c
    by (induction es arbitrary: c) auto
  then show "x \<notin> cpu_nos s \<Longrightarrow> find_cpu s x = Inl Assert_failed"
    by (simp add: cpu_nos_def find_cpu_def)
qed

lemma find_cpu_cong:
  "map cpu_index (cpus s) = map cpu_index (cpus s') \<Longrightarrow> find_cpu s x = find_cpu s' x"
proof -
  have *: "map cpu_index es = map cpu_index es' \<Longrightarrow> find_cpu_from es c x = find_cpu_from es' c x"
    for es es' c
  proof (induction es arbitrary: es' c)
    case (Cons e es)
    then obtain e' t' where es': "es' = e' # t'" "cpu_index e = cpu_index e'"
      "map cpu_index es = map cpu_index t'" by (cases es') auto
    from Cons.IH[OF es'(3)] show ?case by (simp add: es'(1,2))
  qed simp
  show "map cpu_index (cpus s) = map cpu_index (cpus s') \<Longrightarrow> find_cpu s x = find_cpu s' x"
    unfolding find_cpu_def by (rule *)
qed

lemma threads_wfD:
  assumes "threads_wf s"
  shows "length (ski_threads s) = MAX_SKI_THREADS" "ski_threads_no s \<le> MAX_SKI_THREADS"
    "i < ski_threads_no s \<Longrightarrow> tc_cpu_no (tc_of s i) \<in> cpu_nos s"
    "i < ski_threads_no s \<Longrightarrow> tc_is_int (tc_of s i) = (if tc_int_no (tc_of s i) \<ge> 0 then 1 else 0)"
    "i < ski_threads_no s \<Longrightarrow> tc_id (tc_of s i) = int i"
    "i < ski_threads_no s \<Longrightarrow> i < length (ski_threads s)"
  using assms by (auto simp: threads_wf_def)

lemma threads_wf_is_int:
  "threads_wf s \<Longrightarrow> i < ski_threads_no s \<Longrightarrow> tc_is_int (tc_of s i) = 0 \<or> tc_is_int (tc_of s i) = 1"
  using threads_wfD(4) by simp

lemma find_cpu_home:
  assumes "threads_wf s" "i < ski_threads_no s"
  shows "find_cpu s (tc_cpu_no (tc_of s i)) = Inr (home s i)"
    "home s i < length (cpus s)" "cpu_index (cpu_of s (home s i)) = tc_cpu_no (tc_of s i)"
proof -
  from find_cpu_spec[OF threads_wfD(3)[OF assms]] obtain c where
    c: "find_cpu s (tc_cpu_no (tc_of s i)) = Inr c" "c < length (cpus s)"
      "cpu_index (cpu_of s c) = tc_cpu_no (tc_of s i)" by blast
  then have "home s i = c" by (simp add: home_def)
  with c show "find_cpu s (tc_cpu_no (tc_of s i)) = Inr (home s i)"
    "home s i < length (cpus s)" "cpu_index (cpu_of s (home s i)) = tc_cpu_no (tc_of s i)"
    by simp_all
qed

lemma on_cpu_home:
  "threads_wf s \<Longrightarrow> i < ski_threads_no s \<Longrightarrow> on_cpu s (tc_of s i) f = Inr (f (home s i))"
  by (simp add: on_cpu_def find_cpu_home)

lemma calculate_priority_eq:
  "threads_wf s \<Longrightarrow> i < ski_threads_no s \<Longrightarrow>
    ski_threads_calculate_priority s (tc_of s i) = Inr (eff_priority s i)"
  by (simp add: ski_threads_calculate_priority_def on_cpu_home eff_priority_def halted_on_def)

lemma pick_res_eq:
  "threads_wf s \<Longrightarrow> i < ski_threads_no s \<Longrightarrow> (\<And>r. res = Some r \<Longrightarrow> r < ski_threads_no s) \<Longrightarrow>
    pick_res s res i = Inr (pick_min (eff_priority s) res i)"
  by (cases res) (simp_all add: pick_res_def pick_min_def calculate_priority_eq)

lemma tc_waiting_eq:
  "threads_wf s \<Longrightarrow> i < ski_threads_no s \<Longrightarrow> tc_waiting s (tc_of s i) =
    Inr (tc_wait_for_rs (tc_of s i) \<noteq> 0 \<or> tc_wait_for_rs_on_pause (tc_of s i) \<noteq> 0 \<or> halted_on s i)"
  by (auto simp: tc_waiting_def on_cpu_home halted_on_def)

lemma next_runnable_step_eq:
  assumes "threads_wf s" "i < ski_threads_no s" "\<And>r. res = Some r \<Longrightarrow> r < ski_threads_no s"
  shows "next_runnable_step s res i =
    Inr (if eligible s i then pick_min (eff_priority s) res i else res)"
  using threads_wf_is_int[OF assms(1,2)]
  by (auto simp: next_runnable_step_def Let_def tc_waiting_eq on_cpu_home pick_res_eq assms
      eligible_def halted_on_def)

lemma pick_min_bound:
  "i < n \<Longrightarrow> (\<And>r. res = Some r \<Longrightarrow> r < n) \<Longrightarrow> pick_min p res i = Some j \<Longrightarrow> j < (n::nat)"
  by (auto simp: pick_min_def split: option.splits if_splits)

lemma search_eq_pick_loop:
  assumes "\<And>res i. i < n \<Longrightarrow> (\<And>r. res = Some r \<Longrightarrow> r < n) \<Longrightarrow>
      f res i = Inr (if elig i then pick_min p res i else res)"
  shows "fold_res f None [0..<n] = Inr (pick_loop elig p None [0..<n])"
  unfolding pick_loop_def
proof (rule fold_res_pure_inv[where P = "\<lambda>res. \<forall>r. res = Some r \<longrightarrow> r < n"], goal_cases)
  case (2 res i)
  then have "i < n" "\<And>r. res = Some r \<Longrightarrow> r < n" by auto
  from assms[OF this] pick_min_bound[OF this, where p = p] 2(1) show ?case by auto
qed simp

theorem find_next_runnable_pick:
  assumes "threads_wf s"
  shows "ski_threads_find_next_runnable s =
    (case pick_loop (eligible s) (eff_priority s) None [0..<ski_threads_no s] of
       None \<Rightarrow> Inl (Ski_exit SKI_EXIT_NO_RUNNABLE)
     | Some i \<Rightarrow> if eff_priority s i > SKI_LIVENESS_PRIORITY_NOPAUSE_LOOP
                 then Inl (Ski_exit SKI_EXIT_NO_RUNNABLE) else Inr i)"
proof -
  have loop: "fold_res (next_runnable_step s) None [0..<ski_threads_no s] =
      Inr (pick_loop (eligible s) (eff_priority s) None [0..<ski_threads_no s])"
    by (rule search_eq_pick_loop) (simp add: next_runnable_step_eq assms)
  show ?thesis
  proof (cases "pick_loop (eligible s) (eff_priority s) None [0..<ski_threads_no s]")
    case (Some i)
    from pick_loop_Some[OF this] have "i < ski_threads_no s" by simp
    with loop Some assms show ?thesis
      by (simp add: ski_threads_find_next_runnable_def calculate_priority_eq SKI_ASSERT_MSG_def)
  qed (simp add: ski_threads_find_next_runnable_def loop)
qed

lemma next_runnable_least:
  assumes "threads_wf s" "ski_threads_find_next_runnable s = Inr i"
  shows "i < ski_threads_no s \<and> eligible s i \<and>
    (\<forall>j < ski_threads_no s. eligible s j \<longrightarrow> eff_priority s i \<le> eff_priority s j)"
proof -
  from assms(2) have "pick_loop (eligible s) (eff_priority s) None [0..<ski_threads_no s] = Some i"
    by (auto simp: find_next_runnable_pick[OF assms(1)] split: option.splits if_splits)
  from pick_loop_Some[OF this] show ?thesis by simp
qed

lemma next_runnable_exists:
  assumes "threads_wf s" "j < ski_threads_no s" "eligible s j" "eff_priority s j \<le> SKI_LIVENESS_PRIORITY_NOPAUSE_LOOP"
  shows "\<exists>i. ski_threads_find_next_runnable s = Inr i \<and> eff_priority s i \<le> eff_priority s j"
proof (cases "pick_loop (eligible s) (eff_priority s) None [0..<ski_threads_no s]")
  case None
  then show ?thesis using assms(2,3) by (simp add: pick_loop_None)
next
  case (Some i)
  from pick_loop_Some[OF this] assms(2,3) have "eff_priority s i \<le> eff_priority s j" by simp
  then show ?thesis using Some assms(4) by (simp add: find_next_runnable_pick[OF assms(1)])
qed

lemma threads_find_pick:
  assumes "threads_wf s"
  shows "ski_threads_find s exists cpu_no is_int int_no msk =
    Inr (pick_loop (\<lambda>i. tc_matches exists cpu_no is_int int_no msk (tc_of s i)) (eff_priority s)
      None [0..<ski_threads_no s])"
  unfolding ski_threads_find_def
  by (rule search_eq_pick_loop) (simp add: pick_res_eq assms)

lemma threads_find_Some:
  assumes "threads_wf s" "ski_threads_find s exists cpu_no is_int int_no msk = Inr (Some i)"
  shows "i < ski_threads_no s \<and> tc_matches exists cpu_no is_int int_no msk (tc_of s i) \<and>
    (\<forall>j < ski_threads_no s. tc_matches exists cpu_no is_int int_no msk (tc_of s j) \<longrightarrow>
       eff_priority s i \<le> eff_priority s j)"
proof -
  from assms(2) have "pick_loop (\<lambda>i. tc_matches exists cpu_no is_int int_no msk (tc_of s i))
      (eff_priority s) None [0..<ski_threads_no s] = Some i"
    by (simp add: threads_find_pick[OF assms(1)])
  from pick_loop_Some[OF this] show ?thesis by simp
qed

lemma threads_find_None:
  assumes "threads_wf s"
  shows "ski_threads_find s exists cpu_no is_int int_no msk = Inr None \<longleftrightarrow>
    (\<forall>j < ski_threads_no s. \<not> tc_matches exists cpu_no is_int int_no msk (tc_of s j))"
  by (auto simp: threads_find_pick[OF assms] pick_loop_None)

section \<open>A sample table\<close>

text \<open>
  Two CPUs, their two CPU threads and one interrupt thread for vector 33 on CPU 0 that may be
  spawned twice, built by the operations above from an empty table.
\<close>

definition blank_tc :: thread_context where
  "blank_tc = \<lparr>tc_exists = 0, tc_id = 0, tc_priority = 0, tc_priority_adjust = 0, tc_cpu_no = 0,
    tc_is_int = 0, tc_int_no = 0, tc_reentry_no = 0, tc_count = 0, tc_state = 0,
    tc_last_pause = 0, tc_wait_rs = zero_ma, tc_wait_for_rs_on_pause = 0, tc_wait_for_rs = 0\<rparr>"

definition blank_sc :: SKICPU where
  "blank_sc = \<lparr>sc_nr_cpus = 2, sc_nr_max_instr = 0, sc_state = SKI_CPU_RUNNING_TEST,
    sc_nr_instr_executed = 0, sc_nr_instr_executed_other = 0, sc_priority = 0,
    sc_priority_adjust = 0, sc_blocked = False, sc_ignore_interrupts = zero_bitmap,
    sc_nr_syscalls_self = 0, sc_nr_interrupts_self = 0, sc_nr_syscalls_other = 0,
    sc_nr_interrupts_other = 0, sc_cr3 = 0, sc_gdt = 0,
    sc_interrupts_stack = replicate SKI_MAX_INTERRUPTS_STACK
      \<lparr>si_exists = 0, si_int_no = 0, si_is_int_instruction = 0, si_is_hw = 0\<rparr>,
    sc_interrupts_stack_no = 0,
    sc_cpu_rs = zero_ma\<lparr>ma_max_entries := int SKI_MA_ENTRIES_MAX, ma_is_initialized := 1\<rparr>,
    sc_wait_for_interrupt = 0, sc_last_enter_cpu = False\<rparr>"

definition blank_apic :: "nat \<Rightarrow> APICState" where
  "blank_apic i = \<lparr>apic_apicbase = 0xfee00900, apic_id = of_nat i, apic_arb_id = of_nat i,
    apic_tpr = 0, apic_spurious_vec = 0x1ff, apic_log_dest = of_nat (2 ^ i), apic_dest_mode = 0xf,
    apic_isr = zero_bitmap, apic_tmr = zero_bitmap, apic_irr = zero_bitmap,
    apic_lvt = replicate 6 0x10000, apic_esr = 0, apic_icr = [0, 0], apic_divide_conf = 0,
    apic_count_shift = 0, apic_initial_count = 0, apic_initial_count_load_time = 0,
    apic_next_time = 0, apic_idx = i, apic_sipi_vector = 0, apic_wait_for_sipi = 0\<rparr>"

definition blank_cpu :: "nat \<Rightarrow> CPUState" where
  "blank_cpu i = \<lparr>cpu_index = int i, cpu_stop = 0, cpu_stopped = 0, cpu_exception_index = -1,
    cpu_interrupt_request = 0, cpu_hflags = 0, cpu_hflags2 = 0, cpu_eflags = 0, cpu_eip = 0,
    cpu_cr3 = 0, cpu_gdt_base = 0, cpu_apic = blank_apic i, ski_active = True,
    ski_cpu = blank_sc, ski_old_stopped = False, ski_old_stop = False\<rparr>"

definition blank_state :: ski_state where
  "blank_state = \<lparr>cpus = [blank_cpu 0, blank_cpu 1],
    ski_threads = replicate MAX_SKI_THREADS blank_tc, ski_threads_no = 0,
    ski_threads_current = None, ski_threads_need_reevaluate = 0,
    ski_sched_instructions_current = 0, ski_sched_instructions_total = 0,
    ski_exec_instruction_counter_total = 0, ski_exec_instruction_counter_per_cycle = 0,
    ski_apic_disable_timer = 0, ski_apic_disable_all = 0, ski_block_other_cpus = 1,
    ski_global_init_preemption = -1, opt_preemptions = [], opt_preemption_mode = 1,
    opt_input_number = replicate 16 (-1), opt_seed = 0, opt_nr_cpus = 2, opt_trap_enabled = True,
    opt_preemption_by_eip = False, opt_forkall_enabled = False, ski_preemption_by_eip = [],
    ski_last_eip = 0, ski_snapshot_restoring = 0, opt_priorities_file = None,
    opt_exit_after_hypercall = False, opt_quit_hypercall_threshold = 0, ski_quit_hypercall_counter = 0\<rparr>"

definition insert_all :: "ski_state \<Rightarrow> (int \<times> int \<times> int) list \<Rightarrow> ski_state res" where
  "insert_all s es = fold_res (\<lambda>s (cpu, i, n). ski_threads_insert s cpu i n) s es"

definition sample_entries :: "(int \<times> int \<times> int) list" where
  "sample_entries = [(0, -1, 1), (1, -1, 1), (0, 33, 2)]"

definition sample_tc :: "nat \<Rightarrow> thread_context" where
  "sample_tc i = (case sample_entries ! i of (cpu, v, n) \<Rightarrow>
    (ski_tc_initialize blank_tc (int i) (int i) cpu v 0)\<lparr>tc_count := n\<rparr>)"

definition sample_state :: ski_state where
  "sample_state = blank_state\<lparr>ski_threads := map sample_tc [0, 1, 2] @ replicate 509 blank_tc,
    ski_threads_no := 3\<rparr>"

lemma sample_state_built: "insert_all (ski_threads_reset blank_state) sample_entries = Inr sample_state"
  by (simp add: insert_all_def sample_entries_def ski_threads_insert_def ski_threads_reset_def
      sample_state_def blank_state_def upd_tc_def sample_tc_def numeral_eq_Suc)

lemma sample_state_fields [simp]:
  "cpus sample_state = [blank_cpu 0, blank_cpu 1]" "ski_threads_no sample_state = 3"
  "length (ski_threads sample_state) = 512" "ski_threads_current sample_state = None"
  "opt_trap_enabled sample_state"
  "tc_of sample_state 0 = sample_tc 0" "tc_of sample_state (Suc 0) = sample_tc 1"
  "tc_of sample_state 2 = sample_tc 2"
  by (simp_all add: sample_state_def blank_state_def tc_of_def)

lemma sample_tc_simps [simp]:
  "sample_tc 0 = blank_tc\<lparr>tc_exists := 1, tc_id := 0, tc_priority := 0, tc_cpu_no := 0,
    tc_int_no := -1, tc_count := 1, tc_state := 1\<rparr>"
  "sample_tc (Suc 0) = blank_tc\<lparr>tc_exists := 1, tc_id := 1, tc_priority := 1, tc_cpu_no := 1,
    tc_int_no := -1, tc_count := 1, tc_state := 1\<rparr>"
  "sample_tc 2 = blank_tc\<lparr>tc_id := 2, tc_priority := 2, tc_cpu_no := 0, tc_is_int := 1,
    tc_int_no := 33, tc_count := 2, tc_state := 64\<rparr>"
  by (simp_all add: sample_tc_def sample_entries_def ski_tc_initialize_def blank_tc_def)

section \<open>Properties of the table\<close>

definition entry_tc :: "thread_context \<Rightarrow> nat \<Rightarrow> int \<times> int \<times> int \<Rightarrow> thread_context" where
  "entry_tc tc k e = (case e of (cpu, i, n) \<Rightarrow>
    (ski_tc_initialize tc (int k) (int k) cpu i 0)\<lparr>tc_count := n\<rparr>)"

lemma insert_eq:
  "i \<ge> -1 \<Longrightarrow> ski_threads_no s < MAX_SKI_THREADS \<Longrightarrow> ski_threads_insert s cpu i n =
    Inr ((upd_tc (ski_threads_no s) (\<lambda>tc. entry_tc tc (ski_threads_no s) (cpu, i, n)) s)
      \<lparr>ski_threads_no := ski_threads_no s + 1\<rparr>)"
proof -
  assume "i \<ge> -1" "ski_threads_no s < MAX_SKI_THREADS"
  moreover from this have "i = -1 \<or> i \<ge> 0" by linarith
  ultimately show ?thesis by (simp add: ski_threads_insert_def entry_tc_def Let_def)
qed

lemma tc_of_no_update [simp]: "tc_of (s\<lparr>ski_threads_no := n\<rparr>) k = tc_of s k"
  by (simp add: tc_of_def)

lemma insert_all_spec:
  assumes "length (ski_threads s) = MAX_SKI_THREADS" "ski_threads_no s + length es \<le> MAX_SKI_THREADS"
    and "\<forall>(cpu, i, n)\<in>set es. i \<ge> -1"
  shows "\<exists>s'. insert_all s es = Inr s' \<and> ski_threads_no s' = ski_threads_no s + length es \<and>
    cpus s' = cpus s \<and> length (ski_threads s') = MAX_SKI_THREADS \<and>
    (\<forall>k < ski_threads_no s. tc_of s' k = tc_of s k) \<and>
    (\<forall>k < length es. tc_of s' (ski_threads_no s + k) =
       entry_tc (tc_of s (ski_threads_no s + k)) (ski_threads_no s + k) (es ! k))"
  using assms
proof (induction es arbitrary: s)
  case Nil
  then show ?case by (simp add: insert_all_def)
next
  case (Cons e es)
  obtain cpu i n where e: "e = (cpu, i, n)" by (cases e)
  let ?n = "ski_threads_no s"
  let ?s1 = "(upd_tc ?n (\<lambda>tc. entry_tc tc ?n e) s)\<lparr>ski_threads_no := ?n + 1\<rparr>"
  have n: "?n < length (ski_threads s)" using Cons.prems(1,2) by simp
  have step: "ski_threads_insert s cpu i n = Inr ?s1"
    using Cons.prems by (simp add: insert_eq e)
  have "\<exists>s'. insert_all ?s1 es = Inr s' \<and> ski_threads_no s' = ski_threads_no ?s1 + length es \<and>
    cpus s' = cpus ?s1 \<and> length (ski_threads s') = MAX_SKI_THREADS \<and>
    (\<forall>k < ski_threads_no ?s1. tc_of s' k = tc_of ?s1 k) \<and>
    (\<forall>k < length es. tc_of s' (ski_threads_no ?s1 + k) =
       entry_tc (tc_of ?s1 (ski_threads_no ?s1 + k)) (ski_threads_no ?s1 + k) (es ! k))"
    using Cons.prems by (intro Cons.IH) auto
  then obtain s' where s': "insert_all ?s1 es = Inr s'" "ski_threads_no s' = Suc ?n + length es"
    "cpus s' = cpus s" "length (ski_threads s') = MAX_SKI_THREADS"
    "\<forall>k < Suc ?n. tc_of s' k = tc_of ?s1 k"
    "\<forall>k < length es. tc_of s' (Suc ?n + k) = entry_tc (tc_of ?s1 (Suc ?n + k)) (Suc ?n + k) (es ! k)"
    by auto
  have "tc_of s' (?n + k) = entry_tc (tc_of s (?n + k)) (?n + k) ((e # es) ! k)"
    if "k < length (e # es)" for k
    using that s'(5,6) n by (cases k) auto
  moreover have "\<forall>k < ?n. tc_of s' k = tc_of s k" using s'(5) n by auto
  ultimately show ?case using s' step by (auto simp: insert_all_def e)
qed

lemma insert_all_errors:
  "insert_all s es = Inl e \<Longrightarrow> e = Assert_failed"
  by (induction es arbitrary: s)
    (auto simp: insert_all_def ski_threads_insert_def Let_def bind_res_eq_Inl)

lemma insert_all_conds:
  "insert_all s es = Inr s' \<Longrightarrow> ski_threads_no s \<le> MAX_SKI_THREADS \<Longrightarrow>
    ski_threads_no s + length es \<le> MAX_SKI_THREADS \<and> (\<forall>(cpu, i, n)\<in>set es. i \<ge> -1)"
proof (induction es arbitrary: s)
  case (Cons e es)
  obtain cpu i n where e: "e = (cpu, i, n)" by (cases e)
  from Cons.prems(1) obtain s1 where s1: "ski_threads_insert s cpu i n = Inr s1" "insert_all s1 es = Inr s'"
    by (auto simp: insert_all_def e bind_res_eq_Inr)
  then have i: "i = -1 \<or> i \<ge> 0" "ski_threads_no s < MAX_SKI_THREADS" "ski_threads_no s1 = Suc (ski_threads_no s)"
    by (auto simp: ski_threads_insert_def Let_def bind_res_eq_Inr)
  with Cons.IH[OF s1(2)] show ?case by (auto simp: e)
qed simp

lemma reset_fields [simp]:
  "ski_threads_no (ski_threads_reset s) = 0" "ski_threads (ski_threads_reset s) = ski_threads s"
  "cpus (ski_threads_reset s) = cpus s" "tc_of (ski_threads_reset s) k = tc_of s k"
  by (simp_all add: ski_threads_reset_def tc_of_def)

text \<open>
  C28: rebuilding the table from a list of entries (CPU, vector or -1, count) succeeds exactly
  when there are at most 512 entries and no vector is below -1, and otherwise stops at an
  assertion.  On success entry \<open>k\<close> is thread \<open>k\<close> with priority \<open>k\<close>; an entry without a
  vector is an existing runnable CPU thread, an entry with one is a dormant interrupt thread.
\<close>

theorem table_build:
  assumes "length (ski_threads s) = MAX_SKI_THREADS"
  shows "if length es \<le> MAX_SKI_THREADS \<and> (\<forall>(cpu, i, n)\<in>set es. i \<ge> -1)
    then \<exists>s'. insert_all (ski_threads_reset s) es = Inr s' \<and> ski_threads_no s' = length es \<and>
      cpus s' = cpus s \<and>
      (\<forall>k < length es. case es ! k of (cpu, i, n) \<Rightarrow>
         let tc = tc_of s' k in
         tc_id tc = int k \<and> tc_priority tc = int k \<and> tc_priority_adjust tc = 0 \<and>
         tc_cpu_no tc = cpu \<and> tc_int_no tc = i \<and> tc_count tc = n \<and>
         (if i = -1 then tc_is_int tc = 0 \<and> tc_exists tc = 1 \<and> tc_state tc = SKI_TC_STATE_RUNNABLE
          else tc_is_int tc = 1 \<and> tc_exists tc = 0 \<and> tc_state tc = SKI_TC_STATE_NA))
    else insert_all (ski_threads_reset s) es = Inl Assert_failed"
proof (cases "length es \<le> MAX_SKI_THREADS \<and> (\<forall>(cpu, i, n)\<in>set es. i \<ge> -1)")
  case True
  with insert_all_spec[of "ski_threads_reset s" es] assms obtain s' where
    s': "insert_all (ski_threads_reset s) es = Inr s'" "ski_threads_no s' = length es" "cpus s' = cpus s"
      "\<forall>k < length es. tc_of s' k = entry_tc (tc_of s k) k (es ! k)" by auto
  have "\<forall>k < length es. case es ! k of (cpu, i, n) \<Rightarrow> i = -1 \<or> i \<ge> 0"
    using True by (force simp: set_conv_nth)
  with s' True show ?thesis
    by (auto simp: entry_tc_def ski_tc_initialize_def Let_def split: prod.splits)
next
  case False
  then have "\<nexists>s'. insert_all (ski_threads_reset s) es = Inr s'"
    using insert_all_conds[of "ski_threads_reset s" es] by auto
  with False show ?thesis
    using insert_all_errors[of "ski_threads_reset s" es]
    by (cases "insert_all (ski_threads_reset s) es") auto
qed

theorem table_build_witness:
  "\<exists>s'. insert_all (ski_threads_reset blank_state) [(0, -1, 1), (1, 33, 2)] = Inr s' \<and>
    tc_is_int (tc_of s' 1) = 1 \<and> tc_count (tc_of s' 1) = 2"
  using table_build[of blank_state "[(0, -1, 1), (1, 33, 2)]"]
  by (auto simp: blank_state_def Let_def numeral_2_eq_2 all_less_2[unfolded numeral_2_eq_2])

text \<open>
  C16: the scheduler's choice.  Over a well-formed table the selected thread is an eligible
  thread of least effective priority value, not above the threshold of 2000; of several
  eligible threads with that value it is the one latest in the table.
\<close>

theorem next_runnable_choice:
  assumes "threads_wf s"
  shows "ski_threads_find_next_runnable s = Inr i \<longleftrightarrow>
    i < ski_threads_no s \<and> eligible s i \<and> eff_priority s i \<le> SKI_LIVENESS_PRIORITY_NOPAUSE_LOOP \<and>
    (\<forall>j < ski_threads_no s. eligible s j \<longrightarrow>
       eff_priority s i \<le> eff_priority s j \<and> (eff_priority s j = eff_priority s i \<longrightarrow> j \<le> i))"
    (is "_ = ?spec")
proof
  assume "ski_threads_find_next_runnable s = Inr i"
  then have "pick_loop (eligible s) (eff_priority s) None [0..<ski_threads_no s] = Some i"
    "eff_priority s i \<le> SKI_LIVENESS_PRIORITY_NOPAUSE_LOOP"
    by (auto simp: find_next_runnable_pick[OF assms] split: option.splits if_splits)
  with pick_loop_Some[OF this(1)] show ?spec by simp
next
  assume ?spec
  then have "pick_loop (eligible s) (eff_priority s) None [0..<ski_threads_no s] = Some i"
    by (intro pick_loop_unique) auto
  with \<open>?spec\<close> show "ski_threads_find_next_runnable s = Inr i"
    by (simp add: find_next_runnable_pick[OF assms])
qed

lemma sample_state_wf: "threads_wf sample_state"
  by (simp add: threads_wf_def cpu_nos_def blank_cpu_def all_less_3 blank_tc_def)

theorem next_runnable_choice_witness:
  "threads_wf sample_state \<and> ski_threads_find_next_runnable sample_state = Inr 0"
  using next_runnable_choice[OF sample_state_wf, of 0] sample_state_wf
  by (simp add: eligible_def eff_priority_def halted_on_def Let_def blank_tc_def home_def find_cpu_def
      blank_cpu_def sc_of_def blank_sc_def ski_interrupts_in_hw_int_def hw_entry_def all_less_3
      list_ex_iff ski_interrupts_is_top_hw_stack_def ski_cpu_can_start_interrupts_def)

text \<open>
  C25: the scheduler stops the run with exit code 2 exactly when every eligible thread is
  above the threshold, in particular when no thread is eligible, and in no other way.
\<close>

theorem next_runnable_stuck:
  assumes "threads_wf s"
  shows "ski_threads_find_next_runnable s = Inl e \<longleftrightarrow>
    e = Ski_exit SKI_EXIT_NO_RUNNABLE \<and>
    (\<forall>i < ski_threads_no s. eligible s i \<longrightarrow> eff_priority s i > SKI_LIVENESS_PRIORITY_NOPAUSE_LOOP)"
proof (cases "pick_loop (eligible s) (eff_priority s) None [0..<ski_threads_no s]")
  case None
  moreover from this have "\<forall>i < ski_threads_no s. \<not> eligible s i" by (simp add: pick_loop_None)
  ultimately show ?thesis
    by (auto simp: find_next_runnable_pick[OF assms])
next
  case (Some i)
  from pick_loop_Some[OF this] have "i < ski_threads_no s" "eligible s i"
    "\<forall>j < ski_threads_no s. eligible s j \<longrightarrow> eff_priority s i \<le> eff_priority s j" by auto
  with Some show ?thesis
    by (auto simp: find_next_runnable_pick[OF assms])
qed

theorem next_runnable_stuck_witness:
  "threads_wf (sample_state\<lparr>ski_threads_no := 0\<rparr>) \<and>
   ski_threads_find_next_runnable (sample_state\<lparr>ski_threads_no := 0\<rparr>) = Inl (Ski_exit 2)"
proof -
  have wf: "threads_wf (sample_state\<lparr>ski_threads_no := 0\<rparr>)"
    by (simp add: threads_wf_def)
  then show ?thesis using next_runnable_stuck[OF wf] by simp
qed

end
