(* ===== verification/Ski_Interrupts.thy ===== *)
theory Ski_Interrupts
  imports Ski_Threads
begin

text \<open>
  Interrupts as the scheduler sees them (\<open>vmm/cpu-exec.c\<close>): a raised vector spawns an
  interrupt thread, the start of an interrupt pushes a frame on the stack of its CPU and
  makes the thread runnable, the return pops the frame and retires the thread.  The theory
  gives the stack the interface \<open>lifo_stack\<close>, states the invariant that ties the frames of
  a CPU to the running interrupt threads, and proves that every operation keeps it.
\<close>

section \<open>The interrupt stack of a CPU\<close>

definition zero_si :: ski_interrupt where
  "zero_si = \<lparr>si_exists = 0, si_int_no = 0, si_is_int_instruction = 0, si_is_hw = 0\<rparr>"

text \<open>The slot search and update of \<open>ski_handle_interrupt_begin\<close>.\<close>

definition stack_push :: "SKICPU \<Rightarrow> int \<Rightarrow> int \<Rightarrow> int \<Rightarrow> SKICPU option" where
  "stack_push sc int_no is_int_instruction is_hw =
    (case find (\<lambda>i. si_exists (sc_interrupts_stack sc ! i) = 0) [0..<SKI_MAX_INTERRUPTS_STACK] of
       None \<Rightarrow> None
     | Some i \<Rightarrow>
         Some (sc\<lparr>sc_interrupts_stack := (sc_interrupts_stack sc)[i :=
                    \<lparr>si_exists = 1, si_int_no = int_no,
                     si_is_int_instruction = is_int_instruction, si_is_hw = is_hw\<rparr>],
                  sc_interrupts_stack_no := sc_interrupts_stack_no sc + 1\<rparr>))"

text \<open>The decrement and the release of the slot in \<open>ski_handle_interrupt_end\<close>.\<close>

definition stack_pop :: "SKICPU \<Rightarrow> (ski_interrupt \<times> SKICPU) option" where
  "stack_pop sc =
    (if sc_interrupts_stack_no sc > 0
     then let n = sc_interrupts_stack_no sc - 1; si = sc_interrupts_stack sc ! nat n
          in Some (si, sc\<lparr>sc_interrupts_stack_no := n,
               sc_interrupts_stack := (sc_interrupts_stack sc)[nat n := si\<lparr>si_exists := 0\<rparr>]\<rparr>)
     else None)"

section \<open>Handlers\<close>

definition ski_handle_new_irq_set :: "ski_state \<Rightarrow> env \<Rightarrow> int \<Rightarrow> ski_state res" where
  "ski_handle_new_irq_set s c vector_num =
    (if \<not> ski_active (cpu_of s c) then Inr s
     else let cpu_no = cpu_index (cpu_of s c)
       in bind_res (ski_threads_find s 0 cpu_no 1 vector_num SKI_TC_STATE_NA) (\<lambda>tc_new_interrupt.
         case tc_new_interrupt of
           None \<Rightarrow> bind_res (ski_threads_find s 0 cpu_no 1 vector_num SKI_TC_STATE_COUNT_ZERO) (\<lambda>_. Inr s)
         | Some i \<Rightarrow>
             if tc_count (tc_of s i) \<le> 0 then Inl Assert_failed
             else Inr (upd_tc i (\<lambda>tc. tc\<lparr>tc_exists := 1, tc_state := SKI_TC_STATE_NEEDS_TRIGGER,
                                        tc_count := tc_count tc - 1\<rparr>) s)))"

definition ski_handle_cpu_begin :: "ski_state \<Rightarrow> env \<Rightarrow> unit res" where
  "ski_handle_cpu_begin s c =
    bind_res (null_check (ski_threads_current s)) (\<lambda>i.
      SKI_ASSERT s ((if ski_interrupts_in_hw_int (sc_of s c) then 1 else 0) = tc_is_int (tc_of s i)))"

definition ski_handle_interrupt_begin ::
  "ski_state \<Rightarrow> env \<Rightarrow> int \<Rightarrow> int \<Rightarrow> int \<Rightarrow> ski_state res" where
  "ski_handle_interrupt_begin s c int_no is_int_instruction is_hw =
    (case stack_push (sc_of s c) int_no is_int_instruction is_hw of
       None \<Rightarrow> bind_res (SKI_ASSERT s False) (\<lambda>_. Inl Assert_failed)
     | Some sc \<Rightarrow>
         let s = upd_sc c (\<lambda>_. sc) s
         in bind_res
              (if is_int_instruction = 0 \<and> is_hw = 1
               then bind_res (ski_threads_find s 1 (cpu_index (cpu_of s c)) 1 int_no
                                SKI_TC_STATE_NEEDS_TRIGGER) (\<lambda>tc.
                 case tc of
                   None \<Rightarrow> Inl Assert_failed
                 | Some i \<Rightarrow>
                     bind_res (SKI_ASSERT s (tc_state (tc_of s i) = SKI_TC_STATE_NEEDS_TRIGGER)) (\<lambda>_.
                     let s = upd_tc i (\<lambda>tc. tc\<lparr>tc_state := SKI_TC_STATE_RUNNABLE\<rparr>) s
                     in bind_res (SKI_ASSERT_MSG
                          (case ski_threads_current s of
                             None \<Rightarrow> False | Some cur \<Rightarrow> tc_id (tc_of s cur) = tc_id (tc_of s i))
                          SKI_EXIT_ASSERT_INTERRUPT) (\<lambda>_. Inr s)))
               else Inr s)
              (\<lambda>s. Inr (s\<lparr>ski_threads_need_reevaluate := 1\<rparr>)))"

definition ski_handle_interrupt_end :: "ski_state \<Rightarrow> env \<Rightarrow> ski_state res" where
  "ski_handle_interrupt_end s c =
    (case stack_pop (sc_of s c) of
       None \<Rightarrow> bind_res (SKI_ASSERT s False) (\<lambda>_. Inr s)
     | Some (si, sc) \<Rightarrow>
         let s = upd_sc c (\<lambda>_. sc) s
         in if si_is_hw si \<noteq> 0
            then bind_res (ski_threads_find s 1 (cpu_index (cpu_of s c)) 1 (si_int_no si)
                             SKI_TC_STATE_RUNNABLE) (\<lambda>tc.
              case tc of
                None \<Rightarrow> Inl Assert_failed
              | Some i \<Rightarrow>
                  let s = upd_tc i (\<lambda>tc. tc\<lparr>tc_exists := 0,
                            tc_state := (if tc_count tc = 0 then SKI_TC_STATE_COUNT_ZERO
                                         else SKI_TC_STATE_NA)\<rparr>) s
                  in bind_res
                       (if sc_wait_for_interrupt (sc_of s c) \<noteq> 0
                        then bind_res (c_assert (ski_threads_current s \<noteq> None)) (\<lambda>_.
                               Inr (upd_sc c (\<lambda>sc. sc\<lparr>sc_wait_for_interrupt := 0\<rparr>) s))
                        else Inr s)
                       (\<lambda>s. Inr (s\<lparr>ski_threads_need_reevaluate := 1\<rparr>)))
            else Inr s)"

definition ignored_vectors :: "nat list" where
  "ignored_vectors = [239, 48, 48, 49, 50, 51, 52, 53, 54, 55, 56, 57, 58, 59, 60, 61, 62, 63]"

definition ski_apic_check_interrupt_set :: "nat \<Rightarrow> APICState \<Rightarrow> bool" where
  "ski_apic_check_interrupt_set int_no a = apic_get_bit (apic_isr a) int_no"

definition ski_initialize_interrupts :: "ski_state \<Rightarrow> env \<Rightarrow> ski_state res" where
  "ski_initialize_interrupts s c =
    (let s = upd_sc c (\<lambda>sc. sc\<lparr>
           sc_ignore_interrupts := foldl ski_set_bit zero_bitmap ignored_vectors,
           sc_interrupts_stack := replicate SKI_MAX_INTERRUPTS_STACK zero_si,
           sc_interrupts_stack_no := 0\<rparr>) s
     in fold_res (\<lambda>s i. if ski_apic_check_interrupt_set i (cpu_apic (cpu_of s c))
                        then ski_handle_new_irq_set s c (int i) else Inr s) s [0..<255])"

section \<open>The stack is a bounded stack\<close>

definition frames :: "SKICPU \<Rightarrow> ski_interrupt list" where
  "frames sc = take (nat (sc_interrupts_stack_no sc)) (sc_interrupts_stack sc)"

definition stack_wf :: "SKICPU \<Rightarrow> bool" where
  "stack_wf sc \<longleftrightarrow>
    length (sc_interrupts_stack sc) = SKI_MAX_INTERRUPTS_STACK \<and>
    0 \<le> sc_interrupts_stack_no sc \<and> sc_interrupts_stack_no sc \<le> int SKI_MAX_INTERRUPTS_STACK \<and>
    (\<forall>k<SKI_MAX_INTERRUPTS_STACK. si_exists (sc_interrupts_stack sc ! k) =
       (if int k < sc_interrupts_stack_no sc then 1 else 0))"

locale lifo_stack =
  fixes wf :: "'s \<Rightarrow> bool" and view :: "'s \<Rightarrow> 'a list" and frame :: "'f \<Rightarrow> 'a"
    and push :: "'s \<Rightarrow> 'f \<Rightarrow> 's option" and pop :: "'s \<Rightarrow> ('a \<times> 's) option" and cap :: nat
  assumes push_full: "wf s \<Longrightarrow> push s x = None \<longleftrightarrow> length (view s) = cap"
    and push_view: "wf s \<Longrightarrow> push s x = Some s' \<Longrightarrow> wf s' \<and> view s' = view s @ [frame x]"
    and pop_empty: "wf s \<Longrightarrow> pop s = None \<longleftrightarrow> view s = []"
    and pop_view: "wf s \<Longrightarrow> pop s = Some (a, s') \<Longrightarrow> wf s' \<and> view s = view s' @ [a]"
begin

text \<open>A return undoes the matching entry.\<close>

lemma pop_push:
  assumes "wf s" and "push s x = Some s'"
  shows "\<exists>t. pop s' = Some (frame x, t) \<and> wf t \<and> view t = view s"
proof -
  from push_view[OF assms] have s': "wf s'" "view s' = view s @ [frame x]" by blast+
  have "pop s' \<noteq> None" using pop_empty[OF s'(1)] s'(2) by simp
  then obtain a t where t: "pop s' = Some (a, t)" by (cases "pop s'") auto
  from pop_view[OF s'(1) t] s'(2) have "wf t" "view t = view s" "a = frame x" by simp_all
  with t show ?thesis by blast
qed

fun run_stack :: "'s \<Rightarrow> 'f option list \<Rightarrow> 's option" where
  "run_stack s [] = Some s"
| "run_stack s (Some x # ops) = (case push s x of None \<Rightarrow> None | Some s' \<Rightarrow> run_stack s' ops)"
| "run_stack s (None # ops) = (case pop s of None \<Rightarrow> None | Some (_, s') \<Rightarrow> run_stack s' ops)"

lemma run_stack_depth:
  "wf s \<Longrightarrow> run_stack s ops = Some t \<Longrightarrow>
    wf t \<and> length (view t) + length (filter (\<lambda>x. x = None) ops) =
      length (view s) + length (filter (\<lambda>x. x \<noteq> None) ops)"
proof (induction s ops rule: run_stack.induct)
  case (2 s x ops)
  then obtain s' where p: "push s x = Some s'" "run_stack s' ops = Some t"
    by (auto split: option.splits)
  from push_view[OF 2(2) p(1)] 2(1)[OF p(1) _ p(2)] show ?case by simp
next
  case (3 s ops)
  then obtain a s' where p: "pop s = Some (a, s')" "run_stack s' ops = Some t"
    by (auto split: option.splits)
  from pop_view[OF 3(2) p(1)] 3(1)[OF p(1) refl _ p(2)] show ?case by simp
qed simp

end

definition si_frame :: "int \<times> int \<times> int \<Rightarrow> ski_interrupt" where
  "si_frame f = (case f of (int_no, is_int, is_hw) \<Rightarrow>
    \<lparr>si_exists = 1, si_int_no = int_no, si_is_int_instruction = is_int, si_is_hw = is_hw\<rparr>)"

lemma stack_wf_len: "stack_wf sc \<Longrightarrow> length (frames sc) = nat (sc_interrupts_stack_no sc)"
  by (auto simp: stack_wf_def frames_def)

lemma find_free_slot:
  assumes "stack_wf sc"
  shows "find (\<lambda>i. si_exists (sc_interrupts_stack sc ! i) = 0) [0..<SKI_MAX_INTERRUPTS_STACK] =
    (if nat (sc_interrupts_stack_no sc) < SKI_MAX_INTERRUPTS_STACK
     then Some (nat (sc_interrupts_stack_no sc)) else None)"
proof (cases "nat (sc_interrupts_stack_no sc) < SKI_MAX_INTERRUPTS_STACK")
  case True
  have "find (\<lambda>i. si_exists (sc_interrupts_stack sc ! i) = 0) [0..<SKI_MAX_INTERRUPTS_STACK] =
      Some (nat (sc_interrupts_stack_no sc))"
    unfolding find_Some_iff
    by (rule exI[of _ "nat (sc_interrupts_stack_no sc)"])
      (use True assms in \<open>auto simp: stack_wf_def simp del: upt_rec_numeral\<close>)
  with True show ?thesis by (simp del: upt_rec_numeral)
next
  case False
  then have "find (\<lambda>i. si_exists (sc_interrupts_stack sc ! i) = 0) [0..<SKI_MAX_INTERRUPTS_STACK] = None"
    unfolding find_None_iff using assms by (auto simp: stack_wf_def simp del: upt_rec_numeral)
  with False show ?thesis by (simp del: upt_rec_numeral)
qed

lemma take_Suc_update:
  "n < length xs \<Longrightarrow> take (Suc n) (xs[n := x]) = take n xs @ [x]"
  by (simp add: take_Suc_conv_app_nth)

lemma stack_push_None:
  "stack_wf sc \<Longrightarrow> stack_push sc n i h = None \<longleftrightarrow> length (frames sc) = SKI_MAX_INTERRUPTS_STACK"
  by (auto simp: stack_push_def find_free_slot stack_wf_len stack_wf_def)

lemma stack_push_Some:
  assumes "stack_wf sc" "stack_push sc n i h = Some sc'"
  shows "stack_wf sc'" "frames sc' = frames sc @ [si_frame (n, i, h)]"
    "sc_wait_for_interrupt sc' = sc_wait_for_interrupt sc"
proof -
  let ?k = "nat (sc_interrupts_stack_no sc)"
  from assms have k: "?k < SKI_MAX_INTERRUPTS_STACK" and
    sc': "sc' = sc\<lparr>sc_interrupts_stack := (sc_interrupts_stack sc)[?k := si_frame (n, i, h)],
                  sc_interrupts_stack_no := sc_interrupts_stack_no sc + 1\<rparr>"
    by (auto simp: stack_push_def find_free_slot si_frame_def split: if_splits)
  show "stack_wf sc'"
    using assms(1) k unfolding sc' by (auto simp: stack_wf_def nth_list_update si_frame_def)
  have "nat (sc_interrupts_stack_no sc + 1) = Suc ?k"
    using assms(1) unfolding stack_wf_def by linarith
  then show "frames sc' = frames sc @ [si_frame (n, i, h)]"
    using assms(1) k unfolding sc' by (simp add: frames_def stack_wf_def take_Suc_update)
  show "sc_wait_for_interrupt sc' = sc_wait_for_interrupt sc"
    by (simp add: sc')
qed

lemma stack_pop_None: "stack_wf sc \<Longrightarrow> stack_pop sc = None \<longleftrightarrow> frames sc = []"
  by (auto simp: stack_pop_def Let_def frames_def stack_wf_def)

lemma stack_pop_Some:
  assumes "stack_wf sc" "stack_pop sc = Some (si, sc')"
  shows "stack_wf sc'" "frames sc = frames sc' @ [si]"
    "sc_wait_for_interrupt sc' = sc_wait_for_interrupt sc"
proof -
  let ?n = "sc_interrupts_stack_no sc - 1"
  from assms have n: "sc_interrupts_stack_no sc > 0" and si: "si = sc_interrupts_stack sc ! nat ?n" and
    sc': "sc' = sc\<lparr>sc_interrupts_stack_no := ?n,
               sc_interrupts_stack := (sc_interrupts_stack sc)[nat ?n := si\<lparr>si_exists := 0\<rparr>]\<rparr>"
    by (auto simp: stack_pop_def Let_def split: if_splits)
  show "stack_wf sc'"
    using assms(1) n unfolding sc' by (auto simp: stack_wf_def nth_list_update)
  have "nat (sc_interrupts_stack_no sc) = Suc (nat ?n)" using n by simp
  moreover have "nat ?n < length (sc_interrupts_stack sc)"
    using assms(1) n unfolding stack_wf_def by linarith
  ultimately show "frames sc = frames sc' @ [si]"
    unfolding sc' by (simp add: frames_def take_Suc_conv_app_nth si)
  show "sc_wait_for_interrupt sc' = sc_wait_for_interrupt sc"
    by (simp add: sc')
qed

interpretation int_stack: lifo_stack stack_wf frames si_frame
  "\<lambda>sc (n, i, h). stack_push sc n i h" stack_pop SKI_MAX_INTERRUPTS_STACK
  by unfold_locales
    (auto simp: stack_push_None stack_pop_None dest: stack_push_Some stack_pop_Some)

section \<open>Frames and interrupt threads\<close>

text \<open>The life of a thread context: which flags, states and counts occur together.\<close>

definition tc_life :: "thread_context \<Rightarrow> bool" where
  "tc_life tc \<longleftrightarrow>
    (if tc_is_int tc = 0 then tc_exists tc = 1 \<and> tc_state tc = SKI_TC_STATE_RUNNABLE
     else 0 \<le> tc_count tc \<and>
       (tc_exists tc = 0 \<and> tc_state tc = SKI_TC_STATE_NA \<and> 0 < tc_count tc \<or>
        tc_exists tc = 0 \<and> tc_state tc = SKI_TC_STATE_COUNT_ZERO \<and> tc_count tc = 0 \<or>
        tc_exists tc = 1 \<and> tc_state tc = SKI_TC_STATE_NEEDS_TRIGGER \<or>
        tc_exists tc = 1 \<and> tc_state tc = SKI_TC_STATE_RUNNABLE))"

definition running_set :: "ski_state \<Rightarrow> int \<Rightarrow> int \<Rightarrow> nat set" where
  "running_set s cpu_no n =
    {i. i < ski_threads_no s \<and> tc_matches 1 cpu_no 1 n SKI_TC_STATE_RUNNABLE (tc_of s i)}"

definition hw_frames :: "SKICPU \<Rightarrow> int \<Rightarrow> ski_interrupt list" where
  "hw_frames sc n = filter (\<lambda>si. si_is_hw si \<noteq> 0 \<and> si_int_no si = n) (frames sc)"

definition frame_ok :: "ski_interrupt \<Rightarrow> bool" where
  "frame_ok si \<longleftrightarrow> si_is_hw si = 0 \<or> si_is_hw si = 1 \<and> si_is_int_instruction si = 0"

text \<open>
  On every CPU and for every vector there are as many hardware frames on the stack as
  running interrupt threads in the table.
\<close>

definition int_inv :: "ski_state \<Rightarrow> bool" where
  "int_inv s \<longleftrightarrow>
    threads_wf s \<and> distinct (map cpu_index (cpus s)) \<and>
    (\<forall>i < ski_threads_no s. tc_life (tc_of s i)) \<and>
    (\<forall>c < length (cpus s). stack_wf (sc_of s c) \<and> (\<forall>si\<in>set (frames (sc_of s c)). frame_ok si) \<and>
       (\<forall>n. length (hw_frames (sc_of s c) n) = card (running_set s (cpu_index (cpu_of s c)) n)))"

datatype int_op =
    Irq_set env int
  | Int_begin env int int int
  | Int_end env

fun int_exec :: "ski_state \<Rightarrow> int_op \<Rightarrow> ski_state res" where
  "int_exec s (Irq_set c vector_num) = ski_handle_new_irq_set s c vector_num"
| "int_exec s (Int_begin c int_no is_int is_hw) = ski_handle_interrupt_begin s c int_no is_int is_hw"
| "int_exec s (Int_end c) = ski_handle_interrupt_end s c"

text \<open>
  What the emulator passes: an existing CPU, and for an interrupt raised by hardware the
  flags \<open>is_int = 0\<close>, \<open>is_hw = 1\<close>.
\<close>

fun int_op_ok :: "ski_state \<Rightarrow> int_op \<Rightarrow> bool" where
  "int_op_ok s (Irq_set c vector_num) = (c < length (cpus s))"
| "int_op_ok s (Int_begin c int_no is_int is_hw) =
    (c < length (cpus s) \<and> (is_hw = 0 \<or> is_hw = 1 \<and> is_int = 0))"
| "int_op_ok s (Int_end c) = (c < length (cpus s))"

inductive int_steps :: "ski_state \<Rightarrow> int_op list \<Rightarrow> ski_state \<Rightarrow> bool" where
  int_nil: "int_steps s [] s"
| int_cons: "int_steps s (op # ops) s''"
    if "int_op_ok s op" and "int_exec s op = Inr s'" and "int_steps s' ops s''"

inductive_cases int_steps_nilE: "int_steps s [] s'"
inductive_cases int_steps_consE: "int_steps s (op # ops) s'"

lemma int_invD:
  assumes "int_inv s"
  shows "threads_wf s" "distinct (map cpu_index (cpus s))"
    "i < ski_threads_no s \<Longrightarrow> tc_life (tc_of s i)"
    "c < length (cpus s) \<Longrightarrow> stack_wf (sc_of s c)"
    "c < length (cpus s) \<Longrightarrow> si \<in> set (frames (sc_of s c)) \<Longrightarrow> frame_ok si"
    "c < length (cpus s) \<Longrightarrow>
      length (hw_frames (sc_of s c) n) = card (running_set s (cpu_index (cpu_of s c)) n)"
  using assms by (auto simp: int_inv_def)

lemma cpu_index_upd_sc_of [simp]:
  "cpu_index (cpu_of (upd_sc c f s) d) = cpu_index (cpu_of s d)"
  by (cases "c < length (cpus s)")
    (auto simp: upd_sc_def upd_cpu_def cpu_of_def nth_list_update list_update_beyond)

lemma cpu_index_inj:
  assumes "distinct (map cpu_index (cpus s))" "c < length (cpus s)" "d < length (cpus s)"
    and "cpu_index (cpu_of s c) = cpu_index (cpu_of s d)"
  shows "c = d"
  using nth_eq_iff_index_eq[OF assms(1), of c d] assms(2-4) by (simp add: cpu_of_def)

lemma threads_wf_upd_sc [simp]: "threads_wf (upd_sc c f s) = threads_wf s"
  by (simp only: threads_wf_def cpu_nos_def upd_sc_fields cpu_index_upd_sc tc_of_upd_sc)

lemma threads_wf_upd_tc:
  assumes "threads_wf s" "i < ski_threads_no s"
    and "\<And>tc. tc_cpu_no (f tc) = tc_cpu_no tc" "\<And>tc. tc_is_int (f tc) = tc_is_int tc"
    and "\<And>tc. tc_int_no (f tc) = tc_int_no tc" "\<And>tc. tc_id (f tc) = tc_id tc"
  shows "threads_wf (upd_tc i f s)"
  using assms threads_wfD(6)[OF assms(1,2)]
  by (simp add: threads_wf_def cpu_nos_def)

lemma finite_running_set [simp]: "finite (running_set s cpu_no n)"
  by (simp add: running_set_def)

lemma running_set_upd_sc [simp]: "running_set (upd_sc c f s) cpu_no n = running_set s cpu_no n"
  by (simp add: running_set_def)

lemma running_set_upd_tc:
  assumes "i < ski_threads_no s" "i < length (ski_threads s)"
  shows "running_set (upd_tc i f s) cpu_no n =
    (if tc_matches 1 cpu_no 1 n SKI_TC_STATE_RUNNABLE (f (tc_of s i))
     then insert i (running_set s cpu_no n) else running_set s cpu_no n - {i})"
  using assms by (auto simp: running_set_def)

lemma tc_matches_running:
  "tc_life tc \<Longrightarrow> tc_matches 1 cpu_no 1 n SKI_TC_STATE_RUNNABLE tc \<longleftrightarrow>
    tc_exists tc = 1 \<and> tc_state tc = SKI_TC_STATE_RUNNABLE \<and> tc_cpu_no tc = cpu_no \<and>
    tc_is_int tc = 1 \<and> tc_int_no tc = n"
  by (auto simp: tc_matches_def tc_life_def split: if_splits)

lemma tc_matches_trigger:
  "tc_life tc \<Longrightarrow> tc_matches 1 cpu_no 1 n SKI_TC_STATE_NEEDS_TRIGGER tc \<longleftrightarrow>
    tc_exists tc = 1 \<and> tc_state tc = SKI_TC_STATE_NEEDS_TRIGGER \<and> tc_cpu_no tc = cpu_no \<and>
    tc_is_int tc = 1 \<and> tc_int_no tc = n"
  by (auto simp: tc_matches_def tc_life_def split: if_splits)

lemma tc_matches_na:
  "tc_life tc \<Longrightarrow> tc_matches 0 cpu_no 1 n SKI_TC_STATE_NA tc \<longleftrightarrow>
    tc_exists tc = 0 \<and> tc_state tc = SKI_TC_STATE_NA \<and> 0 < tc_count tc \<and> tc_cpu_no tc = cpu_no \<and>
    tc_is_int tc = 1 \<and> tc_int_no tc = n"
  by (auto simp: tc_matches_def tc_life_def split: if_splits)

lemmas tc_matches_life = tc_matches_running tc_matches_trigger tc_matches_na

section \<open>Preservation\<close>

lemma int_inv_reevaluate [simp]:
  "int_inv (s\<lparr>ski_threads_need_reevaluate := v\<rparr>) = int_inv s"
  by (simp add: int_inv_def threads_wf_def cpu_nos_def running_set_def tc_of_def sc_of_def cpu_of_def)

lemma int_inv_upd:
  assumes inv: "int_inv s" and c: "c < length (cpus s)" and i: "i < ski_threads_no s"
    and keep: "\<And>tc. tc_cpu_no (f tc) = tc_cpu_no tc" "\<And>tc. tc_is_int (f tc) = tc_is_int tc"
      "\<And>tc. tc_int_no (f tc) = tc_int_no tc" "\<And>tc. tc_id (f tc) = tc_id tc"
    and life: "tc_life (f (tc_of s i))"
    and sc: "stack_wf sc" "\<And>si. si \<in> set (frames sc) \<Longrightarrow> frame_ok si"
    and here: "\<And>n. length (hw_frames sc n) =
      card (running_set (upd_tc i f s) (cpu_index (cpu_of s c)) n)"
    and other: "\<And>n. tc_cpu_no (tc_of s i) \<noteq> cpu_index (cpu_of s c) \<Longrightarrow> False"
  shows "int_inv (upd_tc i f (upd_sc c (\<lambda>_. sc) s))"
proof -
  have len: "i < length (ski_threads s)" by (rule threads_wfD(6)[OF int_invD(1)[OF inv] i])
  have "running_set (upd_tc i f s) (cpu_index (cpu_of s d)) n =
      running_set s (cpu_index (cpu_of s d)) n" if "d \<noteq> c" "d < length (cpus s)" for d n
  proof -
    have "tc_cpu_no (tc_of s i) \<noteq> cpu_index (cpu_of s d)"
      using other cpu_index_inj[OF int_invD(2)[OF inv] c that(2)] that(1) by metis
    then show ?thesis
      using i len keep(1) by (auto simp: running_set_upd_tc tc_matches_def running_set_def)
  qed
  moreover have "running_set (upd_tc i f (upd_sc c (\<lambda>_. sc) s)) = running_set (upd_tc i f s)"
    using i len by (auto simp: fun_eq_iff running_set_upd_tc)
  ultimately show ?thesis
    using inv c sc here life i len threads_wf_upd_tc[of "upd_sc c (\<lambda>_. sc) s" i f] keep
    by (auto simp: int_inv_def)
qed

lemma int_inv_upd_soft:
  assumes inv: "int_inv s" and c: "c < length (cpus s)"
    and sc: "stack_wf sc" "\<And>si. si \<in> set (frames sc) \<Longrightarrow> frame_ok si"
    and here: "\<And>n. length (hw_frames sc n) = length (hw_frames (sc_of s c) n)"
  shows "int_inv (upd_sc c (\<lambda>_. sc) s)"
  using inv c sc here by (auto simp: int_inv_def)

lemma int_inv_irq [inv_intros]:
  assumes "int_inv s" "c < length (cpus s)" "ski_handle_new_irq_set s c v = Inr s'"
  shows "int_inv s'"
proof (cases "s' = s")
  case False
  from int_invD(1)[OF assms(1)] have wf: "threads_wf s" .
  from assms(3) False obtain i where
    f: "ski_threads_find s 0 (cpu_index (cpu_of s c)) 1 v SKI_TC_STATE_NA = Inr (Some i)" and
    s': "s' = upd_tc i (\<lambda>tc. tc\<lparr>tc_exists := 1, tc_state := SKI_TC_STATE_NEEDS_TRIGGER,
           tc_count := tc_count tc - 1\<rparr>) s"
    by (auto simp: ski_handle_new_irq_set_def Let_def bind_res_eq_Inr split: if_splits option.splits)
  from threads_find_Some[OF wf f] have i: "i < ski_threads_no s"
    and m: "tc_matches 0 (cpu_index (cpu_of s c)) 1 v SKI_TC_STATE_NA (tc_of s i)" by auto
  note life = int_invD(3)[OF assms(1) i]
  from m life have tc: "tc_exists (tc_of s i) = 0" "tc_is_int (tc_of s i) = 1" "0 < tc_count (tc_of s i)"
    "tc_cpu_no (tc_of s i) = cpu_index (cpu_of s c)" by (simp_all add: tc_matches_na)
  then have "i \<notin> running_set s cpu_no n" for cpu_no n
    by (simp add: running_set_def tc_matches_def)
  then have same: "running_set s' cpu_no n = running_set s cpu_no n" for cpu_no n
    unfolding s' using i threads_wfD(6)[OF wf i]
    by (simp add: running_set_upd_tc) (simp add: tc_matches_def)
  have "int_inv (upd_tc i (\<lambda>tc. tc\<lparr>tc_exists := 1, tc_state := SKI_TC_STATE_NEEDS_TRIGGER,
           tc_count := tc_count tc - 1\<rparr>) (upd_sc c (\<lambda>_. sc_of s c) s))"
    using assms(2) i tc int_invD(4,5,6)[OF assms(1,2)] same[unfolded s']
    by (intro int_inv_upd[OF assms(1,2) i]) (auto simp: tc_life_def)
  moreover have "upd_sc c (\<lambda>_. sc_of s c) s = s"
    by (simp add: upd_sc_def upd_cpu_def sc_of_def)
  ultimately show ?thesis by (simp add: s')
qed (simp add: assms)

lemma hw_frames_snoc:
  "frames sc' = frames sc @ [si] \<Longrightarrow>
    hw_frames sc' n = hw_frames sc n @ (if si_is_hw si \<noteq> 0 \<and> si_int_no si = n then [si] else [])"
  by (simp add: hw_frames_def)

lemma begin_hw_Inr:
  assumes "ski_handle_interrupt_begin s c v 0 1 = Inr s'"
  obtains sc i where "stack_push (sc_of s c) v 0 1 = Some sc" "ski_threads_current s \<noteq> None"
    "ski_threads_find (upd_sc c (\<lambda>_. sc) s) 1 (cpu_index (cpu_of s c)) 1 v
       SKI_TC_STATE_NEEDS_TRIGGER = Inr (Some i)"
    "s' = (upd_tc i (\<lambda>tc. tc\<lparr>tc_state := SKI_TC_STATE_RUNNABLE\<rparr>) (upd_sc c (\<lambda>_. sc) s))
            \<lparr>ski_threads_need_reevaluate := 1\<rparr>"
proof (cases "stack_push (sc_of s c) v 0 1")
  case None
  then show thesis using assms by (simp add: ski_handle_interrupt_begin_def bind_res_eq_Inr)
next
  case (Some sc)
  let ?s1 = "upd_sc c (\<lambda>_. sc) s"
  obtain r where r: "ski_threads_find ?s1 1 (cpu_index (cpu_of s c)) 1 v SKI_TC_STATE_NEEDS_TRIGGER = Inr r"
    using assms Some by (auto simp: ski_handle_interrupt_begin_def Let_def bind_res_eq_Inr)
  obtain i where i: "r = Some i"
    using assms Some r by (cases r) (auto simp: ski_handle_interrupt_begin_def Let_def)
  obtain cur where "ski_threads_current s = Some cur"
    using assms Some r i
    by (cases "ski_threads_current s") (auto simp: ski_handle_interrupt_begin_def Let_def bind_res_eq_Inr)
  then show thesis
    using assms Some r i
    by (intro that[of sc i]) (auto simp: ski_handle_interrupt_begin_def Let_def bind_res_eq_Inr)
qed

lemma int_inv_begin [inv_intros]:
  assumes inv: "int_inv s" and c: "c < length (cpus s)"
    and flags: "is_hw = 0 \<or> is_hw = 1 \<and> is_int = 0"
    and run: "ski_handle_interrupt_begin s c v is_int is_hw = Inr s'"
  shows "int_inv s'"
proof -
  from run obtain sc where push: "stack_push (sc_of s c) v is_int is_hw = Some sc"
    by (auto simp: ski_handle_interrupt_begin_def bind_res_eq_Inr split: option.splits)
  note sc = stack_push_Some[OF int_invD(4)[OF inv c] push]
  have ok: "frame_ok si" if "si \<in> set (frames sc)" for si
    using that flags int_invD(5)[OF inv c] by (auto simp: sc(2) frame_ok_def si_frame_def)
  let ?s1 = "upd_sc c (\<lambda>_. sc) s"
  show ?thesis
  proof (cases "is_int = 0 \<and> is_hw = 1")
    case False
    then have "is_hw = 0" using flags by blast
    then have "int_inv ?s1"
      using sc ok by (intro int_inv_upd_soft[OF inv c]) (auto simp: hw_frames_snoc[OF sc(2)] si_frame_def)
    moreover have "s' = ?s1\<lparr>ski_threads_need_reevaluate := 1\<rparr>"
      using run push False by (auto simp: ski_handle_interrupt_begin_def Let_def)
    ultimately show ?thesis by simp
  next
    case True
    then obtain i where f: "ski_threads_find ?s1 1 (cpu_index (cpu_of s c)) 1 v
          SKI_TC_STATE_NEEDS_TRIGGER = Inr (Some i)"
      and s': "s' = (upd_tc i (\<lambda>tc. tc\<lparr>tc_state := SKI_TC_STATE_RUNNABLE\<rparr>) ?s1)
                     \<lparr>ski_threads_need_reevaluate := 1\<rparr>"
      using run push by (auto elim: begin_hw_Inr)
    from threads_find_Some[OF _ f] int_invD(1)[OF inv] have i: "i < ski_threads_no s"
      and m: "tc_matches 1 (cpu_index (cpu_of s c)) 1 v SKI_TC_STATE_NEEDS_TRIGGER (tc_of s i)" by auto
    note life = int_invD(3)[OF inv i]
    from m life have tc: "tc_exists (tc_of s i) = 1" "tc_state (tc_of s i) = SKI_TC_STATE_NEEDS_TRIGGER"
      "tc_cpu_no (tc_of s i) = cpu_index (cpu_of s c)" "tc_is_int (tc_of s i) = 1" "tc_int_no (tc_of s i) = v"
      by (simp_all add: tc_matches_trigger)
    then have notin: "i \<notin> running_set s cpu_no n" for cpu_no n
      by (simp add: running_set_def tc_matches_def)
    have "int_inv (upd_tc i (\<lambda>tc. tc\<lparr>tc_state := SKI_TC_STATE_RUNNABLE\<rparr>) ?s1)"
      using tc life notin i threads_wfD(6)[OF int_invD(1)[OF inv] i] sc(1) ok int_invD(6)[OF inv c] True
      by (intro int_inv_upd[OF inv c i])
        (auto simp: tc_life_def hw_frames_snoc[OF sc(2)] si_frame_def running_set_upd_tc tc_matches_def)
    then show ?thesis by (simp add: s')
  qed
qed

lemma int_inv_wait [simp]:
  "c < length (cpus s) \<Longrightarrow> int_inv (upd_sc c (\<lambda>sc. sc\<lparr>sc_wait_for_interrupt := v\<rparr>) s) = int_inv s"
proof -
  assume c: "c < length (cpus s)"
  have "frames (sc\<lparr>sc_wait_for_interrupt := v\<rparr>) = frames sc" "stack_wf (sc\<lparr>sc_wait_for_interrupt := v\<rparr>) = stack_wf sc"
    "hw_frames (sc\<lparr>sc_wait_for_interrupt := v\<rparr>) = hw_frames sc" for sc :: SKICPU
    by (simp_all add: frames_def stack_wf_def hw_frames_def fun_eq_iff)
  then show ?thesis using c
    by (simp only: int_inv_def threads_wf_upd_sc upd_sc_fields cpu_index_upd_sc tc_of_upd_sc
        sc_of_upd_sc cpu_index_upd_sc_of running_set_upd_sc if_distrib[of stack_wf] if_distrib[of frames]
        if_distrib[of hw_frames]) auto
qed

text \<open>The thread that a returning hardware frame belongs to.\<close>

lemma end_finds_thread:
  assumes inv: "int_inv s" and c: "c < length (cpus s)"
    and pop: "stack_pop (sc_of s c) = Some (si, sc)" and hw: "si_is_hw si \<noteq> 0"
  obtains i where "ski_threads_find (upd_sc c (\<lambda>_. sc) s) 1 (cpu_index (cpu_of s c)) 1 (si_int_no si)
      SKI_TC_STATE_RUNNABLE = Inr (Some i)" "i \<in> running_set s (cpu_index (cpu_of s c)) (si_int_no si)"
proof -
  let ?s1 = "upd_sc c (\<lambda>_. sc) s"
  note sc = stack_pop_Some[OF int_invD(4)[OF inv c] pop]
  have wf: "threads_wf ?s1" using int_invD(1)[OF inv] by simp
  have "hw_frames (sc_of s c) (si_int_no si) \<noteq> []"
    using hw hw_frames_snoc[OF sc(2)] by simp
  then have "running_set s (cpu_index (cpu_of s c)) (si_int_no si) \<noteq> {}"
    using int_invD(6)[OF inv c, of "si_int_no si"] by (metis card.empty length_0_conv)
  then have "ski_threads_find ?s1 1 (cpu_index (cpu_of s c)) 1 (si_int_no si) SKI_TC_STATE_RUNNABLE \<noteq> Inr None"
    using threads_find_None[OF wf] by (auto simp: running_set_def)
  moreover obtain r where r: "ski_threads_find ?s1 1 (cpu_index (cpu_of s c)) 1 (si_int_no si)
      SKI_TC_STATE_RUNNABLE = Inr r" by (simp add: threads_find_pick[OF wf])
  ultimately obtain i where i: "ski_threads_find ?s1 1 (cpu_index (cpu_of s c)) 1 (si_int_no si)
      SKI_TC_STATE_RUNNABLE = Inr (Some i)" by (cases r) auto
  from threads_find_Some[OF wf i] have "i \<in> running_set s (cpu_index (cpu_of s c)) (si_int_no si)"
    by (simp add: running_set_def)
  with i show thesis using that by blast
qed

lemma int_inv_pop_hw:
  assumes inv: "int_inv s" and c: "c < length (cpus s)"
    and pop: "stack_pop (sc_of s c) = Some (si, sc)" and hw: "si_is_hw si \<noteq> 0"
    and i: "i \<in> running_set s (cpu_index (cpu_of s c)) (si_int_no si)"
  shows "int_inv (upd_tc i (\<lambda>tc. tc\<lparr>tc_exists := 0,
    tc_state := (if tc_count tc = 0 then SKI_TC_STATE_COUNT_ZERO else SKI_TC_STATE_NA)\<rparr>) (upd_sc c (\<lambda>_. sc) s))"
proof -
  note sc = stack_pop_Some[OF int_invD(4)[OF inv c] pop]
  have ok: "frame_ok si" if "si \<in> set (frames sc)" for si
    using that int_invD(5)[OF inv c] by (auto simp: sc(2))
  from i have lt: "i < ski_threads_no s"
    and m: "tc_matches 1 (cpu_index (cpu_of s c)) 1 (si_int_no si) SKI_TC_STATE_RUNNABLE (tc_of s i)"
    by (auto simp: running_set_def)
  note life = int_invD(3)[OF inv lt]
  from m life have tc: "tc_is_int (tc_of s i) = 1" "tc_cpu_no (tc_of s i) = cpu_index (cpu_of s c)"
    "tc_int_no (tc_of s i) = si_int_no si" "0 \<le> tc_count (tc_of s i)"
    by (auto simp: tc_matches_running tc_life_def split: if_splits)
  have notin: "i \<notin> running_set s (cpu_index (cpu_of s c)) n" if "n \<noteq> si_int_no si" for n
    using that tc(3) by (auto simp: running_set_def tc_matches_def)
  have card: "length (hw_frames sc n) = card (running_set s (cpu_index (cpu_of s c)) n - {i})" for n
    using int_invD(6)[OF inv c, of n] hw i notin[of n] hw_frames_snoc[OF sc(2), of n]
    by (cases "n = si_int_no si") auto
  show ?thesis
    using tc card lt threads_wfD(6)[OF int_invD(1)[OF inv] lt] sc(1) ok
    by (intro int_inv_upd[OF inv c lt])
      (auto simp: tc_life_def running_set_upd_tc tc_matches_def)
qed

lemma int_inv_pop_soft:
  assumes inv: "int_inv s" and c: "c < length (cpus s)"
    and pop: "stack_pop (sc_of s c) = Some (si, sc)" and soft: "si_is_hw si = 0"
  shows "int_inv (upd_sc c (\<lambda>_. sc) s)"
proof -
  note sc = stack_pop_Some[OF int_invD(4)[OF inv c] pop]
  show ?thesis
    using sc int_invD(5)[OF inv c] soft
    by (intro int_inv_upd_soft[OF inv c]) (auto simp: hw_frames_snoc[OF sc(2)])
qed

lemma int_end_cases:
  assumes inv: "int_inv s" and c: "c < length (cpus s)"
  obtains
    (empty) "frames (sc_of s c) = []"
      "ski_handle_interrupt_end s c = (if opt_trap_enabled s then Inl Int3_trap else Inr s)"
  | (soft) si sc where "stack_pop (sc_of s c) = Some (si, sc)" "si_is_hw si = 0"
      "ski_handle_interrupt_end s c = Inr (upd_sc c (\<lambda>_. sc) s)"
  | (unobserved) "sc_wait_for_interrupt (sc_of s c) \<noteq> 0" "ski_threads_current s = None"
      "ski_handle_interrupt_end s c = Inl Assert_failed"
  | (hw) si sc i s' where "stack_pop (sc_of s c) = Some (si, sc)" "si_is_hw si \<noteq> 0"
      "i \<in> running_set s (cpu_index (cpu_of s c)) (si_int_no si)"
      "s' = upd_tc i (\<lambda>tc. tc\<lparr>tc_exists := 0, tc_state := (if tc_count tc = 0
          then SKI_TC_STATE_COUNT_ZERO else SKI_TC_STATE_NA)\<rparr>) (upd_sc c (\<lambda>_. sc) s)"
      "ski_handle_interrupt_end s c =
        Inr ((if sc_wait_for_interrupt (sc_of s c) \<noteq> 0
              then upd_sc c (\<lambda>sc. sc\<lparr>sc_wait_for_interrupt := 0\<rparr>) s' else s')
             \<lparr>ski_threads_need_reevaluate := 1\<rparr>)"
proof (cases "stack_pop (sc_of s c)")
  case None
  then show thesis
    using stack_pop_None[OF int_invD(4)[OF inv c]]
    by (intro empty) (auto simp: ski_handle_interrupt_end_def SKI_ASSERT_def)
next
  case (Some p)
  obtain si sc where p: "p = (si, sc)" by (cases p)
  note sc = stack_pop_Some[OF int_invD(4)[OF inv c] Some[unfolded p]]
  show thesis
  proof (cases "si_is_hw si = 0")
    case True
    then show thesis using Some p by (intro soft) (auto simp: ski_handle_interrupt_end_def Let_def)
  next
    case False
    from end_finds_thread[OF inv c Some[unfolded p] False] obtain i where
      i: "ski_threads_find (upd_sc c (\<lambda>_. sc) s) 1 (cpu_index (cpu_of s c)) 1 (si_int_no si)
        SKI_TC_STATE_RUNNABLE = Inr (Some i)" "i \<in> running_set s (cpu_index (cpu_of s c)) (si_int_no si)"
      by blast
    show thesis
    proof (cases "sc_wait_for_interrupt (sc_of s c) \<noteq> 0 \<and> ski_threads_current s = None")
      case True
      then show thesis using Some p False i c sc(3)
        by (intro unobserved) (auto simp: ski_handle_interrupt_end_def Let_def)
    next
      case current: False
      show thesis
        by (rule hw[OF Some[unfolded p] False i(2) refl])
          (use Some p False i c sc(3) current in \<open>auto simp: ski_handle_interrupt_end_def Let_def\<close>)
    qed
  qed
qed

lemma int_inv_end [inv_intros]:
  assumes inv: "int_inv s" and c: "c < length (cpus s)"
    and run: "ski_handle_interrupt_end s c = Inr s'"
  shows "int_inv s'"
  using inv c
proof (cases rule: int_end_cases)
  case empty
  then show ?thesis using run inv by (simp split: if_splits)
next
  case (soft si sc)
  then show ?thesis using run int_inv_pop_soft[OF inv c] by simp
next
  case unobserved
  then show ?thesis using run by simp
next
  case (hw si sc i s1)
  have "int_inv s1" unfolding hw(4) by (rule int_inv_pop_hw[OF inv c hw(1-3)])
  moreover have "length (cpus s1) = length (cpus s)" by (simp add: hw(4))
  ultimately show ?thesis using run c hw(5) by auto
qed

lemma int_inv_steps:
  assumes "int_steps s ops s'" "int_inv s"
  shows "int_inv s'"
  using assms
proof (induction rule: int_steps.induct)
  case (int_cons s op s' ops s'')
  then have "int_inv s'" by (cases op) (auto intro: inv_intros)
  with int_cons show ?case by blast
qed

section \<open>Properties\<close>

text \<open>The sample table with its interrupt thread as the current thread, and the same after
  vector 33 was raised and after its handler started.\<close>

definition sample_current :: ski_state where
  "sample_current = sample_state\<lparr>ski_threads_current := Some 2\<rparr>"

definition sample_raised :: ski_state where
  "sample_raised = upd_tc 2 (\<lambda>tc. tc\<lparr>tc_exists := 1, tc_state := SKI_TC_STATE_NEEDS_TRIGGER,
     tc_count := tc_count tc - 1\<rparr>) sample_current"

definition sample_started :: ski_state where
  "sample_started = (upd_tc 2 (\<lambda>tc. tc\<lparr>tc_state := SKI_TC_STATE_RUNNABLE\<rparr>)
     (upd_sc 0 (\<lambda>_. blank_sc\<lparr>sc_interrupts_stack := (sc_interrupts_stack blank_sc)[0 := si_frame (33, 0, 1)],
        sc_interrupts_stack_no := 1\<rparr>) sample_raised))\<lparr>ski_threads_need_reevaluate := 1\<rparr>"

lemma sample_current_fields [simp]:
  "cpus sample_current = [blank_cpu 0, blank_cpu 1]" "ski_threads_no sample_current = 3"
  "length (ski_threads sample_current) = 512" "ski_threads_current sample_current = Some 2"
  "opt_trap_enabled sample_current" "tc_of sample_current i = tc_of sample_state i"
  by (simp_all add: sample_current_def tc_of_def)

lemma sc_of_sample [simp]:
  "sc_of sample_current 0 = blank_sc" "sc_of sample_current (Suc 0) = blank_sc"
  by (simp_all add: sc_of_def blank_cpu_def)

lemma cpu_of_sample [simp]:
  "cpu_of sample_current 0 = blank_cpu 0" "cpu_of sample_current (Suc 0) = blank_cpu 1"
  by (simp_all add: cpu_of_def)

lemma frames_blank [simp]: "frames blank_sc = []"
  by (simp add: frames_def blank_sc_def)

lemma sample_inv: "int_inv sample_current"
proof -
  have "stack_wf blank_sc" by (simp add: stack_wf_def blank_sc_def)
  moreover have "threads_wf sample_current"
    using sample_state_wf by (simp add: threads_wf_def cpu_nos_def)
  moreover have "\<forall>i<3. \<not> tc_matches 1 cpu_no 1 n SKI_TC_STATE_RUNNABLE (tc_of sample_current i)" for cpu_no n
    by (simp add: all_less_3 tc_matches_def blank_tc_def)
  then have "running_set sample_current cpu_no n = {}" for cpu_no n
    by (simp add: running_set_def)
  ultimately show ?thesis
    by (simp add: int_inv_def all_less_3 less_Suc_eq hw_frames_def tc_life_def blank_tc_def)
      (simp add: blank_cpu_def)
qed

lemma sample_raise: "ski_handle_new_irq_set sample_current 0 33 = Inr sample_raised"
  by (simp add: ski_handle_new_irq_set_def blank_cpu_def ski_threads_find_def
      tc_matches_def blank_tc_def pick_res_def sample_raised_def upt_0_3)

lemma sample_raised_fields [simp]:
  "ski_threads_no sample_raised = 3" "ski_threads_current sample_raised = Some 2"
  "cpus sample_raised = [blank_cpu 0, blank_cpu 1]" "length (ski_threads sample_raised) = 512"
  "tc_of sample_raised 0 = sample_tc 0" "tc_of sample_raised (Suc 0) = sample_tc 1"
  "tc_of sample_raised 2 = (sample_tc 2)\<lparr>tc_exists := 1, tc_state := 16, tc_count := 1\<rparr>"
  by (simp_all add: sample_raised_def)

lemma sample_start: "ski_handle_interrupt_begin sample_raised 0 33 0 1 = Inr sample_started"
proof -
  have push: "stack_push (sc_of sample_raised 0) 33 0 1 = Some (blank_sc\<lparr>sc_interrupts_stack :=
      (sc_interrupts_stack blank_sc)[0 := si_frame (33, 0, 1)], sc_interrupts_stack_no := 1\<rparr>)"
    by (simp add: sample_raised_def stack_push_def blank_sc_def si_frame_def upt_conv_Cons)
  have find: "ski_threads_find (upd_sc 0 f sample_raised) 1 0 1 33 SKI_TC_STATE_NEEDS_TRIGGER = Inr (Some 2)" for f
    by (simp add: ski_threads_find_def upt_0_3 tc_matches_def pick_res_def blank_tc_def)
  have idx: "cpu_index (cpu_of sample_raised 0) = 0" by (simp add: cpu_of_def blank_cpu_def)
  show ?thesis
    unfolding ski_handle_interrupt_begin_def push
    by (simp add: Let_def find idx sample_started_def)
qed

text \<open>
  C10: interrupt bookkeeping.  Along every sequence of raised vectors, handler starts and
  handler returns, on any CPUs and in any order, the invariant is kept: every CPU has as many
  hardware frames per vector as running interrupt threads, the interrupt stacks stay
  contiguous and thread flags, states and counts stay consistent.
\<close>

theorem interrupt_run_invariant:
  assumes "int_steps s ops s'" and "int_inv s"
  shows "int_inv s'"
  using assms by (rule int_inv_steps)

theorem interrupt_run_invariant_witness:
  "int_steps sample_current [Irq_set 0 33, Int_begin 0 33 0 1] sample_started \<and> int_inv sample_current \<and>
   int_inv sample_started"
proof -
  have "int_steps sample_current [Irq_set 0 33, Int_begin 0 33 0 1] sample_started"
    using sample_raise sample_start
    by (auto intro!: int_steps.intros simp: sample_raised_def)
  with interrupt_run_invariant[OF this sample_inv] sample_inv show ?thesis by blast
qed

text \<open>
  C32: the return from an interrupt finds its thread.  Under the invariant the handler of an
  interrupt return can stop only in two ways: a trap on an empty stack where traps are
  enabled, or the assertion that a current thread exists when a halted CPU is woken.  The
  assertion that a running interrupt thread is found never fails.
\<close>

theorem interrupt_end_errors:
  assumes "int_inv s" and "c < length (cpus s)" and "ski_handle_interrupt_end s c = Inl e"
  shows "e = Int3_trap \<and> frames (sc_of s c) = [] \<and> opt_trap_enabled s \<or>
    e = Assert_failed \<and> sc_wait_for_interrupt (sc_of s c) \<noteq> 0 \<and> ski_threads_current s = None"
  using assms(1,2)
proof (cases rule: int_end_cases)
  case empty
  then show ?thesis using assms(3) by (auto split: if_splits)
qed (use assms(3) in auto)

theorem interrupt_end_errors_witness:
  "int_inv sample_current \<and> ski_handle_interrupt_end sample_current 0 = Inl Int3_trap \<and>
   frames (sc_of sample_current 0) = []"
proof -
  have "ski_handle_interrupt_end sample_current 0 = Inl Int3_trap"
    by (simp add: ski_handle_interrupt_end_def stack_pop_def blank_sc_def SKI_ASSERT_def)
  with interrupt_end_errors[OF sample_inv _ this] sample_inv show ?thesis by simp
qed

text \<open>
  C31: entry and return match.  When the start of a hardware interrupt succeeds, the return
  right after it succeeds too and leaves the frames of the CPU as they were before the entry.
\<close>

theorem interrupt_round_trip:
  assumes inv: "int_inv s" and c: "c < length (cpus s)"
    and start: "ski_handle_interrupt_begin s c v 0 1 = Inr s1"
  shows "\<exists>s2. ski_handle_interrupt_end s1 c = Inr s2 \<and> frames (sc_of s2 c) = frames (sc_of s c) \<and>
    int_inv s2"
proof -
  from start obtain sc i where push: "stack_push (sc_of s c) v 0 1 = Some sc"
    and cur: "ski_threads_current s \<noteq> None"
    and s1_eq: "s1 = (upd_tc i (\<lambda>tc. tc\<lparr>tc_state := SKI_TC_STATE_RUNNABLE\<rparr>) (upd_sc c (\<lambda>_. sc) s))
            \<lparr>ski_threads_need_reevaluate := 1\<rparr>"
    by (rule begin_hw_Inr)
  note sc = stack_push_Some[OF int_invD(4)[OF inv c] push]
  have s1: "sc_of s1 c = sc" "length (cpus s1) = length (cpus s)" "ski_threads_current s1 \<noteq> None"
    using c cur by (simp_all add: s1_eq)
  have inv1: "int_inv s1" by (rule int_inv_begin[OF inv c _ start]) simp
  have c1: "c < length (cpus s1)" using c s1(2) by simp
  have fr: "frames (sc_of s1 c) = frames (sc_of s c) @ [si_frame (v, 0, 1)]" using sc(2) s1(1) by simp
  from inv1 c1 show ?thesis
  proof (cases rule: int_end_cases)
    case (soft si sc')
    then show ?thesis
      using stack_pop_Some(2)[OF int_invD(4)[OF inv1 c1] soft(1)] fr by (auto simp: si_frame_def)
  next
    case (hw si sc' i s')
    have "int_inv s'" unfolding hw(4) by (rule int_inv_pop_hw[OF inv1 c1 hw(1-3)])
    moreover have "frames (sc_of s' c) = frames (sc_of s c)" "length (cpus s') = length (cpus s1)"
      using stack_pop_Some(2)[OF int_invD(4)[OF inv1 c1] hw(1)] fr c1 by (simp_all add: hw(4))
    ultimately show ?thesis
      using hw(5) c1 by (auto simp: frames_def)
  qed (use fr s1(3) in auto)
qed

theorem interrupt_round_trip_witness:
  "\<exists>s2. ski_handle_interrupt_end sample_started 0 = Inr s2 \<and> frames (sc_of s2 0) = []"
proof -
  have "int_inv sample_raised"
    using int_inv_irq[OF sample_inv _ sample_raise] by simp
  from interrupt_round_trip[OF this _ sample_start] show ?thesis
    by (auto simp: sample_raised_def)
qed

definition dormant :: "ski_state \<Rightarrow> env \<Rightarrow> int \<Rightarrow> nat \<Rightarrow> bool" where
  "dormant s c v i \<longleftrightarrow> i < ski_threads_no s \<and>
    tc_matches 0 (cpu_index (cpu_of s c)) 1 v SKI_TC_STATE_NA (tc_of s i)"

text \<open>
  C33: a raised vector.  On an inactive CPU nothing changes.  On an active one, a dormant
  thread for this CPU and vector with least effective priority is spawned: it exists, waits
  for its trigger and has one spawn less left.  Without such a thread nothing changes.  No
  assertion fails.
\<close>

theorem irq_set_spawns:
  assumes inv: "int_inv s" and c: "c < length (cpus s)"
  shows "if ski_active (cpu_of s c) \<and> (\<exists>i. dormant s c v i)
    then \<exists>i. dormant s c v i \<and> (\<forall>j. dormant s c v j \<longrightarrow> eff_priority s i \<le> eff_priority s j) \<and>
      ski_handle_new_irq_set s c v =
        Inr (upd_tc i (\<lambda>tc. tc\<lparr>tc_exists := 1, tc_state := SKI_TC_STATE_NEEDS_TRIGGER,
               tc_count := tc_count tc - 1\<rparr>) s)
    else ski_handle_new_irq_set s c v = Inr s"
proof (cases "ski_active (cpu_of s c) \<and> (\<exists>i. dormant s c v i)")
  case True
  note wf = int_invD(1)[OF inv]
  obtain r where r: "ski_threads_find s 0 (cpu_index (cpu_of s c)) 1 v SKI_TC_STATE_NA = Inr r"
    by (simp add: threads_find_pick[OF wf])
  from True obtain k where k: "dormant s c v k" by blast
  then have "r \<noteq> None" using r threads_find_None[OF wf, of 0 "cpu_index (cpu_of s c)" 1 v SKI_TC_STATE_NA]
    by (auto simp: dormant_def)
  then obtain i where i: "r = Some i" by blast
  note find = threads_find_Some[OF wf r[unfolded i]]
  then have "0 < tc_count (tc_of s i)"
    using tc_matches_na[OF int_invD(3)[OF inv, of i]] by simp
  then have "ski_handle_new_irq_set s c v =
      Inr (upd_tc i (\<lambda>tc. tc\<lparr>tc_exists := 1, tc_state := SKI_TC_STATE_NEEDS_TRIGGER,
             tc_count := tc_count tc - 1\<rparr>) s)"
    using True r i by (simp add: ski_handle_new_irq_set_def)
  moreover have "dormant s c v i" "\<forall>j. dormant s c v j \<longrightarrow> eff_priority s i \<le> eff_priority s j"
    using find by (auto simp: dormant_def)
  ultimately show ?thesis using True by auto
next
  case False
  note wf = int_invD(1)[OF inv]
  have "ski_handle_new_irq_set s c v = Inr s"
  proof (cases "ski_active (cpu_of s c)")
    case True
    with False have "ski_threads_find s 0 (cpu_index (cpu_of s c)) 1 v SKI_TC_STATE_NA = Inr None"
      by (auto simp: threads_find_None[OF wf] dormant_def)
    with True show ?thesis
      by (simp add: ski_handle_new_irq_set_def threads_find_pick[OF wf])
  qed (simp add: ski_handle_new_irq_set_def)
  with False show ?thesis by simp
qed

theorem irq_set_spawns_witness:
  "int_inv sample_current \<and> ski_handle_new_irq_set sample_current 1 33 = Inr sample_current"
proof -
  have no: "\<not> (i < 3 \<and> tc_matches 0 1 1 33 SKI_TC_STATE_NA (tc_of sample_state i))" for i :: nat
  proof -
    have "\<forall>i<3. \<not> tc_matches 0 1 1 33 SKI_TC_STATE_NA (tc_of sample_state i)"
      by (simp add: all_less_3 tc_matches_def blank_tc_def)
    then show ?thesis by blast
  qed
  from irq_set_spawns[OF sample_inv, of 1 33] no sample_inv show ?thesis
    by (simp add: blank_cpu_def dormant_def)
qed

text \<open>
  A count of zero in the priorities file leaves a dormant thread with no spawn left, and the
  first time its vector is raised the assertion behind the comment \<open>We don't reach this
  case\<close> fails.
\<close>

lemma zero_count_asserts:
  "bind_res (insert_all (ski_threads_reset blank_state) [(0, -1, 1), (0, 33, 0)])
     (\<lambda>s. ski_handle_new_irq_set s 0 33) = Inl Assert_failed"
  by (simp add: insert_all_def ski_threads_insert_def ski_threads_reset_def blank_state_def
      upd_tc_def ski_tc_initialize_def ski_handle_new_irq_set_def cpu_of_def blank_cpu_def
      ski_threads_find_def tc_of_def tc_matches_def pick_res_def numeral_2_eq_2 nth_list_update)

text \<open>
  Whether an interrupt thread is on top of its CPU.  For a vector other than 1 the test
  compares the re-entry number of the thread with the number of hardware frames of that
  vector on the stack less one; the element read past the end of the array has no effect.
\<close>

theorem top_hw_stack_counts_frames:
  assumes "stack_wf sc" and "ma_is_initialized (sc_cpu_rs sc) = 1" and "tc_int_no tc \<noteq> 1"
  shows "ski_interrupts_is_top_hw_stack sc tc \<longleftrightarrow>
    tc_reentry_no tc =
      int (length (filter (\<lambda>si. hw_entry si \<and> si_int_no si = tc_int_no tc) (frames sc))) - 1"
proof -
  have count: "foldl (\<lambda>r si. if P si then r + 1 else r) z xs = z + int (length (filter P xs))"
    for P z and xs :: "ski_interrupt list"
    by (induction xs arbitrary: z) auto
  let ?n = "nat (sc_interrupts_stack_no sc)"
  have len: "length (sc_interrupts_stack sc) = SKI_MAX_INTERRUPTS_STACK"
    and n: "0 \<le> sc_interrupts_stack_no sc" using assms(1) by (auto simp: stack_wf_def)
  have "si_exists (drop ?n (sc_interrupts_stack sc) ! k) = 0" if "k < length (drop ?n (sc_interrupts_stack sc))" for k
    using assms(1) that len n by (auto simp: stack_wf_def)
  then have rest: "filter (\<lambda>si. hw_entry si \<and> si_int_no si = tc_int_no tc) (drop ?n (sc_interrupts_stack sc)) = []"
    by (auto simp: filter_empty_conv hw_entry_def in_set_conv_nth)
  have "filter (\<lambda>si. hw_entry si \<and> si_int_no si = tc_int_no tc) (sc_interrupts_stack sc) =
      filter (\<lambda>si. hw_entry si \<and> si_int_no si = tc_int_no tc)
        (take ?n (sc_interrupts_stack sc) @ drop ?n (sc_interrupts_stack sc))" by simp
  also have "\<dots> = filter (\<lambda>si. hw_entry si \<and> si_int_no si = tc_int_no tc) (frames sc)"
    by (simp only: filter_append rest append_Nil2 frames_def)
  finally have "filter (\<lambda>si. hw_entry si \<and> si_int_no si = tc_int_no tc) (sc_interrupts_stack sc) =
      filter (\<lambda>si. hw_entry si \<and> si_int_no si = tc_int_no tc) (frames sc)" .
  then show ?thesis
    using assms(2,3) len
    by (simp add: ski_interrupts_is_top_hw_stack_def Let_def count past_stack_def)
qed

theorem top_hw_stack_counts_frames_witness:
  "\<not> ski_interrupts_is_top_hw_stack blank_sc (sample_tc 2)"
  using top_hw_stack_counts_frames[of blank_sc "sample_tc 2"]
  by (simp add: stack_wf_def blank_sc_def blank_tc_def frames_def)

text \<open>For vector 1 the element past the array is counted as a frame.\<close>

definition overread_sc :: SKICPU where
  "overread_sc = blank_sc\<lparr>sc_interrupts_stack := (sc_interrupts_stack blank_sc)[0 :=
        \<lparr>si_exists = 1, si_int_no = 14, si_is_int_instruction = 0, si_is_hw = 0\<rparr>],
      sc_interrupts_stack_no := 1,
      sc_cpu_rs := (sc_cpu_rs blank_sc)\<lparr>ma_entries := [\<lparr>mae_count = 1, mae_eip = 0,
        mae_mem_address = 0, mae_mem_value = 0\<rparr>]\<rparr>\<rparr>"

lemma top_hw_stack_overread:
  "stack_wf overread_sc" "\<not> ski_interrupts_in_hw_int overread_sc"
  "ski_interrupts_is_top_hw_stack overread_sc (blank_tc\<lparr>tc_is_int := 1, tc_int_no := 1\<rparr>)"
proof -
  show "stack_wf overread_sc"
    by (simp add: overread_sc_def stack_wf_def blank_sc_def nth_list_update)
  show "\<not> ski_interrupts_in_hw_int overread_sc"
    by (simp add: overread_sc_def blank_sc_def ski_interrupts_in_hw_int_def hw_entry_def numeral_eq_Suc)
  show "ski_interrupts_is_top_hw_stack overread_sc (blank_tc\<lparr>tc_is_int := 1, tc_int_no := 1\<rparr>)"
    by (simp add: overread_sc_def blank_sc_def blank_tc_def ski_interrupts_is_top_hw_stack_def
        hw_entry_def past_stack_def numeral_eq_Suc)
qed

lemma ignored_vectors_exact:
  "bitmap_wf (foldl ski_set_bit zero_bitmap ignored_vectors) \<and>
   bitmap_set (foldl ski_set_bit zero_bitmap ignored_vectors) = {48..63} \<union> {239}"
proof -
  have lt: "\<forall>i\<in>set ignored_vectors. i < 256" by (simp add: ignored_vectors_def)
  have "bitmap_set (foldl ski_set_bit zero_bitmap ignored_vectors) = set ignored_vectors"
    using lt ski_bits.get_foldl_set[OF bitmap_wf_zero lt] by (auto simp: bitmap_set_def)
  moreover have "ignored_vectors = 239 # 48 # [48..<64]"
    by (simp add: ignored_vectors_def upt_conv_Cons)
  then have "set ignored_vectors = set (239 # 48 # [48..<64])" by (rule arg_cong)
  moreover have "set (239 # 48 # [48..<64]) = {48..63} \<union> {239}"
    by (simp only: list.set set_upt) auto
  ultimately have "bitmap_set (foldl ski_set_bit zero_bitmap ignored_vectors) = {48..63} \<union> {239}"
    by (simp only:)
  moreover have "bitmap_wf (foldl ski_set_bit zero_bitmap ignored_vectors)"
    by (rule ski_bits.wf_foldl_set[OF bitmap_wf_zero])
  ultimately show ?thesis by (intro conjI)
qed

lemma irq_set_cpus:
  "ski_handle_new_irq_set s c v = Inr s' \<Longrightarrow> cpus s' = cpus s"
  by (auto simp: ski_handle_new_irq_set_def Let_def bind_res_eq_Inr split: if_splits option.splits)

lemma init_loop_cpus:
  assumes "fold_res (\<lambda>s i. if P s i then ski_handle_new_irq_set s c (int i) else Inr s) s is = Inr s'"
  shows "cpus s' = cpus s"
  using assms
  by (rule fold_res_invariant[where P = "\<lambda>t. cpus t = cpus s"])
    (auto dest: irq_set_cpus split: if_splits)

text \<open>
  When the interrupt state of a CPU is initialised, exactly the vectors 48 to 63 and 239
  are marked as ignored and the interrupt stack is empty.
\<close>

theorem initialize_interrupts_ignored:
  assumes "c < length (cpus s)" and "ski_initialize_interrupts s c = Inr s'"
  shows "bitmap_set (sc_ignore_interrupts (sc_of s' c)) = {48..63} \<union> {239} \<and>
    stack_wf (sc_of s' c) \<and> frames (sc_of s' c) = []"
proof -
  let ?f = "\<lambda>sc. sc\<lparr>sc_ignore_interrupts := foldl ski_set_bit zero_bitmap ignored_vectors,
           sc_interrupts_stack := replicate SKI_MAX_INTERRUPTS_STACK zero_si,
           sc_interrupts_stack_no := 0\<rparr>"
  have "cpus s' = cpus (upd_sc c ?f s)"
    using assms(2) unfolding ski_initialize_interrupts_def Let_def
    by (rule init_loop_cpus[where P = "\<lambda>s i. ski_apic_check_interrupt_set i (cpu_apic (cpu_of s c))"])
  then have "sc_of s' c = ?f (sc_of s c)"
    using assms(1) sc_of_upd_sc[of c s ?f c] by (simp add: sc_of_def)
  then show ?thesis
    using ignored_vectors_exact by (simp add: stack_wf_def frames_def zero_si_def)
qed

theorem initialize_interrupts_ignored_witness:
  "\<exists>s'. ski_initialize_interrupts sample_current 0 = Inr s' \<and> 239 \<in> bitmap_set (sc_ignore_interrupts (sc_of s' 0))"
proof -
  let ?s = "upd_sc 0 (\<lambda>sc. sc\<lparr>sc_ignore_interrupts := foldl ski_set_bit zero_bitmap ignored_vectors,
           sc_interrupts_stack := replicate SKI_MAX_INTERRUPTS_STACK zero_si,
           sc_interrupts_stack_no := 0\<rparr>) sample_current"
  have "cpu_apic (cpu_of ?s 0) = blank_apic 0"
    by (simp add: upd_sc_def) (simp add: blank_cpu_def)
  then have loop: "fold_res (\<lambda>s i. if ski_apic_check_interrupt_set i (cpu_apic (cpu_of s 0))
      then ski_handle_new_irq_set s 0 (int i) else Inr s) ?s is = Inr ?s" if "\<forall>i\<in>set is. i < 256" for "is"
    using that
    by (induction "is") (simp_all add: ski_apic_check_interrupt_set_def blank_apic_def)
  have "ski_initialize_interrupts sample_current 0 = Inr ?s"
    unfolding ski_initialize_interrupts_def Let_def by (rule loop) simp
  with initialize_interrupts_ignored[OF _ this] show ?thesis by (intro exI[of _ ?s]) simp
qed

end
