(* ===== verification/Ski_Sched.thy ===== *)
theory Ski_Sched
  imports Ski_Interrupts
begin

text \<open>
  The scheduling decisions of \<open>vmm/cpu-exec.c\<close>: the starvation adjustment, waiting on a
  read set and waking up, the priority inversion at a preemption point, the list of
  preemption points and the test whether a CPU may run.  The wait and wake lemmas use only
  the interface \<open>read_set\<close>; a wait is followed through every sequence of stores and waits of other
  threads.
\<close>

section \<open>Operations\<close>

definition ski_threads_reevaluate :: "ski_state \<Rightarrow> ski_state" where
  "ski_threads_reevaluate s = s\<lparr>ski_threads_need_reevaluate := 1\<rparr>"

definition assert_current :: "ski_state \<Rightarrow> nat res" where
  "assert_current s = (case ski_threads_current s of None \<Rightarrow> Inl Assert_failed | Some i \<Rightarrow> Inr i)"

definition ski_threads_adjust_priority_current :: "ski_state \<Rightarrow> (ski_state \<times> bool) res" where
  "ski_threads_adjust_priority_current s =
    (if ski_sched_instructions_current s \<ge> 0 \<and>
        ski_sched_instructions_current s mod SKI_SCHED_ADJUST_MODULO = 0
     then bind_res (assert_current s) (\<lambda>i.
       let new_adjust = tc_priority_adjust (tc_of s i) + SKI_SCHED_ADJUST_INC
       in bind_res (SKI_ASSERT_MSG (new_adjust < SKI_DEBUG_MAX_ADJUST) SKI_EXIT_MAX_PRIORITY_ADJ) (\<lambda>_.
          Inr ((upd_tc i (\<lambda>tc. tc\<lparr>tc_priority_adjust := new_adjust\<rparr>) s)
                 \<lparr>ski_threads_need_reevaluate := 1\<rparr>, True)))
     else Inr (s, False))"

definition tc_rs_waiting :: "thread_context \<Rightarrow> bool" where
  "tc_rs_waiting tc \<longleftrightarrow> tc_wait_for_rs_on_pause tc \<noteq> 0 \<or> tc_wait_for_rs tc \<noteq> 0"

definition wake_step :: "int \<Rightarrow> ski_state \<times> bool \<Rightarrow> nat \<Rightarrow> (ski_state \<times> bool) res" where
  "wake_step mem_address sf i =
    (case sf of (s, found) \<Rightarrow>
       let tc = tc_of s i
       in if tc_rs_waiting tc \<and> tc_exists tc \<noteq> 0 \<and> ski_liveness_is_present (tc_wait_rs tc) mem_address
          then bind_res (assert_current s) (\<lambda>_.
               bind_res (ski_liveness_reset (tc_wait_rs tc)) (\<lambda>rs.
                 Inr (upd_tc i (\<lambda>tc. tc\<lparr>tc_wait_for_rs_on_pause := 0, tc_wait_for_rs := 0,
                                       tc_wait_rs := rs\<rparr>) s, True)))
          else Inr (s, found))"

definition ski_threads_all_wake_rs :: "ski_state \<Rightarrow> int \<Rightarrow> (ski_state \<times> bool) res" where
  "ski_threads_all_wake_rs s mem_address =
    bind_res (fold_res (wake_step mem_address) (s, False) [0..<ski_threads_no s]) (\<lambda>(s, found).
      if found then Inr (s\<lparr>ski_threads_need_reevaluate := 1\<rparr>, True) else Inr (s, False))"

definition ski_threads_self_wait_rs :: "ski_state \<Rightarrow> env \<Rightarrow> bool \<Rightarrow> ski_state res" where
  "ski_threads_self_wait_rs s c is_pause =
    bind_res (assert_current s) (\<lambda>i.
    bind_res (ski_liveness_copy (sc_cpu_rs (sc_of s c))) (\<lambda>rs.
      Inr ((upd_tc i (\<lambda>tc.
              (if is_pause then tc\<lparr>tc_wait_for_rs_on_pause := 1\<rparr> else tc\<lparr>tc_wait_for_rs := 1\<rparr>)
                \<lparr>tc_last_pause := - SKI_MAX_LIVENESS_PAUSE_DISTANCE, tc_wait_rs := rs\<rparr>) s)
           \<lparr>ski_threads_need_reevaluate := 1\<rparr>)))"

definition ski_threads_self_wait_hlt :: "ski_state \<Rightarrow> env \<Rightarrow> ski_state res" where
  "ski_threads_self_wait_hlt s c =
    bind_res (assert_current s) (\<lambda>_.
      Inr ((upd_sc c (\<lambda>sc. sc\<lparr>sc_wait_for_interrupt := 1\<rparr>) s)\<lparr>ski_threads_need_reevaluate := 1\<rparr>))"

text \<open>The threads whose priority the inversion compares with.\<close>

definition invert_considers :: "ski_state \<Rightarrow> thread_context \<Rightarrow> bool res" where
  "invert_considers s tc =
    (if tc_exists tc \<noteq> 0 \<and> (tc_int_no tc < 0 \<or> tc_state tc \<noteq> SKI_TC_STATE_NEEDS_TRIGGER)
     then if tc_wait_for_rs tc \<noteq> 0 \<or> tc_wait_for_rs_on_pause tc \<noteq> 0 then Inr False
          else on_cpu s tc (\<lambda>c. sc_wait_for_interrupt (sc_of s c) = 0)
     else Inr False)"

definition ski_threads_invert_priority :: "ski_state \<Rightarrow> ski_state res" where
  "ski_threads_invert_priority s =
    bind_res (assert_current s) (\<lambda>cur.
    bind_res (fold_res (\<lambda>lowest_priority i.
        bind_res (invert_considers s (tc_of s i)) (\<lambda>b.
          Inr (if b then max lowest_priority (tc_priority (tc_of s i)) else lowest_priority)))
      0 [0..<ski_threads_no s]) (\<lambda>lowest_priority.
      Inr ((upd_tc cur (\<lambda>tc. tc\<lparr>tc_priority := lowest_priority + 1\<rparr>) s)
           \<lparr>ski_threads_need_reevaluate := 1\<rparr>)))"

definition ski_preemption_mode_matches :: "ski_state \<Rightarrow> bool" where
  "ski_preemption_mode_matches s =
    (case ski_threads_current s of
       None \<Rightarrow> True
     | Some i \<Rightarrow>
         let int_no = tc_int_no (tc_of s i)
         in opt_preemption_mode s = SKI_PREEMPTION_MODE_ALL \<or>
            opt_preemption_mode s = SKI_PREEMPTION_MODE_CPU \<and> int_no < 0 \<or>
            opt_preemption_mode s = SKI_PREEMPTION_MODE_CPU_AND_NONTIMER \<and>
              (int_no < 0 \<or> int_no \<noteq> 239 \<and> int_no \<noteq> 48))"

text \<open>The scan keeps the position of the first least entry not below the bound.\<close>

fun lowest_scan :: "int \<Rightarrow> nat option \<Rightarrow> int list \<Rightarrow> nat list \<Rightarrow> nat option" where
  "lowest_scan min_required min_found ps [] = min_found"
| "lowest_scan min_required min_found ps (i # is) =
    lowest_scan min_required
      (case min_found of
         None \<Rightarrow> if ps ! i \<ge> min_required then Some i else None
       | Some m \<Rightarrow> if ps ! m > ps ! i \<and> ps ! i \<ge> min_required then Some i else Some m) ps is"

definition ski_preemption_get_and_clear_lowest :: "int list \<Rightarrow> int \<Rightarrow> int \<times> int list" where
  "ski_preemption_get_and_clear_lowest ps min_required =
    (case lowest_scan min_required None ps [0..<length ps] of
       Some i \<Rightarrow> (ps ! i, ps[i := -1])
     | None \<Rightarrow> (-1, ps))"

definition ski_cpu_can_run :: "ski_state \<Rightarrow> env \<Rightarrow> (ski_state \<times> bool) res" where
  "ski_cpu_can_run s c =
    (let e = cpu_of s c; st = sc_state (sc_of s c)
     in if ski_active e \<and> (st = SKI_CPU_RUNNING_TEST \<or> st = SKI_CPU_BLOCKED_ON_EXIT)
        then bind_res (ski_threads_find_next_runnable s) (\<lambda>i.
          if tc_cpu_no (tc_of s i) = cpu_index e
          then bind_res
            (if ski_threads_current s \<noteq> Some i
             then bind_res (ski_liveness_reset (sc_cpu_rs (sc_of s c))) (\<lambda>rs.
                    Inr ((upd_sc c (\<lambda>sc. sc\<lparr>sc_cpu_rs := rs\<rparr>) s)
                      \<lparr>ski_sched_instructions_current := 0, ski_threads_current := Some i\<rparr>))
             else Inr s)
            (\<lambda>s. Inr (s\<lparr>ski_threads_need_reevaluate := 0\<rparr>, True))
          else Inr (s\<lparr>ski_threads_need_reevaluate := 0\<rparr>, False))
        else Inr (s, \<not> (ski_active e \<and> st = SKI_CPU_BLOCKED_ON_ENTER)))"

section \<open>Starvation adjustment\<close>

text \<open>The adjustments of all threads stay below the limit.\<close>

definition adjust_ok :: "ski_state \<Rightarrow> bool" where
  "adjust_ok s \<longleftrightarrow> (\<forall>i < length (ski_threads s).
     0 \<le> tc_priority_adjust (tc_of s i) \<and> tc_priority_adjust (tc_of s i) < SKI_DEBUG_MAX_ADJUST)"

lemma adjust_ok_preserved:
  assumes "adjust_ok s" and "ski_threads_adjust_priority_current s = Inr (s', b)"
    and "\<And>i. ski_threads_current s = Some i \<Longrightarrow> i < length (ski_threads s)"
  shows "adjust_ok s'"
  using assms
  by (auto simp: ski_threads_adjust_priority_current_def assert_current_def adjust_ok_def Let_def
      bind_res_eq_Inr split: if_splits option.splits)

section \<open>Waking up\<close>

definition rs_ready :: "ski_state \<Rightarrow> bool" where
  "rs_ready s \<longleftrightarrow> (\<forall>i < ski_threads_no s. tc_rs_waiting (tc_of s i) \<longrightarrow> rs_wf (tc_wait_rs (tc_of s i)))"

definition woken :: "ski_state \<Rightarrow> int \<Rightarrow> nat \<Rightarrow> bool" where
  "woken s a i \<longleftrightarrow> tc_rs_waiting (tc_of s i) \<and> tc_exists (tc_of s i) \<noteq> 0 \<and>
    ski_liveness_is_present (tc_wait_rs (tc_of s i)) a"

definition wake_tc :: "thread_context \<Rightarrow> thread_context" where
  "wake_tc tc = tc\<lparr>tc_wait_for_rs_on_pause := 0, tc_wait_for_rs := 0,
    tc_wait_rs := zero_ma\<lparr>ma_max_entries := ma_max_entries (tc_wait_rs tc), ma_is_initialized := 1\<rparr>\<rparr>"

lemma wake_step_eq:
  assumes "rs_wf (tc_wait_rs (tc_of s i))" "ski_threads_current s \<noteq> None"
  shows "wake_step a (s, found) i =
    Inr (if woken s a i then (upd_tc i wake_tc s, True) else (s, found))"
  using assms
  by (auto simp: wake_step_def woken_def Let_def assert_current_def ski_liveness_reset_wf tc_of_def
      upd_tc_def wake_tc_def split: option.splits)

lemma wake_step_idle: "\<not> tc_rs_waiting (tc_of s i) \<Longrightarrow> wake_step a (s, found) i = Inr (s, found)"
  by (simp add: wake_step_def Let_def)

lemma woken_cong: "tc_of s i = tc_of s' i \<Longrightarrow> woken s a i = woken s' a i"
  by (simp add: woken_def)

lemma wake_prefix:
  assumes wf: "threads_wf s" and ready: "rs_ready s" and cur: "ski_threads_current s \<noteq> None"
    and n: "n \<le> ski_threads_no s"
  shows "\<exists>s'. fold_res (wake_step a) (s, False) [0..<n] = Inr (s', \<exists>i<n. woken s a i) \<and>
    cpus s' = cpus s \<and> ski_threads_no s' = ski_threads_no s \<and> ski_threads_current s' = ski_threads_current s \<and>
    length (ski_threads s') = length (ski_threads s) \<and>
    (\<forall>i. tc_of s' i = (if i < n \<and> woken s a i then wake_tc (tc_of s i) else tc_of s i))"
  using n
proof (induction n)
  case (Suc n)
  then obtain s1 where s1: "fold_res (wake_step a) (s, False) [0..<n] = Inr (s1, \<exists>i<n. woken s a i)"
    "cpus s1 = cpus s" "ski_threads_no s1 = ski_threads_no s" "ski_threads_current s1 = ski_threads_current s"
    "length (ski_threads s1) = length (ski_threads s)"
    "\<forall>i. tc_of s1 i = (if i < n \<and> woken s a i then wake_tc (tc_of s i) else tc_of s i)" by auto
  have same: "tc_of s1 n = tc_of s n" and wk: "woken s1 a n = woken s a n"
    using s1(6) by (simp_all add: woken_def)
  have len: "n < length (ski_threads s1)" using threads_wfD(6)[OF wf] Suc.prems s1(5) by simp
  have step: "wake_step a (s1, \<exists>i<n. woken s a i) n =
      Inr (if woken s a n then (upd_tc n wake_tc s1, True) else (s1, \<exists>i<n. woken s a i))"
  proof (cases "tc_rs_waiting (tc_of s n)")
    case True
    then have "rs_wf (tc_wait_rs (tc_of s1 n))" using ready Suc.prems same by (simp add: rs_ready_def)
    with cur s1(4) wk show ?thesis by (subst wake_step_eq) simp_all
  next
    case False
    then show ?thesis using same by (simp add: wake_step_idle woken_def)
  qed
  show ?case
  proof (cases "woken s a n")
    case True
    then show ?thesis
      using s1 step len same by (auto simp: fold_res_append less_Suc_eq)
  next
    case False
    then show ?thesis
      using s1 step by (auto simp: fold_res_append less_Suc_eq)
  qed
qed simp

lemma all_wake_rs_spec:
  assumes "threads_wf s" "rs_ready s" "ski_threads_current s \<noteq> None"
  shows "\<exists>s'. ski_threads_all_wake_rs s a = Inr (s', \<exists>i < ski_threads_no s. woken s a i) \<and>
    cpus s' = cpus s \<and> ski_threads_no s' = ski_threads_no s \<and> ski_threads_current s' = ski_threads_current s \<and>
    length (ski_threads s') = length (ski_threads s) \<and>
    (\<forall>i < ski_threads_no s. tc_of s' i = (if woken s a i then wake_tc (tc_of s i) else tc_of s i)) \<and>
    ((\<exists>i < ski_threads_no s. woken s a i) \<longrightarrow> ski_threads_need_reevaluate s' = 1)"
proof -
  from wake_prefix[OF assms order_refl, of a] obtain s1 where
    s1: "fold_res (wake_step a) (s, False) [0..<ski_threads_no s] = Inr (s1, \<exists>i < ski_threads_no s. woken s a i)"
    "cpus s1 = cpus s" "ski_threads_no s1 = ski_threads_no s" "ski_threads_current s1 = ski_threads_current s"
    "length (ski_threads s1) = length (ski_threads s)"
    "\<forall>i. tc_of s1 i = (if i < ski_threads_no s \<and> woken s a i then wake_tc (tc_of s i) else tc_of s i)"
    by blast
  show ?thesis
  proof (cases "\<exists>i < ski_threads_no s. woken s a i")
    case True
    then have "ski_threads_all_wake_rs s a = Inr (s1\<lparr>ski_threads_need_reevaluate := 1\<rparr>, True)"
      using s1(1) by (simp add: ski_threads_all_wake_rs_def)
    with s1 True show ?thesis by (intro exI[of _ "s1\<lparr>ski_threads_need_reevaluate := 1\<rparr>"]) simp
  next
    case False
    then have "ski_threads_all_wake_rs s a = Inr (s1, False)"
      using s1(1) by (simp add: ski_threads_all_wake_rs_def)
    with s1 False show ?thesis by (intro exI[of _ s1]) auto
  qed
qed

section \<open>Waiting\<close>

text \<open>
  What happens while a thread waits: stores to memory, and other threads that are scheduled and
  start to wait in turn.
\<close>

datatype wait_event = Store int | Wait nat env bool

fun wait_exec :: "ski_state \<Rightarrow> wait_event \<Rightarrow> ski_state res" where
  "wait_exec s (Store a) = bind_res (ski_threads_all_wake_rs s a) (\<lambda>(s, _). Inr s)"
| "wait_exec s (Wait k c is_pause) = ski_threads_self_wait_rs (s\<lparr>ski_threads_current := Some k\<rparr>) c is_pause"

definition cpus_ready :: "ski_state \<Rightarrow> bool" where
  "cpus_ready s \<longleftrightarrow> (\<forall>c<length (cpus s). rs_wf (sc_cpu_rs (sc_of s c)))"

text \<open>The events leave thread \<open>i\<close> alone and name existing threads and CPUs.\<close>

fun event_of_others :: "ski_state \<Rightarrow> nat \<Rightarrow> wait_event \<Rightarrow> bool" where
  "event_of_others s i (Store a) = True"
| "event_of_others s i (Wait k c is_pause) = (k < ski_threads_no s \<and> k \<noteq> i \<and> c < length (cpus s))"

definition wait_tc :: "bool \<Rightarrow> ski_ma \<Rightarrow> thread_context \<Rightarrow> thread_context" where
  "wait_tc is_pause m tc = (if is_pause then tc\<lparr>tc_wait_for_rs_on_pause := 1\<rparr> else tc\<lparr>tc_wait_for_rs := 1\<rparr>)
     \<lparr>tc_last_pause := - SKI_MAX_LIVENESS_PAUSE_DISTANCE, tc_wait_rs := m\<rparr>"

lemma wait_tc_fields [simp]:
  "tc_cpu_no (wait_tc p m tc) = tc_cpu_no tc" "tc_is_int (wait_tc p m tc) = tc_is_int tc"
  "tc_int_no (wait_tc p m tc) = tc_int_no tc" "tc_id (wait_tc p m tc) = tc_id tc"
  "tc_exists (wait_tc p m tc) = tc_exists tc" "tc_reentry_no (wait_tc p m tc) = tc_reentry_no tc"
  "tc_wait_rs (wait_tc p m tc) = m" "tc_rs_waiting (wait_tc p m tc)"
  by (auto simp: wait_tc_def tc_rs_waiting_def)

lemma wake_tc_fields [simp]:
  "tc_cpu_no (wake_tc tc) = tc_cpu_no tc" "tc_is_int (wake_tc tc) = tc_is_int tc" "tc_int_no (wake_tc tc) = tc_int_no tc"
  "tc_id (wake_tc tc) = tc_id tc" "tc_exists (wake_tc tc) = tc_exists tc" "tc_reentry_no (wake_tc tc) = tc_reentry_no tc"
  "\<not> tc_rs_waiting (wake_tc tc)"
  by (simp_all add: wake_tc_def tc_rs_waiting_def)

lemma threads_wf_reevaluate [simp]: "threads_wf (s\<lparr>ski_threads_need_reevaluate := v\<rparr>) = threads_wf s"
  by (simp add: threads_wf_def cpu_nos_def)

lemma threads_wf_current [simp]: "threads_wf (s\<lparr>ski_threads_current := v\<rparr>) = threads_wf s"
  by (simp add: threads_wf_def cpu_nos_def tc_of_def)

lemma self_wait_spec:
  assumes wf: "threads_wf s" and ready: "rs_ready s" and cur: "ski_threads_current s = Some k" "k < ski_threads_no s"
    and rs: "rs_wf (sc_cpu_rs (sc_of s c))"
  shows "\<exists>s' m. ski_threads_self_wait_rs s c is_pause = Inr s' \<and> threads_wf s' \<and> rs_ready s' \<and>
    cpus s' = cpus s \<and> ski_threads_no s' = ski_threads_no s \<and> ski_threads_current s' = Some k \<and>
    (\<forall>i. tc_of s' i = (if i = k then wait_tc is_pause m (tc_of s k) else tc_of s i)) \<and>
    (\<forall>a. ski_liveness_is_present m a = ski_liveness_is_present (sc_cpu_rs (sc_of s c)) a)"
proof -
  from rs.copy_ok[OF rs] obtain m where m: "ski_liveness_copy (sc_cpu_rs (sc_of s c)) = Inr m" "rs_wf m"
    "\<forall>a. ski_liveness_is_present m a = ski_liveness_is_present (sc_cpu_rs (sc_of s c)) a" by blast
  let ?s = "(upd_tc k (wait_tc is_pause m) s)\<lparr>ski_threads_need_reevaluate := 1\<rparr>"
  have len: "k < length (ski_threads s)" by (rule threads_wfD(6)[OF wf cur(2)])
  have "ski_threads_self_wait_rs s c is_pause = Inr ?s"
    using m(1) cur(1) by (simp add: ski_threads_self_wait_rs_def assert_current_def wait_tc_def[abs_def])
  moreover have "threads_wf ?s" using threads_wf_upd_tc[OF wf cur(2), of "wait_tc is_pause m"] by simp
  moreover have "rs_ready ?s" using ready len m(2) by (auto simp: rs_ready_def)
  ultimately show ?thesis using m(3) len cur(1) by (intro exI[of _ ?s] exI[of _ m]) auto
qed

lemma all_wake_wf:
  assumes "threads_wf s" "rs_ready s" "ski_threads_current s \<noteq> None" "ski_threads_all_wake_rs s a = Inr (s', b)"
  shows "threads_wf s' \<and> rs_ready s' \<and> cpus s' = cpus s \<and> ski_threads_no s' = ski_threads_no s \<and>
    ski_threads_current s' = ski_threads_current s \<and>
    (\<forall>i < ski_threads_no s. tc_of s' i = (if woken s a i then wake_tc (tc_of s i) else tc_of s i))"
proof -
  from all_wake_rs_spec[OF assms(1-3), of a] assms(4) have s': "cpus s' = cpus s" "ski_threads_no s' = ski_threads_no s"
    "ski_threads_current s' = ski_threads_current s" "length (ski_threads s') = length (ski_threads s)"
    "\<forall>i < ski_threads_no s. tc_of s' i = (if woken s a i then wake_tc (tc_of s i) else tc_of s i)" by auto
  have "threads_wf s'" using assms(1) s' by (simp add: threads_wf_def cpu_nos_def)
  moreover have "rs_ready s'" using assms(2) s'(2,5) by (simp add: rs_ready_def)
  ultimately show ?thesis using s' by blast
qed

text \<open>
  What holds of the waiting thread \<open>i\<close>, which waits since \<open>s1\<close>, after the events \<open>evs\<close>: it is as it
  was, with its read set, or it has been woken by a store to an address of this set.
\<close>

definition hit :: "ski_ma \<Rightarrow> wait_event list \<Rightarrow> bool" where
  "hit m evs \<longleftrightarrow> (\<exists>a. Store a \<in> set evs \<and> ski_liveness_is_present m a)"

definition wait_inv :: "ski_state \<Rightarrow> nat \<Rightarrow> wait_event list \<Rightarrow> ski_state \<Rightarrow> bool" where
  "wait_inv s1 i evs s \<longleftrightarrow> threads_wf s \<and> rs_ready s \<and> ski_threads_current s \<noteq> None \<and> cpus s = cpus s1 \<and>
    ski_threads_no s = ski_threads_no s1 \<and>
    tc_of s i = (if hit (tc_wait_rs (tc_of s1 i)) evs then wake_tc (tc_of s1 i) else tc_of s1 i)"

lemma wait_step:
  assumes inv: "wait_inv s1 i evs s" and i: "i < ski_threads_no s1" and cp: "cpus_ready s1"
    and w: "tc_rs_waiting (tc_of s1 i)" "tc_exists (tc_of s1 i) \<noteq> 0" and ev: "event_of_others s1 i ev"
  shows "\<exists>s'. wait_exec s ev = Inr s' \<and> wait_inv s1 i (evs @ [ev]) s'"
proof -
  have d: "threads_wf s" "rs_ready s" "ski_threads_current s \<noteq> None" "cpus s = cpus s1" "ski_threads_no s = ski_threads_no s1"
    "tc_of s i = (if hit (tc_wait_rs (tc_of s1 i)) evs then wake_tc (tc_of s1 i) else tc_of s1 i)"
    using inv by (simp_all add: wait_inv_def)
  show ?thesis
  proof (cases ev)
    case (Store a)
    from all_wake_rs_spec[OF d(1-3), of a] obtain s' b where s': "ski_threads_all_wake_rs s a = Inr (s', b)" by blast
    note k = all_wake_wf[OF d(1-3) s']
    have "hit (tc_wait_rs (tc_of s1 i)) (evs @ [ev]) \<longleftrightarrow>
        hit (tc_wait_rs (tc_of s1 i)) evs \<or> ski_liveness_is_present (tc_wait_rs (tc_of s1 i)) a"
      by (auto simp: hit_def Store)
    then have "tc_of s' i = (if hit (tc_wait_rs (tc_of s1 i)) (evs @ [ev]) then wake_tc (tc_of s1 i) else tc_of s1 i)"
      using k i w d(5,6) by (auto simp: woken_def)
    then show ?thesis using s' k d Store by (simp add: wait_inv_def)
  next
    case (Wait k c p)
    let ?s = "s\<lparr>ski_threads_current := Some k\<rparr>"
    have "threads_wf ?s" "rs_ready ?s" using d(1,2) by (simp_all add: rs_ready_def tc_of_def)
    moreover have "rs_wf (sc_cpu_rs (sc_of ?s c))" using cp ev Wait d(4) by (simp add: cpus_ready_def sc_of_def cpu_of_def)
    ultimately obtain s' m where s': "ski_threads_self_wait_rs ?s c p = Inr s'" "threads_wf s'" "rs_ready s'"
      "cpus s' = cpus s" "ski_threads_no s' = ski_threads_no s" "ski_threads_current s' = Some k"
      "\<forall>j. tc_of s' j = (if j = k then wait_tc p m (tc_of ?s k) else tc_of ?s j)"
      using self_wait_spec[of ?s k c p] ev Wait d(5) by auto
    have "hit (tc_wait_rs (tc_of s1 i)) (evs @ [ev]) = hit (tc_wait_rs (tc_of s1 i)) evs" by (auto simp: hit_def Wait)
    then show ?thesis using s' d ev Wait by (simp add: wait_inv_def tc_of_def)
  qed
qed

lemma wait_run:
  assumes "i < ski_threads_no s1" "cpus_ready s1" "tc_rs_waiting (tc_of s1 i)" "tc_exists (tc_of s1 i) \<noteq> 0"
  shows "wait_inv s1 i evs s \<Longrightarrow> list_all (event_of_others s1 i) evs' \<Longrightarrow>
    \<exists>s'. fold_res wait_exec s evs' = Inr s' \<and> wait_inv s1 i (evs @ evs') s'"
proof (induction evs' arbitrary: evs s)
  case (Cons ev evs')
  obtain s' where s': "wait_exec s ev = Inr s'" "wait_inv s1 i (evs @ [ev]) s'"
    using wait_step[OF Cons.prems(1) assms] Cons.prems(2) by auto
  then show ?case using Cons.IH[OF s'(2)] Cons.prems(2) by simp
qed simp

text \<open>Apart from its wait flags, a thread that was woken is as eligible as before.\<close>

lemma eligible_cong:
  assumes "cpus s' = cpus s" "tc_cpu_no (tc_of s' i) = tc_cpu_no (tc_of s i)" "tc_is_int (tc_of s' i) = tc_is_int (tc_of s i)"
    "tc_int_no (tc_of s' i) = tc_int_no (tc_of s i)" "tc_reentry_no (tc_of s' i) = tc_reentry_no (tc_of s i)"
    "tc_exists (tc_of s' i) = tc_exists (tc_of s i)" "\<not> tc_rs_waiting (tc_of s' i)" "\<not> tc_rs_waiting (tc_of s i)"
  shows "eligible s' i = eligible s i"
proof -
  have "home s' i = home s i" using find_cpu_cong[of s' s] assms(1,2) by (simp add: home_def)
  moreover have "sc_of s' = sc_of s" "cpu_of s' = cpu_of s" using assms(1) by (simp_all add: sc_of_def cpu_of_def fun_eq_iff)
  moreover have "ski_interrupts_is_top_hw_stack sc (tc_of s' i) = ski_interrupts_is_top_hw_stack sc (tc_of s i)" for sc
    using assms(4,5) by (simp add: ski_interrupts_is_top_hw_stack_def)
  ultimately show ?thesis using assms(3,6-8) by (simp add: eligible_def tc_rs_waiting_def Let_def)
qed

section \<open>Priority inversion\<close>

definition counted :: "ski_state \<Rightarrow> nat \<Rightarrow> bool" where
  "counted s i \<longleftrightarrow> (let tc = tc_of s i in
     tc_exists tc \<noteq> 0 \<and> (tc_int_no tc < 0 \<or> tc_state tc \<noteq> SKI_TC_STATE_NEEDS_TRIGGER) \<and>
     tc_wait_for_rs tc = 0 \<and> tc_wait_for_rs_on_pause tc = 0 \<and>
     sc_wait_for_interrupt (sc_of s (home s i)) = 0)"

lemma invert_considers_eq:
  "threads_wf s \<Longrightarrow> i < ski_threads_no s \<Longrightarrow> invert_considers s (tc_of s i) = Inr (counted s i)"
  by (auto simp: invert_considers_def counted_def Let_def on_cpu_home)

definition lowest_of :: "ski_state \<Rightarrow> int" where
  "lowest_of s = foldl (\<lambda>m i. if counted s i then max m (tc_priority (tc_of s i)) else m) 0
    [0..<ski_threads_no s]"

lemma foldl_max_ge:
  "(z :: int) \<le> foldl (\<lambda>m i. if P i then max m (f i) else m) z xs \<and>
   (\<forall>i\<in>set xs. P i \<longrightarrow> f i \<le> foldl (\<lambda>m i. if P i then max m (f i) else m) z xs)"
proof (induction xs arbitrary: z)
  case (Cons x xs)
  from Cons.IH[of "if P x then max z (f x) else z"] show ?case by (auto split: if_splits)
qed simp

lemma invert_priority_eq:
  assumes "threads_wf s" "ski_threads_current s = Some cur"
  shows "ski_threads_invert_priority s =
    Inr ((upd_tc cur (\<lambda>tc. tc\<lparr>tc_priority := lowest_of s + 1\<rparr>) s)\<lparr>ski_threads_need_reevaluate := 1\<rparr>)"
proof -
  have "fold_res (\<lambda>lowest_priority i. bind_res (invert_considers s (tc_of s i)) (\<lambda>b.
          Inr (if b then max lowest_priority (tc_priority (tc_of s i)) else lowest_priority)))
      0 [0..<ski_threads_no s] = Inr (lowest_of s)"
    unfolding lowest_of_def
    by (rule fold_res_pure) (simp add: invert_considers_eq[OF assms(1)])
  then show ?thesis
    by (simp add: ski_threads_invert_priority_def assert_current_def assms(2))
qed

lemma lowest_of_ge:
  "i < ski_threads_no s \<Longrightarrow> counted s i \<Longrightarrow> tc_priority (tc_of s i) \<le> lowest_of s" "0 \<le> lowest_of s"
  using foldl_max_ge[of 0 "counted s" "\<lambda>i. tc_priority (tc_of s i)" "[0..<ski_threads_no s]"]
  by (simp_all add: lowest_of_def)

section \<open>The list of preemption points\<close>

lemma lowest_scan_append:
  "lowest_scan m r ps (xs @ ys) = lowest_scan m (lowest_scan m r ps xs) ps ys"
  by (induction xs arbitrary: r) simp_all

lemma lowest_scan_spec:
  "case lowest_scan m None ps [0..<n] of
     None \<Rightarrow> \<forall>i<n. ps ! i < m
   | Some k \<Rightarrow> k < n \<and> ps ! k \<ge> m \<and> (\<forall>i<n. ps ! i \<ge> m \<longrightarrow> ps ! k \<le> ps ! i \<and> (i < k \<longrightarrow> ps ! i \<noteq> ps ! k))"
proof (induction n)
  case (Suc n)
  show ?case
  proof (cases "lowest_scan m None ps [0..<n]")
    case None
    with Suc have "\<forall>i<n. ps ! i < m" by simp
    with None show ?thesis
      by (auto simp: lowest_scan_append less_Suc_eq not_less split: option.splits if_splits)
  next
    case (Some k)
    with Suc have k: "k < n" "ps ! k \<ge> m"
      "\<forall>i<n. ps ! i \<ge> m \<longrightarrow> ps ! k \<le> ps ! i \<and> (i < k \<longrightarrow> ps ! i \<noteq> ps ! k)" by auto
    show ?thesis
    proof (cases "ps ! k > ps ! n \<and> ps ! n \<ge> m")
      case True
      then have "lowest_scan m None ps [0..<Suc n] = Some n" using Some by (simp add: lowest_scan_append)
      moreover have "ps ! n < ps ! i" if "i < n" "ps ! i \<ge> m" for i
        using k(3) that True by force
      ultimately show ?thesis using True by (force simp: less_Suc_eq)
    next
      case False
      then have "lowest_scan m None ps [0..<Suc n] = Some k" using Some by (auto simp: lowest_scan_append)
      with k False show ?thesis by (auto simp: less_Suc_eq)
    qed
  qed
qed simp

lemma get_and_clear_cases:
  fixes m :: int and ps :: "int list"
  obtains (none) "\<forall>p\<in>set ps. p < m" "ski_preemption_get_and_clear_lowest ps m = (-1, ps)"
  | (some) i where "i < length ps" "ps ! i \<ge> m" "\<forall>p\<in>set ps. p \<ge> m \<longrightarrow> ps ! i \<le> p"
      "\<forall>j<i. ps ! j \<noteq> ps ! i" "ski_preemption_get_and_clear_lowest ps m = (ps ! i, ps[i := -1])"
proof (cases "lowest_scan m None ps [0..<length ps]")
  case None
  with lowest_scan_spec[where m = m and ps = ps and n = "length ps"] show thesis
    by (intro none) (auto simp: in_set_conv_nth ski_preemption_get_and_clear_lowest_def)
next
  case (Some i)
  with lowest_scan_spec[where m = m and ps = ps and n = "length ps"] have i: "i < length ps" "ps ! i \<ge> m"
    "\<forall>j<length ps. ps ! j \<ge> m \<longrightarrow> ps ! i \<le> ps ! j \<and> (j < i \<longrightarrow> ps ! j \<noteq> ps ! i)" by auto
  show thesis
  proof (rule some[of i])
    show "\<forall>p\<in>set ps. p \<ge> m \<longrightarrow> ps ! i \<le> p" using i(3) by (auto simp: in_set_conv_nth)
    show "\<forall>j<i. ps ! j \<noteq> ps ! i" using i by (metis order_less_trans)
    show "ski_preemption_get_and_clear_lowest ps m = (ps ! i, ps[i := -1])"
      using Some by (simp add: ski_preemption_get_and_clear_lowest_def)
  qed (use i in auto)
qed

section \<open>Properties\<close>

text \<open>
  C30: waking up.  A store to address \<open>a\<close> wakes exactly the existing threads that wait on a
  read set containing \<open>a\<close>: their wait flags are cleared and their read set is emptied; every
  other thread, the CPUs and the current thread are unchanged.  The result says whether some
  thread woke up, and then the scheduler is asked to reevaluate.
\<close>

theorem wake_exactly_waiters:
  assumes "threads_wf s" "rs_ready s" "ski_threads_current s \<noteq> None"
  shows "\<exists>s'. ski_threads_all_wake_rs s a = Inr (s', \<exists>i < ski_threads_no s. woken s a i) \<and>
    cpus s' = cpus s \<and> ski_threads_current s' = ski_threads_current s \<and>
    (\<forall>i < ski_threads_no s. if woken s a i
       then tc_of s' i = (tc_of s i)\<lparr>tc_wait_for_rs_on_pause := 0, tc_wait_for_rs := 0,
              tc_wait_rs := tc_wait_rs (tc_of s' i)\<rparr> \<and>
            (\<forall>b. \<not> ski_liveness_is_present (tc_wait_rs (tc_of s' i)) b)
       else tc_of s' i = tc_of s i) \<and>
    ((\<exists>i < ski_threads_no s. woken s a i) \<longrightarrow> ski_threads_need_reevaluate s' = 1)"
proof -
  have clear: "\<not> ski_liveness_is_present (tc_wait_rs (wake_tc tc)) b" for tc b
    by (simp add: wake_tc_def ski_liveness_is_present_def zero_ma_def)
  have upd: "wake_tc tc = tc\<lparr>tc_wait_for_rs_on_pause := 0, tc_wait_for_rs := 0, tc_wait_rs := tc_wait_rs (wake_tc tc)\<rparr>" for tc
    by (simp add: wake_tc_def)
  from all_wake_rs_spec[OF assms, of a] obtain s' where
    s': "ski_threads_all_wake_rs s a = Inr (s', \<exists>i < ski_threads_no s. woken s a i)"
      "cpus s' = cpus s" "ski_threads_current s' = ski_threads_current s"
      "\<forall>i < ski_threads_no s. tc_of s' i = (if woken s a i then wake_tc (tc_of s i) else tc_of s i)"
      "(\<exists>i < ski_threads_no s. woken s a i) \<longrightarrow> ski_threads_need_reevaluate s' = 1" by blast
  have "if woken s a i
       then tc_of s' i = (tc_of s i)\<lparr>tc_wait_for_rs_on_pause := 0, tc_wait_for_rs := 0,
              tc_wait_rs := tc_wait_rs (tc_of s' i)\<rparr> \<and>
            (\<forall>b. \<not> ski_liveness_is_present (tc_wait_rs (tc_of s' i)) b)
       else tc_of s' i = tc_of s i" if "i < ski_threads_no s" for i
    using s'(4) that clear upd by (cases "woken s a i") auto
  with s' show ?thesis by blast
qed

definition sample_waiting :: ski_state where
  "sample_waiting = (upd_tc 1 (\<lambda>tc. tc\<lparr>tc_wait_for_rs := 1, tc_wait_rs :=
     zero_ma\<lparr>ma_is_initialized := 1, ma_max_entries := 20, ma_n_entries := 1, ma_list := [0],
       ma_hash := [4096 \<mapsto> 0], ma_entries := (replicate 20 zero_mae)[0 := zero_mae\<lparr>mae_mem_address := 4096\<rparr>]\<rparr>\<rparr>)
     sample_state)\<lparr>ski_threads_current := Some 0\<rparr>"

lemma sample_waiting_fields [simp]:
  "ski_threads_no sample_waiting = 3" "ski_threads_current sample_waiting = Some 0"
  "length (ski_threads sample_waiting) = 512" "cpus sample_waiting = [blank_cpu 0, blank_cpu 1]"
  by (simp_all add: sample_waiting_def)

lemma tc_of_current_update [simp]: "tc_of (s\<lparr>ski_threads_current := x\<rparr>) i = tc_of s i"
  by (simp add: tc_of_def)

lemma tc_of_sample_waiting [simp]:
  "i \<noteq> 1 \<Longrightarrow> tc_of sample_waiting i = tc_of sample_state i"
  "tc_cpu_no (tc_of sample_waiting i) = tc_cpu_no (tc_of sample_state i)"
  "tc_is_int (tc_of sample_waiting i) = tc_is_int (tc_of sample_state i)"
  "tc_int_no (tc_of sample_waiting i) = tc_int_no (tc_of sample_state i)"
  "tc_id (tc_of sample_waiting i) = tc_id (tc_of sample_state i)"
  "tc_exists (tc_of sample_waiting i) = tc_exists (tc_of sample_state i)"
  by (simp_all add: sample_waiting_def)

theorem wake_exactly_waiters_witness:
  "\<exists>s'. ski_threads_all_wake_rs sample_waiting 4096 = Inr (s', True) \<and> tc_wait_for_rs (tc_of s' 1) = 0"
proof -
  have wf: "threads_wf sample_waiting"
    using sample_state_wf by (simp add: threads_wf_def cpu_nos_def)
  have rs: "tc_rs_waiting (tc_of sample_waiting 1)" "rs_wf (tc_wait_rs (tc_of sample_waiting 1))"
    "ski_liveness_is_present (tc_wait_rs (tc_of sample_waiting 1)) 4096"
    by (auto simp: sample_waiting_def tc_rs_waiting_def rs_wf_def zero_mae_def ski_liveness_is_present_def
        nth_list_update)
  have "rs_ready sample_waiting"
    using rs(2) by (simp add: rs_ready_def all_less_3 tc_rs_waiting_def blank_tc_def)
  from wake_exactly_waiters[OF wf this, of 4096] obtain s' where
    s': "ski_threads_all_wake_rs sample_waiting 4096 = Inr (s', \<exists>i<3. woken sample_waiting 4096 i)"
    "\<forall>i<3. if woken sample_waiting 4096 i
       then tc_of s' i = (tc_of sample_waiting i)\<lparr>tc_wait_for_rs_on_pause := 0, tc_wait_for_rs := 0,
              tc_wait_rs := tc_wait_rs (tc_of s' i)\<rparr> \<and>
            (\<forall>b. \<not> ski_liveness_is_present (tc_wait_rs (tc_of s' i)) b)
       else tc_of s' i = tc_of sample_waiting i" by auto
  have w: "woken sample_waiting 4096 1"
    using rs by (simp add: woken_def blank_tc_def)
  then have "tc_of s' 1 = (tc_of sample_waiting 1)\<lparr>tc_wait_for_rs_on_pause := 0, tc_wait_for_rs := 0,
              tc_wait_rs := tc_wait_rs (tc_of s' 1)\<rparr>"
    using s'(2)[rule_format, of 1] by simp
  then have "tc_wait_for_rs (tc_of s' 1) = 0" by (metis thread_context.select_convs(14) thread_context.surjective thread_context.update_convs(12) thread_context.update_convs(14))
  moreover have "\<exists>i<3. woken sample_waiting 4096 i" using w by (intro exI[of _ 1]) simp
  ultimately show ?thesis using s'(1) by auto
qed

text \<open>
  C18: waiting on a read set.  An eligible current thread that starts to wait stays ineligible,
  keeping the read set that its CPU had collected, over any sequence of stores and of other
  threads that are scheduled and wait in turn, as long as no store is to an address of this
  set; once there was one, it is eligible again and no longer waits.
\<close>

theorem wait_until_store:
  assumes wf: "threads_wf s" and cur: "ski_threads_current s = Some i" "i < ski_threads_no s"
    and el: "eligible s i" and ready: "rs_ready s" "cpus_ready s" "c < length (cpus s)"
    and evs: "list_all (event_of_others s i) evs"
  shows "\<exists>s1 s2. ski_threads_self_wait_rs s c is_pause = Inr s1 \<and> fold_res wait_exec s1 evs = Inr s2 \<and>
    (if \<exists>a. Store a \<in> set evs \<and> ski_liveness_is_present (sc_cpu_rs (sc_of s c)) a
     then eligible s2 i \<and> \<not> tc_rs_waiting (tc_of s2 i)
     else \<not> eligible s2 i \<and> tc_rs_waiting (tc_of s2 i) \<and>
       (\<forall>a. ski_liveness_is_present (tc_wait_rs (tc_of s2 i)) a = ski_liveness_is_present (sc_cpu_rs (sc_of s c)) a))"
proof -
  have rs: "rs_wf (sc_cpu_rs (sc_of s c))" using ready(2,3) by (simp add: cpus_ready_def)
  from self_wait_spec[OF wf ready(1) cur rs, of is_pause] obtain s1 m where
    s1: "ski_threads_self_wait_rs s c is_pause = Inr s1" "threads_wf s1" "rs_ready s1" "cpus s1 = cpus s"
      "ski_threads_no s1 = ski_threads_no s" "ski_threads_current s1 = Some i" "tc_of s1 i = wait_tc is_pause m (tc_of s i)"
      "\<forall>a. ski_liveness_is_present m a = ski_liveness_is_present (sc_cpu_rs (sc_of s c)) a" by auto
  have exists: "tc_exists (tc_of s i) \<noteq> 0" and idle: "\<not> tc_rs_waiting (tc_of s i)"
    using el by (simp_all add: eligible_def tc_rs_waiting_def Let_def)
  have others: "list_all (event_of_others s1 i) evs"
    using evs s1(4,5) by (auto simp: list_all_iff elim!: event_of_others.elims)
  have "cpus_ready s1" using ready(2) s1(4) by (simp add: cpus_ready_def sc_of_def cpu_of_def)
  moreover have "wait_inv s1 i [] s1" using s1 by (simp add: wait_inv_def hit_def)
  ultimately obtain s2 where s2: "fold_res wait_exec s1 evs = Inr s2" "wait_inv s1 i evs s2"
    using wait_run[of i s1 "[]" s1 evs] others s1 cur(2) exists by auto
  have tc2: "tc_of s2 i = (if hit m evs then wake_tc (tc_of s1 i) else tc_of s1 i)" "cpus s2 = cpus s"
    using s2(2) s1(4,7) by (simp_all add: wait_inv_def)
  have hit: "hit m evs \<longleftrightarrow> (\<exists>a. Store a \<in> set evs \<and> ski_liveness_is_present (sc_cpu_rs (sc_of s c)) a)"
    using s1(8) by (simp add: hit_def)
  show ?thesis
  proof (cases "hit m evs")
    case True
    then have "eligible s2 i" using eligible_cong[of s2 s i] tc2 s1(7) el idle by simp
    then show ?thesis using True s1(1) s2(1) tc2 hit by auto
  next
    case False
    then have "tc_rs_waiting (tc_of s2 i)" using tc2 s1(7) by simp
    moreover from this have "\<not> eligible s2 i" by (auto simp: eligible_def tc_rs_waiting_def Let_def)
    ultimately show ?thesis using False s1(1,7,8) s2(1) tc2 hit by auto
  qed
qed

definition reading_state :: ski_state where
  "reading_state = (upd_sc 0 (\<lambda>sc. sc\<lparr>sc_cpu_rs := tc_wait_rs (tc_of sample_waiting 1)\<rparr>) sample_state)
     \<lparr>ski_threads_current := Some 0\<rparr>"

lemma reading_state_fields [simp]:
  "ski_threads_no reading_state = 3" "ski_threads_current reading_state = Some 0"
  "tc_of reading_state i = tc_of sample_state i"
  "cpus reading_state = [(blank_cpu 0)\<lparr>ski_cpu := blank_sc\<lparr>sc_cpu_rs := tc_wait_rs (tc_of sample_waiting 1)\<rparr>\<rparr>, blank_cpu 1]"
  by (simp_all add: reading_state_def tc_of_def upd_sc_def upd_cpu_def blank_cpu_def)

lemma sc_of_reading_state [simp]:
  "sc_of reading_state 0 = blank_sc\<lparr>sc_cpu_rs := tc_wait_rs (tc_of sample_waiting 1)\<rparr>" "sc_of reading_state (Suc 0) = blank_sc"
  by (simp_all add: sc_of_def blank_cpu_def)

theorem wait_until_store_witness:
  "\<exists>s1 s2 s3. ski_threads_self_wait_rs reading_state 0 True = Inr s1 \<and>
     fold_res wait_exec s1 [Store 8192, Wait 1 1 False] = Inr s2 \<and> \<not> eligible s2 0 \<and>
     fold_res wait_exec s1 [Store 8192, Wait 1 1 False, Store 4096] = Inr s3 \<and> eligible s3 0"
proof -
  have wf: "threads_wf reading_state"
    using sample_state_wf by (simp add: reading_state_def)
  have rs: "rs_wf (tc_wait_rs (tc_of sample_waiting 1))" "ski_liveness_is_present (tc_wait_rs (tc_of sample_waiting 1)) 4096"
    "\<not> ski_liveness_is_present (tc_wait_rs (tc_of sample_waiting 1)) 8192"
    by (auto simp: sample_waiting_def rs_wf_def zero_mae_def ski_liveness_is_present_def nth_list_update)
  have el: "eligible reading_state 0"
    by (simp add: eligible_def Let_def blank_tc_def home_def find_cpu_def blank_cpu_def blank_sc_def
        ski_interrupts_in_hw_int_def hw_entry_def list_ex_iff)
  have ready: "rs_ready reading_state"
    by (simp add: rs_ready_def all_less_3 tc_rs_waiting_def blank_tc_def)
  have "rs_wf (sc_cpu_rs (sc_of reading_state 1))"
    by (simp add: blank_sc_def)
  then have cp: "cpus_ready reading_state" using rs(1) by (simp add: cpus_ready_def less_Suc_eq)
  note w = wait_until_store[OF wf _ _ el ready cp, of 0 _ True]
  show ?thesis
    using w[of "[Store 8192, Wait 1 1 False]"] w[of "[Store 8192, Wait 1 1 False, Store 4096]"] rs(2,3) by (auto split: if_splits)
qed

text \<open>
  C29: a preemption point yields.  The inversion changes only the current thread, and gives it a
  priority value above those of all threads that exist, have been triggered, do not wait for a
  store and whose CPU is not halted.  So if another CPU thread is eligible and has no larger
  starvation adjustment, the next choice is not the preempted thread: it is another thread,
  eligible before the inversion and at least as urgent as the given one, unless this one is
  itself beyond the limit up to which threads are chosen.
\<close>

theorem inversion_yields:
  assumes wf: "threads_wf s" and cur: "ski_threads_current s = Some i" "i < ski_threads_no s"
    and j: "j < ski_threads_no s" "j \<noteq> i" "tc_is_int (tc_of s j) = 0" "eligible s j"
    and adj: "tc_priority_adjust (tc_of s j) \<le> tc_priority_adjust (tc_of s i)"
  shows "\<exists>s'. ski_threads_invert_priority s = Inr s' \<and> (\<forall>k. k \<noteq> i \<longrightarrow> tc_of s' k = tc_of s k) \<and>
    (\<forall>k < ski_threads_no s. k \<noteq> i \<and> counted s k \<longrightarrow> tc_priority (tc_of s' k) < tc_priority (tc_of s' i)) \<and>
    ski_threads_find_next_runnable s' \<noteq> Inr i \<and>
    (eff_priority s j \<le> SKI_LIVENESS_PRIORITY_NOPAUSE_LOOP \<longrightarrow>
      (\<exists>k. ski_threads_find_next_runnable s' = Inr k \<and> k < ski_threads_no s \<and> k \<noteq> i \<and> eligible s k \<and>
        eff_priority s k \<le> eff_priority s j))"
proof -
  define s' where "s' = (upd_tc i (\<lambda>tc. tc\<lparr>tc_priority := lowest_of s + 1\<rparr>) s)\<lparr>ski_threads_need_reevaluate := 1\<rparr>"
  have len: "i < length (ski_threads s)" by (rule threads_wfD(6)[OF wf cur(2)])
  have tc: "tc_of s' k = (if k = i then (tc_of s i)\<lparr>tc_priority := lowest_of s + 1\<rparr> else tc_of s k)" for k
    using len by (simp add: s'_def)
  have s': "ski_threads_invert_priority s = Inr s'" unfolding s'_def by (rule invert_priority_eq[OF wf cur(1)])
  have no: "ski_threads_no s' = ski_threads_no s" and cp: "cpus s' = cpus s" by (simp_all add: s'_def)
  have wf': "threads_wf s'"
    using threads_wf_upd_tc[OF wf cur(2), of "\<lambda>tc. tc\<lparr>tc_priority := lowest_of s + 1\<rparr>"] by (simp add: s'_def)
  have home: "home s' k = home s k" for k using tc cp find_cpu_cong[of s' s] by (simp add: home_def)
  have sc: "sc_of s' = sc_of s" "cpu_of s' = cpu_of s" using cp by (simp_all add: sc_of_def cpu_of_def fun_eq_iff)
  have el: "eligible s' k = eligible s k" and ef: "eff_priority s' k = eff_priority s k" if "k \<noteq> i" for k
    using that tc home sc by (simp_all add: eligible_def Let_def eff_priority_def halted_on_def)
  have above: "tc_priority (tc_of s' k) < tc_priority (tc_of s' i)" if "k < ski_threads_no s" "k \<noteq> i" "counted s k" for k
    using lowest_of_ge(1)[OF that(1,3)] that(2) tc by simp
  have "counted s j" using j(3,4) threads_wfD(4)[OF wf j(1)] by (auto simp: eligible_def counted_def Let_def split: if_splits)
  then have "tc_priority (tc_of s' j) < tc_priority (tc_of s' i)" by (rule above[OF j(1,2)])
  moreover have "eff_priority s' j = tc_priority (tc_of s' j) + tc_priority_adjust (tc_of s j)"
    using j(2,3,4) tc home sc by (simp add: eff_priority_def halted_on_def eligible_def Let_def)
  moreover have "eff_priority s' i \<ge> tc_priority (tc_of s' i) + tc_priority_adjust (tc_of s i)"
    using tc[of i] by (simp add: eff_priority_def)
  ultimately have lt: "eff_priority s' j < eff_priority s' i" using adj by linarith
  note least = next_runnable_least[OF wf']
  have ni: "ski_threads_find_next_runnable s' \<noteq> Inr i"
    using least[of i] lt j(1) el[OF j(2)] j(4) no by fastforce
  have "\<exists>k. ski_threads_find_next_runnable s' = Inr k \<and> k < ski_threads_no s \<and> k \<noteq> i \<and> eligible s k \<and>
      eff_priority s k \<le> eff_priority s j" if le: "eff_priority s j \<le> SKI_LIVENESS_PRIORITY_NOPAUSE_LOOP"
  proof -
    obtain k where k: "ski_threads_find_next_runnable s' = Inr k" "eff_priority s' k \<le> eff_priority s' j"
      using next_runnable_exists[OF wf', of j] j(1,4) el[OF j(2)] ef[OF j(2)] le no by auto
    have "k \<noteq> i" using k(1) ni by auto
    then show ?thesis using k least[OF k(1)] el ef j(2) no by auto
  qed
  then show ?thesis using s' tc above ni by auto
qed

lemma sample_eligible:
  "eligible (sample_state\<lparr>ski_threads_current := x\<rparr>) 0" "eligible (sample_state\<lparr>ski_threads_current := x\<rparr>) 1"
  by (simp_all add: eligible_def Let_def blank_tc_def home_def find_cpu_def
      blank_cpu_def sc_of_def blank_sc_def ski_interrupts_in_hw_int_def hw_entry_def list_ex_iff)

theorem inversion_yields_witness:
  "\<exists>s' k. ski_threads_invert_priority (sample_state\<lparr>ski_threads_current := Some 0\<rparr>) = Inr s' \<and>
     ski_threads_find_next_runnable s' = Inr k \<and> k \<noteq> 0 \<and> eligible sample_state k"
proof -
  let ?s = "sample_state\<lparr>ski_threads_current := Some 0\<rparr>"
  have wf: "threads_wf ?s" using sample_state_wf by simp
  have ef: "eff_priority ?s 1 \<le> SKI_LIVENESS_PRIORITY_NOPAUSE_LOOP"
    by (simp add: eff_priority_def halted_on_def home_def find_cpu_def blank_tc_def blank_cpu_def sc_of_def blank_sc_def)
  have el: "eligible ?s k = eligible sample_state k" for k
    by (simp add: eligible_def home_def find_cpu_def sc_of_def cpu_of_def)
  show ?thesis
    using inversion_yields[OF wf, of 0 1] sample_eligible(2)[of "Some 0", unfolded el] ef el by (auto simp: blank_tc_def)
qed

text \<open>
  C34: the next preemption point is the least entry of the list that is not below the bound;
  its first occurrence is cleared to -1 and all other entries stay.  If there is none the
  result is -1 and the list is unchanged.
\<close>

theorem preemption_lowest:
  "case ski_preemption_get_and_clear_lowest ps m of (v, ps') \<Rightarrow>
     if \<exists>p\<in>set ps. p \<ge> m
     then v = Min {p \<in> set ps. p \<ge> m} \<and>
       (\<exists>i<length ps. ps ! i = v \<and> v \<notin> set (take i ps) \<and> ps' = ps[i := -1])
     else v = -1 \<and> ps' = ps"
proof (cases rule: get_and_clear_cases[of ps m])
  case none
  then show ?thesis by (auto simp: not_le)
next
  case (some i)
  have "Min {p \<in> set ps. p \<ge> m} = ps ! i"
    using some by (intro Min_eqI) auto
  moreover have "ps ! i \<notin> set (take i ps)" using some(1,4) by (auto simp: in_set_conv_nth)
  moreover have "\<exists>p\<in>set ps. p \<ge> m" using some(1,2) nth_mem by blast
  ultimately show ?thesis using some(1,5) by auto
qed

text \<open>
  C1: serial execution.  While a test runs, of any two CPUs at most one is allowed to
  execute, and the one allowed executes the thread the scheduler has chosen.
\<close>

theorem one_cpu_runs:
  assumes dist: "distinct (map cpu_index (cpus s))" and c: "c < length (cpus s)" and d: "d < length (cpus s)" "d \<noteq> c"
    and act: "ski_active (cpu_of s c)" "ski_active (cpu_of s d)"
    and st: "sc_state (sc_of s c) \<in> {SKI_CPU_RUNNING_TEST, SKI_CPU_BLOCKED_ON_EXIT}"
      "sc_state (sc_of s d) \<in> {SKI_CPU_RUNNING_TEST, SKI_CPU_BLOCKED_ON_EXIT}"
    and run: "ski_cpu_can_run s c = Inr (s1, True)"
  shows "(\<exists>s2. ski_cpu_can_run s d = Inr (s2, False)) \<and>
    (\<exists>i. ski_threads_find_next_runnable s = Inr i \<and> ski_threads_current s1 = Some i \<and>
       tc_cpu_no (tc_of s i) = cpu_index (cpu_of s c))"
proof -
  from run act(1) st(1) obtain i where i: "ski_threads_find_next_runnable s = Inr i"
    "tc_cpu_no (tc_of s i) = cpu_index (cpu_of s c)" "ski_threads_current s1 = Some i"
    by (auto simp: ski_cpu_can_run_def Let_def bind_res_eq_Inr split: if_splits)
  have "cpu_index (cpu_of s d) \<noteq> cpu_index (cpu_of s c)"
    using cpu_index_inj[OF dist d(1) c] d(2) by blast
  then have "ski_cpu_can_run s d = Inr (s\<lparr>ski_threads_need_reevaluate := 0\<rparr>, False)"
    using i act(2) st(2) by (auto simp: ski_cpu_can_run_def Let_def)
  with i show ?thesis by blast
qed

theorem one_cpu_runs_witness:
  "\<exists>s1 s2. ski_cpu_can_run sample_state 0 = Inr (s1, True) \<and> ski_cpu_can_run sample_state 1 = Inr (s2, False)"
proof -
  have nxt: "ski_threads_find_next_runnable sample_state = Inr 0"
  proof -
    have "eligible sample_state 0"
      using sample_eligible(1)[of None] by (simp add: sample_state_def blank_state_def)
    have "eff_priority sample_state 0 = 0" "\<not> eligible sample_state 2" "eff_priority sample_state 1 = 1"
      by (simp_all add: eff_priority_def halted_on_def eligible_def Let_def blank_tc_def home_def find_cpu_def
        blank_cpu_def sc_of_def blank_sc_def)
    with \<open>eligible sample_state 0\<close> show ?thesis
      by (simp add: find_next_runnable_pick[OF sample_state_wf] upt_0_3 pick_min_def)
  qed
  have "\<exists>s1. ski_cpu_can_run sample_state 0 = Inr (s1, True)"
    using nxt by (simp add: ski_cpu_can_run_def cpu_of_def sc_of_def blank_cpu_def blank_sc_def
        blank_tc_def ski_liveness_reset_def)
  then obtain s1 where s1: "ski_cpu_can_run sample_state 0 = Inr (s1, True)" by blast
  have "\<exists>s2. ski_cpu_can_run sample_state 1 = Inr (s2, False)"
    using one_cpu_runs[of sample_state 0 1, OF _ _ _ _ _ _ _ _ s1]
    by (simp add: cpu_of_def sc_of_def blank_cpu_def blank_sc_def)
  with s1 show ?thesis by blast
qed

text \<open>
  C39: starvation adjustment.  Every adjustment lies in the range 0 to 499 and stays there:
  when the current thread is due for an increase that would reach the limit of 500, the run
  is stopped with exit code 5 instead.
\<close>

theorem starvation_limit:
  assumes "adjust_ok s" and "ski_threads_current s = Some i" and "i < length (ski_threads s)"
  shows "case ski_threads_adjust_priority_current s of
     Inr (s', adjusted) \<Rightarrow> adjust_ok s' \<and>
       (adjusted \<longleftrightarrow> ski_sched_instructions_current s \<ge> 0 \<and>
          ski_sched_instructions_current s mod SKI_SCHED_ADJUST_MODULO = 0) \<and>
       tc_priority_adjust (tc_of s' i) = tc_priority_adjust (tc_of s i) + (if adjusted then 20 else 0)
   | Inl e \<Rightarrow> e = Ski_exit SKI_EXIT_MAX_PRIORITY_ADJ \<and> tc_priority_adjust (tc_of s i) \<ge> 480"
  using assms
  by (auto simp: ski_threads_adjust_priority_current_def assert_current_def adjust_ok_def Let_def
      SKI_ASSERT_MSG_def split: sum.splits)

theorem starvation_limit_witness:
  "adjust_ok (sample_state\<lparr>ski_threads_current := Some 0\<rparr>) \<and>
   (\<exists>s'. ski_threads_adjust_priority_current (sample_state\<lparr>ski_threads_current := Some 0\<rparr>) = Inr (s', True) \<and>
      tc_priority_adjust (tc_of s' 0) = 20)"
proof -
  let ?s = "sample_state\<lparr>ski_threads_current := Some 0\<rparr>"
  have "tc_of ?s k = (if k < 3 then sample_tc k else blank_tc)" if "k < 512" for k
    using that by (auto simp: sample_state_def tc_of_def nth_append nth_Cons less_Suc_eq numeral_3_eq_3
        numeral_2_eq_2 split: nat.splits)
  moreover have "\<forall>k<3. tc_priority_adjust (sample_tc k) = 0" by (simp add: all_less_3 blank_tc_def)
  ultimately have ok: "adjust_ok ?s" by (auto simp: adjust_ok_def blank_tc_def)
  have "ski_sched_instructions_current ?s = 0" by (simp add: sample_state_def blank_state_def)
  with starvation_limit[OF ok, of 0] ok show ?thesis
    by (auto simp: ski_threads_adjust_priority_current_def assert_current_def SKI_ASSERT_MSG_def blank_tc_def
        split: sum.splits)
qed

end
