(* ===== verification/Ski_Priorities.thy ===== *)
theory Ski_Priorities
  imports Ski_Threads
begin

text \<open>
  The file of initial priorities (\<open>vmm/ski-priorities.c\<close>): the pseudo-random generator, the
  parser of one line, the shuffle of the entries of a line and the construction of the
  thread table from the file.  The theory shows that a printed configuration is read back,
  that the shuffle only permutes the entries of its own line, and which table results.  The
  text of the file is an argument; the C library functions that the parser calls
  (\<open>regexec\<close> on the fixed pattern, \<open>sscanf\<close> with \<open>%d\<close>, \<open>strchr\<close>, \<open>fgets\<close>) are
  written out.
\<close>

section \<open>The generator\<close>

definition ski_config_priorities_random :: "64 word \<Rightarrow> int \<times> 64 word" where
  "ski_config_priorities_random random_next =
    (let r = random_next * 1103515245 + 12345
     in (uint (ucast (r div 65536) :: 32 word) mod 32768, r))"

definition ski_config_priorities_random_init :: "32 word \<Rightarrow> 64 word" where
  "ski_config_priorities_random_init seed = ucast seed"

section \<open>Reading a number\<close>

definition is_space :: "char \<Rightarrow> bool" where
  "is_space c \<longleftrightarrow> of_char c = (32::nat) \<or> 9 \<le> (of_char c :: nat) \<and> (of_char c :: nat) \<le> 13"

definition is_digit :: "char \<Rightarrow> bool" where
  "is_digit c \<longleftrightarrow> 48 \<le> (of_char c :: nat) \<and> (of_char c :: nat) \<le> 57"

definition digits_val :: "string \<Rightarrow> int" where
  "digits_val ds = foldl (\<lambda>a c. 10 * a + (of_char c - 48)) 0 ds"

text \<open>The value of \<open>strtol\<close>, saturated at the width of \<open>long\<close>, stored into an \<open>int\<close>.\<close>

definition long_to_int :: "int \<Rightarrow> int" where
  "long_to_int v = int32 (max (- (2 ^ 63)) (min (2 ^ 63 - 1) v))"

definition scan_sign :: "string \<Rightarrow> bool \<times> string" where
  "scan_sign t = (case t of [] \<Rightarrow> (False, t)
     | c # r \<Rightarrow> if c = CHR ''-'' then (True, r) else if c = CHR ''+'' then (False, r) else (False, t))"

definition scan_int :: "string \<Rightarrow> int option" where
  "scan_int s =
    (case scan_sign (dropWhile is_space s) of (neg, u) \<Rightarrow>
       let ds = takeWhile is_digit u
       in if ds = [] then None
          else Some (long_to_int (if neg then - digits_val ds else digits_val ds)))"

section \<open>Parsing a line\<close>

abbreviation (input) SKI_MAX_CONFIG_PRIORITIES_PER_LINE :: nat where
  "SKI_MAX_CONFIG_PRIORITIES_PER_LINE \<equiv> 16384"
abbreviation (input) SKI_MAX_CONFIG_PRIORITIES_LENGHT :: nat where
  "SKI_MAX_CONFIG_PRIORITIES_LENGHT \<equiv> 1024"
abbreviation (input) SKI_MAX_CONFIG_PRIORITIES_FIELD_ENTRIES :: nat where
  "SKI_MAX_CONFIG_PRIORITIES_FIELD_ENTRIES \<equiv> 50"

text \<open>An entry of \<open>plist\<close>: CPU, interrupt (-1 for the CPU itself) and count.\<close>

type_synonym ski_config_priorities_entry = "int \<times> int \<times> int"

definition strchr_tail :: "char \<Rightarrow> string \<Rightarrow> string option" where
  "strchr_tail c s = (case dropWhile (\<lambda>x. x \<noteq> c) s of [] \<Rightarrow> None | _ # t \<Rightarrow> Some t)"

definition strip_prefix :: "string \<Rightarrow> string \<Rightarrow> string option" where
  "strip_prefix p s = (if take (length p) s = p then Some (drop (length p) s) else None)"

definition not_brace :: "char \<Rightarrow> bool" where
  "not_brace c \<longleftrightarrow> c \<noteq> CHR ''}''"

text \<open>
  The pattern at a fixed position: the text from the start of each of the three groups and
  the length of the first two.
\<close>

definition match_at :: "string \<Rightarrow> (string \<times> nat \<times> string \<times> nat \<times> string) option" where
  "match_at s =
    (case strip_prefix ''cpu{'' s of None \<Rightarrow> None
     | Some a \<Rightarrow> (case strip_prefix ''};int{'' (dropWhile not_brace a) of None \<Rightarrow> None
       | Some b \<Rightarrow> (case strip_prefix ''};'' (dropWhile not_brace b) of None \<Rightarrow> None
         | Some c \<Rightarrow> Some (a, length (takeWhile not_brace a), b, length (takeWhile not_brace b), c))))"

fun regexec_group :: "string \<Rightarrow> (string \<times> nat \<times> string \<times> nat \<times> string) option" where
  "regexec_group [] = None"
| "regexec_group (x # xs) =
    (case match_at (x # xs) of Some m \<Rightarrow> Some m | None \<Rightarrow> regexec_group xs)"

lemma strchr_tail_shorter: "strchr_tail c s = Some t \<Longrightarrow> length t < length s"
proof -
  assume "strchr_tail c s = Some t"
  then obtain y where "dropWhile (\<lambda>x. x \<noteq> c) s = y # t" by (auto simp: strchr_tail_def split: list.splits)
  then have "length (y # t) \<le> length s" by (metis length_dropWhile_le)
  then show ?thesis by simp
qed

text \<open>
  The loop over a field: \<open>k\<close> characters of the field are left at \<open>s\<close> and \<open>cnt\<close> values
  have been stored.
\<close>

function scan_list :: "nat \<Rightarrow> string \<Rightarrow> nat \<Rightarrow> int list res" where
  "scan_list cnt s k =
    (if k = 0 then Inr []
     else if s = [] then Inl Assert_failed
     else if cnt \<ge> SKI_MAX_CONFIG_PRIORITIES_FIELD_ENTRIES then Inl Out_of_bounds
     else (case scan_int s of
         None \<Rightarrow> Inl Assert_failed
       | Some v \<Rightarrow>
           (case strchr_tail CHR '','' s of
              None \<Rightarrow> Inr [v]
            | Some t \<Rightarrow> bind_res (scan_list (Suc cnt) t (k - (length s - length t))) (\<lambda>vs. Inr (v # vs)))))"
  by pat_completeness auto

termination
  by (relation "measure (\<lambda>(_, s, _). length s)") (auto dest: strchr_tail_shorter)

declare scan_list.simps [simp del]

definition parse_group ::
  "ski_config_priorities_entry list \<Rightarrow> string \<Rightarrow> ski_config_priorities_entry list res" where
  "parse_group plist cur_group =
    (case regexec_group cur_group of
       None \<Rightarrow> Inl Assert_failed
     | Some (a, ka, b, kb, c) \<Rightarrow>
         bind_res (scan_list 0 a ka) (\<lambda>cpus_matches.
         bind_res (scan_list 0 b kb) (\<lambda>ints_matches.
           let n_match = (case scan_int c of Some n \<Rightarrow> n | None \<Rightarrow> last ints_matches);
               new = [(cpu, i, n_match). cpu \<leftarrow> cpus_matches, i \<leftarrow> ints_matches]
           in if length plist + length new > SKI_MAX_CONFIG_PRIORITIES_PER_LINE
              then Inl Out_of_bounds else Inr (plist @ new))))"

function parse_groups ::
  "ski_config_priorities_entry list \<Rightarrow> bool \<Rightarrow> string \<Rightarrow> (ski_config_priorities_entry list \<times> bool) res" where
  "parse_groups plist should_randomize cur_group =
    (if cur_group = [] then Inr (plist, should_randomize)
     else bind_res (parse_group plist cur_group) (\<lambda>plist.
       case strchr_tail CHR ''|'' cur_group of
         None \<Rightarrow> Inr (plist, should_randomize)
       | Some next_group \<Rightarrow> parse_groups plist True next_group))"
  by pat_completeness auto
termination
  by (relation "measure (\<lambda>(_, _, s). length s)") (auto dest: strchr_tail_shorter)

declare parse_groups.simps [simp del]

text \<open>The shuffle of the positions \<open>start\<close> to \<open>start + k - 1\<close>, from the last one down.\<close>

fun shuffle ::
  "nat \<Rightarrow> nat \<Rightarrow> 'a list \<Rightarrow> 64 word \<Rightarrow> 'a list \<times> 64 word" where
  "shuffle start 0 plist r = (plist, r)"
| "shuffle start (Suc k) plist r =
    (let (v, r) = ski_config_priorities_random r;
         i = start + k;
         j = nat (v mod int (k + 1)) + start
     in shuffle start k (plist[i := plist ! j, j := plist ! i]) r)"

definition ski_config_priorities_parseline ::
  "ski_config_priorities_entry list \<times> 64 word \<Rightarrow> string \<Rightarrow> (ski_config_priorities_entry list \<times> 64 word) res" where
  "ski_config_priorities_parseline st arg_str =
    (case st of (plist, r) \<Rightarrow>
       bind_res (parse_groups plist False (take (SKI_MAX_CONFIG_PRIORITIES_LENGHT - 1) arg_str))
         (\<lambda>(plist', should_randomize).
           Inr (if should_randomize
                then shuffle (length plist) (length plist' - length plist) plist' r
                else (plist', r))))"

section \<open>Reading the file\<close>

abbreviation (input) newline :: char where "newline \<equiv> CHR 0x0A"

text \<open>One call of \<open>fgets\<close> with room for \<open>n\<close> characters: the text read and the rest.\<close>

fun fgets_split :: "nat \<Rightarrow> string \<Rightarrow> string \<times> string" where
  "fgets_split 0 s = ([], s)"
| "fgets_split (Suc n) [] = ([], [])"
| "fgets_split (Suc n) (c # s) =
    (if c = newline then ([c], s) else case fgets_split n s of (l, r) \<Rightarrow> (c # l, r))"

lemma fgets_split_append: "fgets_split n s = (l, r) \<Longrightarrow> s = l @ r"
  by (induction n s arbitrary: l r rule: fgets_split.induct) (auto split: if_splits prod.splits)

lemma fgets_split_nonempty: "fgets_split (Suc n) (c # s) = (l, r) \<Longrightarrow> l \<noteq> []"
  by (auto split: if_splits prod.splits)

lemma fgets_split_shorter:
  assumes "(l, r) = fgets_split 510 (c # s)"
  shows "length r < Suc (length s)"
proof -
  from assms have e: "fgets_split (Suc 509) (c # s) = (l, r)" by simp
  from fgets_split_append[OF e] have "length (c # s) = length l + length r" by (metis length_append)
  with fgets_split_nonempty[OF e] show ?thesis by (cases l) auto
qed

function fgets_lines :: "string \<Rightarrow> string list" where
  "fgets_lines [] = []"
| "fgets_lines (c # s) =
    (case fgets_split 510 (c # s) of (l, r) \<Rightarrow>
       (if last l = newline then butlast l else l) # fgets_lines r)"
  by pat_completeness auto
termination
  by (relation "measure length") (auto dest: fgets_split_shorter)

definition plist_of_file :: "string \<Rightarrow> int \<Rightarrow> (ski_config_priorities_entry list \<times> 64 word) res" where
  "plist_of_file text_in seed =
    (let seed_high_granularity = (if seed < 0 then - (- seed div 10) else seed div 10)
     in fold_res ski_config_priorities_parseline
          ([], ski_config_priorities_random_init (word_of_int seed_high_granularity))
          (fgets_lines text_in))"

definition ski_config_priorities_parse_file :: "ski_state \<Rightarrow> string \<Rightarrow> int \<Rightarrow> ski_state res" where
  "ski_config_priorities_parse_file s text_in seed =
    bind_res (plist_of_file text_in seed) (\<lambda>(plist, _).
      insert_all (ski_threads_reset s) plist)"

text \<open>The start of a test: \<open>None\<close> is an empty file name option, which asserts.\<close>

definition ski_threads_initialize :: "ski_state \<Rightarrow> string option \<Rightarrow> ski_state res" where
  "ski_threads_initialize s priorities_file =
    (case priorities_file of
       Some text_in \<Rightarrow> bind_res (ski_config_priorities_parse_file s text_in (opt_seed s))
         (\<lambda>s. Inr (ski_liveness_initialize s))
     | None \<Rightarrow> Inl Assert_failed)"

section \<open>Printing a configuration\<close>

fun show_nat :: "nat \<Rightarrow> string" where
  "show_nat n = (if n < 10 then [char_of (48 + n)] else show_nat (n div 10) @ [char_of (48 + n mod 10)])"

declare show_nat.simps [simp del]

definition show_int :: "int \<Rightarrow> string" where
  "show_int i = (if i < 0 then CHR ''-'' # show_nat (nat (- i)) else show_nat (nat i))"

fun join :: "char \<Rightarrow> string list \<Rightarrow> string" where
  "join c [] = []"
| "join c [x] = x"
| "join c (x # y # ys) = x @ c # join c (y # ys)"

type_synonym group = "int list \<times> int list \<times> int"

definition print_group :: "group \<Rightarrow> string" where
  "print_group g = (case g of (cs, is, n) \<Rightarrow>
    ''cpu{'' @ join CHR '','' (map show_int cs) @ ''};int{'' @ join CHR '','' (map show_int is) @ ''};'' @ show_int n)"

text \<open>A line is its groups and whether a separator follows the last one.\<close>

definition print_line :: "group list \<times> bool \<Rightarrow> string" where
  "print_line l = (case l of (gs, trail) \<Rightarrow>
    join CHR ''|'' (map print_group gs) @ (if trail then ''|'' else []))"

definition expand :: "group \<Rightarrow> ski_config_priorities_entry list" where
  "expand g = (case g of (cs, is, n) \<Rightarrow> [(cpu, i, n). cpu \<leftarrow> cs, i \<leftarrow> is])"

definition group_ok :: "group \<Rightarrow> bool" where
  "group_ok g \<longleftrightarrow> (case g of (cs, is, n) \<Rightarrow>
    length cs \<le> SKI_MAX_CONFIG_PRIORITIES_FIELD_ENTRIES \<and> length is \<le> SKI_MAX_CONFIG_PRIORITIES_FIELD_ENTRIES \<and>
    list_all c_int cs \<and> list_all c_int is \<and> c_int n)"

section \<open>Numbers\<close>

lemma of_char_digit: "n < 10 \<Longrightarrow> (of_char (char_of (48 + n) :: char) :: nat) = 48 + n"
  by simp

lemma of_char_digit_int: "n < 10 \<Longrightarrow> (of_char (char_of (48 + n) :: char) :: int) = 48 + int n"
  using of_char_digit[of n] of_nat_of_char[where ?'a = int, of "char_of (48 + n)"] by simp

lemma show_nat_digits: "c \<in> set (show_nat n) \<Longrightarrow> is_digit c"
proof (induction n rule: show_nat.induct)
  case (1 n)
  show ?case
  proof (cases "n < 10")
    case True
    with 1 show ?thesis by (auto simp: show_nat.simps[of n] is_digit_def of_char_digit simp del: of_char_of)
  next
    case False
    with 1 have "c \<in> set (show_nat (n div 10)) \<or> c = char_of (48 + n mod 10)"
      by (auto simp: show_nat.simps[of n])
    with 1 False show ?thesis
      by (auto simp: is_digit_def of_char_digit[of "n mod 10"] simp del: of_char_of)
  qed
qed

lemma show_nat_nonempty [simp]: "show_nat n \<noteq> []"
  by (simp add: show_nat.simps)

lemma digits_val_snoc: "digits_val (ds @ [c]) = 10 * digits_val ds + (of_char c - 48)"
  by (simp add: digits_val_def)

lemma digits_val_show [simp]: "digits_val (show_nat n) = int n"
proof (induction n rule: show_nat.induct)
  case (1 n)
  show ?case
  proof (cases "n < 10")
    case True
    then show ?thesis
      by (simp add: show_nat.simps[of n] digits_val_def of_char_digit_int del: of_char_of)
  next
    case False
    with 1 show ?thesis
      by (simp add: show_nat.simps[of n] digits_val_snoc of_char_digit_int[of "n mod 10"] del: of_char_of)
        presburger
  qed
qed

lemma is_digit_facts:
  "is_digit c \<Longrightarrow> \<not> is_space c" "is_digit c \<Longrightarrow> c \<noteq> CHR ''-''" "is_digit c \<Longrightarrow> c \<noteq> CHR ''+''"
  "is_digit c \<Longrightarrow> not_brace c" "is_digit c \<Longrightarrow> c \<noteq> CHR '',''" "is_digit c \<Longrightarrow> c \<noteq> CHR ''|''"
  "is_digit c \<Longrightarrow> c \<noteq> newline" "\<not> is_digit CHR '',''" "\<not> is_digit newline" "\<not> is_digit CHR ''}''" "\<not> is_digit CHR ''|''"
  "\<not> is_space CHR ''-''" "not_brace CHR ''-''" "not_brace CHR '',''" "\<not> not_brace CHR ''}''"
  by (auto simp: is_digit_def is_space_def not_brace_def)

lemma long_to_int_id: "c_int v \<Longrightarrow> long_to_int v = v"
proof -
  assume v: "c_int v"
  then have "max (- (2 ^ 63)) (min (2 ^ 63 - 1) v) = v" by (simp add: c_int_def)
  with v show ?thesis by (simp add: long_to_int_def)
qed

definition not_digit_hd :: "string \<Rightarrow> bool" where
  "not_digit_hd s \<longleftrightarrow> (case s of [] \<Rightarrow> True | c # _ \<Rightarrow> \<not> is_digit c)"

lemma takeWhile_show_nat:
  "not_digit_hd rest \<Longrightarrow> takeWhile is_digit (show_nat n @ rest) = show_nat n"
  using show_nat_digits[of _ n]
  by (subst takeWhile_append2) (auto simp: not_digit_hd_def split: list.splits)

lemma scan_int_show:
  assumes "c_int v" "not_digit_hd rest"
  shows "scan_int (show_int v @ rest) = Some v"
proof (cases "v < 0")
  case True
  then have "scan_sign (dropWhile is_space (show_int v @ rest)) = (True, show_nat (nat (- v)) @ rest)"
    by (simp add: show_int_def scan_sign_def is_digit_facts)
  with True assms show ?thesis
    by (simp add: scan_int_def takeWhile_show_nat long_to_int_id)
next
  case False
  obtain c cs where c: "show_nat (nat v) = c # cs" by (cases "show_nat (nat v)") auto
  with show_nat_digits[of c "nat v"] have "is_digit c" by simp
  then have "scan_sign (dropWhile is_space (show_int v @ rest)) = (False, show_nat (nat v) @ rest)"
    using False c by (simp add: show_int_def scan_sign_def is_digit_facts)
  with False assms show ?thesis
    by (simp add: scan_int_def takeWhile_show_nat long_to_int_id)
qed

lemma show_int_chars:
  "c \<in> set (show_int v) \<Longrightarrow> not_brace c" "c \<in> set (show_int v) \<Longrightarrow> c \<noteq> CHR '',''"
  "c \<in> set (show_int v) \<Longrightarrow> c \<noteq> CHR ''|''" "c \<in> set (show_int v) \<Longrightarrow> c \<noteq> newline"
  using show_nat_digits[of c "nat v"] show_nat_digits[of c "nat (- v)"] is_digit_facts
  by (auto simp: show_int_def split: if_splits)

lemma show_int_nonempty [simp]: "show_int v \<noteq> []"
  by (simp add: show_int_def)

section \<open>Reading back a printed line\<close>

lemma set_join: "c \<in> set (join d xs) \<Longrightarrow> c = d \<or> (\<exists>x\<in>set xs. c \<in> set x)"
  by (induction d xs rule: join.induct) auto

lemma dropWhile_neq_append: "c \<notin> set s \<Longrightarrow> dropWhile (\<lambda>x. x \<noteq> c) (s @ t) = dropWhile (\<lambda>x. x \<noteq> c) t"
  by (induction s) auto

lemma strchr_tail_append: "c \<notin> set s \<Longrightarrow> strchr_tail c (s @ c # t) = Some t"
  by (simp add: strchr_tail_def dropWhile_neq_append)

lemma strchr_tail_none: "c \<notin> set s \<Longrightarrow> strchr_tail c s = None"
  by (metis (mono_tags, lifting) strchr_tail_def dropWhile_eq_Nil_conv list.case(1))

lemma scan_list_print:
  assumes "list_all c_int vs" "cnt + length vs \<le> 50"
  shows "scan_list cnt (join CHR '','' (map show_int vs) @ CHR ''}'' # rest)
    (length (join CHR '','' (map show_int vs))) = Inr vs"
  using assms
proof (induction vs arbitrary: cnt rule: induct_list012)
  case 1
  then show ?case by (simp add: scan_list.simps)
next
  case (2 v)
  let ?s = "show_int v @ CHR ''}'' # rest"
  have v: "scan_int ?s = Some v"
    using 2 by (intro scan_int_show) (simp_all add: not_digit_hd_def is_digit_facts)
  have "length ?s - length t \<ge> length (show_int v)" if "strchr_tail CHR '','' ?s = Some t" for t
  proof -
    have "CHR '','' \<notin> set (show_int v)" using show_int_chars(2) by blast
    then have "strchr_tail CHR '','' ?s = strchr_tail CHR '','' rest"
      by (simp add: strchr_tail_def dropWhile_neq_append)
    with that strchr_tail_shorter[of "CHR '',''" rest t] show ?thesis by simp
  qed
  then show ?case
    using v 2 by (auto simp: scan_list.simps split: option.splits)
next
  case (3 v w vs)
  let ?r = "join CHR '','' (map show_int (w # vs))"
  let ?s = "show_int v @ CHR '','' # ?r @ CHR ''}'' # rest"
  have v: "scan_int ?s = Some v"
    using 3 by (intro scan_int_show) (simp_all add: not_digit_hd_def is_digit_facts)
  have t: "strchr_tail CHR '','' ?s = Some (?r @ CHR ''}'' # rest)"
    using show_int_chars(2) by (intro strchr_tail_append) blast
  have "scan_list (Suc cnt) (?r @ CHR ''}'' # rest) (length ?r) = Inr (w # vs)"
    by (rule "3.IH"(2)) (use "3.prems" in simp_all)
  with v t "3.prems" show ?case
    by (subst scan_list.simps) simp
qed

lemma strip_prefix_append [simp]: "strip_prefix p (p @ s) = Some s"
  by (simp add: strip_prefix_def)

lemma span_brace:
  assumes "\<forall>c\<in>set a. not_brace c"
  shows "takeWhile not_brace (a @ CHR ''}'' # r) = a" "dropWhile not_brace (a @ CHR ''}'' # r) = CHR ''}'' # r"
  using assms by (simp_all add: takeWhile_append2 dropWhile_append2 is_digit_facts)

lemma join_show_brace: "\<forall>c\<in>set (join CHR '','' (map show_int vs)). not_brace c"
  using show_int_chars(1) is_digit_facts by (auto dest!: set_join)

lemma match_at_print:
  "match_at (print_group (cs, is, n) @ rest) =
    (let a = join CHR '','' (map show_int cs); b = join CHR '','' (map show_int is); c = show_int n @ rest
     in Some (a @ ''};int{'' @ b @ ''};'' @ c, length a, b @ ''};'' @ c, length b, c))"
proof -
  let ?a = "join CHR '','' (map show_int cs)" and ?b = "join CHR '','' (map show_int is)"
  let ?c = "show_int n @ rest"
  have 1: "print_group (cs, is, n) @ rest = ''cpu{'' @ ?a @ ''};int{'' @ ?b @ ''};'' @ ?c"
    by (simp add: print_group_def)
  have a: "takeWhile not_brace (?a @ ''};int{'' @ ?b @ ''};'' @ ?c) = ?a"
    "dropWhile not_brace (?a @ ''};int{'' @ ?b @ ''};'' @ ?c) = ''};int{'' @ ?b @ ''};'' @ ?c"
    using span_brace[OF join_show_brace[of cs], of "'';int{'' @ ?b @ ''};'' @ ?c"] by simp_all
  have b: "takeWhile not_brace (?b @ ''};'' @ ?c) = ?b" "dropWhile not_brace (?b @ ''};'' @ ?c) = ''};'' @ ?c"
    using span_brace[OF join_show_brace[of "is"], of "'';'' @ ?c"] by simp_all
  show ?thesis
    unfolding match_at_def 1 strip_prefix_append option.case a b Let_def by (rule refl)
qed

lemma regexec_match: "match_at s = Some m \<Longrightarrow> regexec_group s = Some m"
  by (cases s) (simp_all add: match_at_def strip_prefix_def)

lemma parse_group_print:
  assumes "group_ok g" "not_digit_hd rest" "length plist + length (expand g) \<le> SKI_MAX_CONFIG_PRIORITIES_PER_LINE"
  shows "parse_group plist (print_group g @ rest) = Inr (plist @ expand g)"
proof -
  obtain cs "is" n where g: "g = (cs, is, n)" by (cases g)
  note m = regexec_match[OF match_at_print[of cs "is" n rest, unfolded Let_def]]
  from assms(1) have ok: "list_all c_int cs" "list_all c_int is" "length cs \<le> 50" "length is \<le> 50" "c_int n"
    by (simp_all add: group_ok_def g)
  have s: "scan_list 0 (join CHR '','' (map show_int cs) @ ''};int{'' @ join CHR '','' (map show_int is) @ ''};'' @ show_int n @ rest)
      (length (join CHR '','' (map show_int cs))) = Inr cs"
    "scan_list 0 (join CHR '','' (map show_int is) @ ''};'' @ show_int n @ rest)
      (length (join CHR '','' (map show_int is))) = Inr is"
    using scan_list_print[of cs 0] scan_list_print[of "is" 0] ok by simp_all
  have n: "scan_int (show_int n @ rest) = Some n" by (rule scan_int_show[OF ok(5) assms(2)])
  show ?thesis
    unfolding parse_group_def g m option.case prod.case s bind_res.simps n Let_def
    using assms(3) by (simp add: g expand_def)
qed

section \<open>Reading back a file\<close>

definition line_entries :: "group list \<times> bool \<Rightarrow> ski_config_priorities_entry list" where
  "line_entries l = concat (map expand (fst l))"

definition line_shuffled :: "group list \<times> bool \<Rightarrow> bool" where
  "line_shuffled l \<longleftrightarrow> length (fst l) > 1 \<or> snd l"

definition line_ok :: "group list \<times> bool \<Rightarrow> bool" where
  "line_ok l \<longleftrightarrow> fst l \<noteq> [] \<and> list_all group_ok (fst l) \<and> length (print_line l) \<le> 509"

lemma print_group_chars:
  assumes "c \<in> set (print_group g)"
  shows "c \<noteq> CHR ''|'' \<and> c \<noteq> newline"
proof -
  obtain cs "is" n where g: "g = (cs, is, n)" by (cases g)
  from assms show ?thesis
    by (auto simp: g print_group_def dest!: set_join dest: show_int_chars)
qed

lemma print_group_nonempty [simp]: "print_group g \<noteq> []"
  by (simp add: print_group_def split: prod.splits)

lemma print_line_Cons:
  "print_line (g # gs, trail) =
    print_group g @ (if gs = [] then if trail then ''|'' else [] else CHR ''|'' # print_line (gs, trail))"
  by (cases gs) (simp_all add: print_line_def)

lemma parse_groups_print:
  assumes "gs \<noteq> []" "list_all group_ok gs"
    and "length plist + length (line_entries (gs, trail)) \<le> SKI_MAX_CONFIG_PRIORITIES_PER_LINE"
  shows "parse_groups plist rnd (print_line (gs, trail)) =
    Inr (plist @ line_entries (gs, trail), rnd \<or> line_shuffled (gs, trail))"
  using assms
proof (induction gs arbitrary: plist rnd)
  case (Cons g gs)
  have nb: "CHR ''|'' \<notin> set (print_group g)" using print_group_chars by blast
  have g: "parse_group plist (print_group g @ rest) = Inr (plist @ expand g)" if "not_digit_hd rest" for rest
    using that Cons.prems by (intro parse_group_print) (simp_all add: line_entries_def)
  show ?case
  proof (cases "gs = []")
    case True
    show ?thesis
      using g[of "if trail then ''|'' else []"] nb True
      by (subst parse_groups.simps)
        (auto simp: print_line_Cons strchr_tail_append strchr_tail_none parse_groups.simps[of _ _ "[]"]
          not_digit_hd_def is_digit_facts line_entries_def line_shuffled_def)
  next
    case False
    have "parse_groups (plist @ expand g) True (print_line (gs, trail)) =
        Inr ((plist @ expand g) @ line_entries (gs, trail), True)"
      using Cons.IH[OF False, of "plist @ expand g" True] Cons.prems by (simp add: line_entries_def)
    then show ?thesis
      using g[of "CHR ''|'' # print_line (gs, trail)"] nb False
      by (subst parse_groups.simps)
        (simp add: print_line_Cons strchr_tail_append not_digit_hd_def is_digit_facts line_entries_def
          line_shuffled_def)
  qed
qed simp

lemma shuffle_perm:
  "start + k = length pl \<Longrightarrow> \<exists>q r'. shuffle start k pl r = (take start pl @ q, r') \<and> mset q = mset (drop start pl)"
proof -
  have "\<lbrakk>start + k \<le> length pl; shuffle start k pl r = (pl', r')\<rbrakk> \<Longrightarrow>
      take start pl' = take start pl \<and> length pl' = length pl \<and> mset pl' = mset pl" for pl' r'
  proof (induction k arbitrary: pl r)
    case (Suc k)
    obtain v r1 where v: "ski_config_priorities_random r = (v, r1)" by force
    let ?j = "nat (v mod int (k + 1)) + start"
    have "nat (v mod int (k + 1)) < k + 1" by (simp add: nat_less_iff)
    then have j: "?j < length pl" "start + k < length pl" "start \<le> ?j" using Suc.prems by linarith+
    let ?pl = "pl[start + k := pl ! ?j, ?j := pl ! (start + k)]"
    have "shuffle start k ?pl r1 = (pl', r')" using Suc.prems(2) v by (simp add: Let_def)
    moreover have "start + k \<le> length ?pl" using Suc.prems(1) by simp
    ultimately have "take start pl' = take start ?pl \<and> length pl' = length ?pl \<and> mset pl' = mset ?pl"
      using Suc.IH by blast
    moreover have "mset ?pl = mset pl" by (rule mset_swap_idx) (use j in auto)
    ultimately show ?case using j by simp
  qed simp
  note this[of "fst (shuffle start k pl r)" "snd (shuffle start k pl r)", simplified]
  moreover assume "start + k = length pl"
  ultimately have p: "take start (fst (shuffle start k pl r)) = take start pl"
    "mset (fst (shuffle start k pl r)) = mset pl" by simp_all
  let ?q = "drop start (fst (shuffle start k pl r))"
  have "mset (take start pl @ ?q) = mset (take start pl @ drop start pl)"
    using p by (metis append_take_drop_id)
  then have "mset ?q = mset (drop start pl)" by (simp only: mset_append add_left_cancel)
  moreover have "shuffle start k pl r = (take start pl @ ?q, snd (shuffle start k pl r))"
    by (metis p(1) append_take_drop_id prod.collapse)
  ultimately show ?thesis by blast
qed

definition line_perm :: "ski_config_priorities_entry list \<Rightarrow> group list \<times> bool \<Rightarrow> bool" where
  "line_perm p l \<longleftrightarrow> (if line_shuffled l then mset p = mset (line_entries l) else p = line_entries l)"

lemma line_perm_length: "line_perm p l \<Longrightarrow> length p = length (line_entries l) \<and> set p = set (line_entries l)"
  by (auto simp: line_perm_def split: if_splits dest: mset_eq_length mset_eq_setD)

lemma parseline_print:
  assumes "line_ok l" "length plist + length (line_entries l) \<le> SKI_MAX_CONFIG_PRIORITIES_PER_LINE"
  shows "\<exists>p r'. ski_config_priorities_parseline (plist, r) (print_line l) = Inr (plist @ p, r') \<and> line_perm p l"
proof -
  obtain gs trail where l: "l = (gs, trail)" by (cases l)
  have "parse_groups plist False (print_line l) = Inr (plist @ line_entries l, line_shuffled l)"
    using assms parse_groups_print[of gs plist trail False] by (simp add: l line_ok_def)
  moreover have "take 1023 (print_line l) = print_line l" using assms by (simp add: line_ok_def)
  ultimately show ?thesis
    using shuffle_perm[of "length plist" "length (line_entries l)" "plist @ line_entries l" r]
    by (auto simp: ski_config_priorities_parseline_def line_perm_def)
qed

lemma parse_lines_print:
  assumes "list_all line_ok ls"
    and "length plist + length (concat (map line_entries ls)) \<le> SKI_MAX_CONFIG_PRIORITIES_PER_LINE"
  shows "\<exists>ps r'. fold_res ski_config_priorities_parseline (plist, r) (map print_line ls) = Inr (plist @ concat ps, r') \<and>
    list_all2 line_perm ps ls"
  using assms
proof (induction ls arbitrary: plist r)
  case (Cons l ls)
  then obtain p r1 where p: "ski_config_priorities_parseline (plist, r) (print_line l) = Inr (plist @ p, r1)"
    "line_perm p l" using parseline_print[of l plist r] by auto
  with Cons.prems line_perm_length[OF p(2)] obtain ps r' where
    "fold_res ski_config_priorities_parseline (plist @ p, r1) (map print_line ls) = Inr ((plist @ p) @ concat ps, r')"
    "list_all2 line_perm ps ls" using Cons.IH[of "plist @ p" r1] by auto
  with p show ?case by (intro exI[of _ "p # ps"]) simp
qed simp

lemma fgets_split_line:
  "newline \<notin> set l \<Longrightarrow> length l < n \<Longrightarrow> fgets_split n (l @ newline # rest) = (l @ [newline], rest)"
proof (induction l arbitrary: n)
  case Nil
  then show ?case by (cases n) auto
next
  case (Cons c l)
  then show ?case by (cases n) auto
qed

lemma fgets_lines_line:
  assumes "newline \<notin> set l" "length l \<le> 509"
  shows "fgets_lines (l @ newline # rest) = l # fgets_lines rest"
proof -
  have s: "fgets_split 510 (l @ newline # rest) = (l @ [newline], rest)"
    using assms by (intro fgets_split_line) auto
  obtain c t where c: "l @ newline # rest = c # t" by (cases "l @ newline # rest") auto
  show ?thesis unfolding c fgets_lines.simps unfolding c[symmetric] s by simp
qed

lemma print_line_chars: "newline \<notin> set (print_line l)"
  by (cases l) (fastforce simp: print_line_def dest!: set_join dest: print_group_chars split: if_splits)

definition print_file :: "(group list \<times> bool) list \<Rightarrow> string" where
  "print_file ls = concat (map (\<lambda>l. print_line l @ [newline]) ls)"

lemma fgets_lines_print: "list_all line_ok ls \<Longrightarrow> fgets_lines (print_file ls) = map print_line ls"
  by (induction ls) (simp_all add: print_file_def fgets_lines_line print_line_chars line_ok_def)

section \<open>Properties of the priorities file\<close>

lemma random_value:
  "fst (ski_config_priorities_random x) = uint (take_bit 31 (snd (ski_config_priorities_random x)) div 65536)"
proof -
  let ?r = "x * 1103515245 + 12345 :: 64 word"
  have "uint (ucast (?r div 65536) :: 32 word) mod 32768 = take_bit 15 (take_bit 32 (drop_bit 16 (uint ?r)))"
    by (simp add: unsigned_ucast_eq take_bit_eq_mod drop_bit_eq_div uint_div_distrib)
  also have "\<dots> = take_bit 15 (drop_bit 16 (uint ?r))" by simp
  also have "\<dots> = drop_bit 16 (take_bit 31 (uint ?r))" by (simp add: drop_bit_take_bit)
  also have "\<dots> = uint (take_bit 31 ?r div 65536)"
    by (simp add: unsigned_take_bit_eq drop_bit_eq_div uint_div_distrib)
  finally show ?thesis by (simp add: ski_config_priorities_random_def Let_def)
qed

lemma random_next:
  assumes "take_bit 31 a = take_bit 31 (b :: 64 word)"
  shows "take_bit 31 (a * 1103515245 + 12345) = take_bit 31 (b * 1103515245 + 12345)"
proof -
  have e: "uint (take_bit 31 (x * 1103515245 + 12345)) = (uint (take_bit 31 x) * 1103515245 + 12345) mod 2 ^ 31"
    for x :: "64 word"
  proof -
    have "uint (x * 1103515245 + 12345) mod 2 ^ 31 = (uint x * 1103515245 + 12345) mod 2 ^ 64 mod 2 ^ 31"
      by (simp add: uint_word_ariths mod_simps)
    also have "\<dots> = (uint x * 1103515245 + 12345) mod 2 ^ 31"
      by (rule mod_mod_cancel) (rule le_imp_power_dvd, simp)
    also have "\<dots> = (uint x mod 2 ^ 31 * 1103515245 + 12345) mod 2 ^ 31" by (metis mod_add_left_eq mod_mult_left_eq)
    finally show ?thesis unfolding unsigned_take_bit_eq by (simp only: take_bit_eq_mod)
  qed
  then show ?thesis using assms by (simp add: word_uint_eq_iff[of "take_bit 31 (a * _ + _)"])
qed

lemma random_range: "fst (ski_config_priorities_random x) \<in> {0..32767}"
proof -
  have "0 \<le> v mod 32768 \<and> v mod 32768 < 32768" for v :: int by simp
  from this[of "uint (ucast ((x * 1103515245 + 12345) div 65536) :: 32 word)"] show ?thesis
    by (simp add: ski_config_priorities_random_def Let_def)
qed

lemma plist_of_file_print:
  assumes "list_all line_ok ls" "length (concat (map line_entries ls)) \<le> SKI_MAX_CONFIG_PRIORITIES_PER_LINE"
  shows "\<exists>ps r'. plist_of_file (print_file ls) seed = Inr (concat ps, r') \<and> list_all2 line_perm ps ls"
  using parse_lines_print[OF assms(1), of "[]"] assms
  by (simp add: plist_of_file_def fgets_lines_print Let_def)

lemma line_perms_concat:
  "list_all2 line_perm ps ls \<Longrightarrow>
    length (concat ps) = length (concat (map line_entries ls)) \<and>
    set (concat ps) = set (concat (map line_entries ls))"
  by (induction rule: list_all2_induct) (auto dest: line_perm_length)

text \<open>
  C26: reading a priorities file.  A file printed from lines of groups is read back: line by
  line the entries are the products CPU x interrupt of its groups, in order if the line has a
  single group and no separator, and permuted among themselves otherwise.  If there are at
  most 512 entries and no interrupt below -1, thread \<open>k\<close> of the table is built from entry
  \<open>k\<close> and has priority \<open>k\<close>, whatever the seed.
\<close>

theorem priorities_file_table:
  assumes "list_all line_ok ls" and "length (concat (map line_entries ls)) \<le> MAX_SKI_THREADS"
    and "\<forall>(cpu, i, n)\<in>set (concat (map line_entries ls)). i \<ge> -1"
    and "length (ski_threads s) = MAX_SKI_THREADS"
  shows "\<exists>s' ps. ski_config_priorities_parse_file s (print_file ls) seed = Inr s' \<and>
    list_all2 (\<lambda>p l. if line_shuffled l then mset p = mset (line_entries l) else p = line_entries l) ps ls \<and>
    ski_threads_no s' = length (concat ps) \<and>
    (\<forall>k < length (concat ps). tc_of s' k = entry_tc (tc_of s k) k (concat ps ! k))"
proof -
  from plist_of_file_print[OF assms(1), of seed] assms(2) obtain ps r' where
    ps: "plist_of_file (print_file ls) seed = Inr (concat ps, r')" "list_all2 line_perm ps ls" by auto
  note c = line_perms_concat[OF ps(2)]
  have "\<forall>(cpu, i, n)\<in>set (concat ps). i \<ge> -1" using assms(3) unfolding c[THEN conjunct2] .
  moreover have "length (concat ps) \<le> MAX_SKI_THREADS" using assms(2) c by simp
  ultimately obtain s' where
    "insert_all (ski_threads_reset s) (concat ps) = Inr s'" "ski_threads_no s' = length (concat ps)"
    "\<forall>k < length (concat ps). tc_of s' k = entry_tc (tc_of s k) k (concat ps ! k)"
    using insert_all_spec[of "ski_threads_reset s" "concat ps"] assms(4) by auto
  moreover have "list_all2 (\<lambda>p l. if line_shuffled l then mset p = mset (line_entries l) else p = line_entries l) ps ls"
    using ps(2) by (simp add: line_perm_def[abs_def])
  ultimately show ?thesis
    using ps(1) by (intro exI[of _ s'] exI[of _ ps]) (simp add: ski_config_priorities_parse_file_def)
qed

theorem priorities_file_table_witness:
  "\<exists>s'. ski_config_priorities_parse_file blank_state
      (print_file [([([0], [-1], 1)], False), ([([0, 1], [33], 2)], True)]) 42 = Inr s' \<and> ski_threads_no s' = 3"
proof -
  let ?ls = "[([([0], [-1], 1)], False), ([([0, 1], [33], 2)], True)] :: (group list \<times> bool) list"
  have e: "concat (map line_entries ?ls) = [(0, -1, 1), (0, 33, 2), (1, 33, 2)]"
    by (simp add: line_entries_def expand_def)
  have ok: "list_all line_ok ?ls"
    by (simp add: line_ok_def group_ok_def c_int_def print_line_def print_group_def show_int_def show_nat.simps)
  have len: "length (ski_threads blank_state) = 512" by (simp add: blank_state_def)
  from priorities_file_table[OF ok _ _ len, of 42, unfolded e, folded line_perm_def[abs_def]] obtain s' ps where
    s': "ski_config_priorities_parse_file blank_state (print_file ?ls) 42 = Inr s'" "list_all2 line_perm ps ?ls"
    "ski_threads_no s' = length (concat ps)" by auto
  from line_perms_concat[OF s'(2), unfolded e] s' show ?thesis by auto
qed

text \<open>
  The shuffle is a permutation of the entries from its start position on: whatever the
  state of the generator, the entries before the start stay where they are and the others
  keep their multiplicities.
\<close>

theorem shuffle_permutes:
  assumes "start + k = length plist"
  shows "\<exists>q r'. shuffle start k plist r = (take start plist @ q, r') \<and> mset q = mset (drop start plist)"
  by (rule shuffle_perm[OF assms])

theorem shuffle_permutes_witness:
  "\<exists>q r'. shuffle 1 2 [7, 8, 9 :: int] 5 = ([7] @ q, r') \<and> mset q = {#8, 9#}"
  using shuffle_permutes[of 1 2 "[7, 8, 9 :: int]" 5] by (auto simp: numeral_eq_Suc)

text \<open>
  The generator returns values from 0 to 32767 and only depends on the low 31 bits of its
  state: two states that agree there give the same value and agree there again.
\<close>

theorem random_low_bits:
  assumes "take_bit 31 a = take_bit 31 (b :: 64 word)"
  shows "fst (ski_config_priorities_random a) = fst (ski_config_priorities_random b) \<and>
    take_bit 31 (snd (ski_config_priorities_random a)) = take_bit 31 (snd (ski_config_priorities_random b)) \<and>
    fst (ski_config_priorities_random a) \<in> {0..32767}"
  using random_next[OF assms] random_range[of a]
  by (simp add: random_value) (simp add: ski_config_priorities_random_def Let_def)

theorem random_low_bits_witness:
  "fst (ski_config_priorities_random (2 ^ 31 + 5)) = fst (ski_config_priorities_random 5)"
  using random_low_bits[of "2 ^ 31 + 5" 5] by (simp add: take_bit_eq_mod)

end
