(* ===== verification/Ski_Hyper.thy ===== *)
theory Ski_Hyper
  imports Ski_Sched Ski_Priorities
begin

text \<open>
  The life cycle of a test: the hypercalls of the guest (\<open>vmm/ski-hyper.c\<close>), the barrier at
  which the CPUs meet, blocking the CPUs that do not take part, restoring from a snapshot
  (\<open>vmm/cpu-exec.c\<close>), the turn of a CPU in \<open>tcg_exec_all\<close> (\<open>vmm/cpus.c\<close>) and the monitor
  commands of \<open>vmm/piking.c\<close>.  A function that may leave through \<open>cpu_loop_exit\<close> returns
  how it ended; the structures written to the guest are returned in order.  Trace files and
  snapshots written to disk are not part of the state.
\<close>

unbundle bit_operations_syntax

datatype flow = Returned | Loop_exited

section \<open>The structure shared with the guest\<close>

abbreviation (input) HYPERCALL_IO_TYPE_TEST_ENTER :: int where "HYPERCALL_IO_TYPE_TEST_ENTER \<equiv> 1"
abbreviation (input) HYPERCALL_IO_TYPE_TEST_EXIT :: int where "HYPERCALL_IO_TYPE_TEST_EXIT \<equiv> 2"
abbreviation (input) HYPERCALL_IO_TYPE_DEBUG :: int where "HYPERCALL_IO_TYPE_DEBUG \<equiv> 3"

text \<open>The union \<open>p\<close> is its 128 bytes as 32 machine words.\<close>

record hypercall_io =
  hio_magic_start :: int
  hio_size :: int
  hio_type :: int
  hio_p :: "32 word list"
  hio_magic_end :: int

definition gh_nr_instr :: "hypercall_io \<Rightarrow> int" where "gh_nr_instr hio = sint (hio_p hio ! 0)"
definition gh_nr_cpus :: "hypercall_io \<Rightarrow> int" where "gh_nr_cpus hio = sint (hio_p hio ! 1)"

definition set_enter_res :: "int \<Rightarrow> hypercall_io \<Rightarrow> hypercall_io" where
  "set_enter_res v hio = hio\<lparr>hio_p := (hio_p hio)[3 := word_of_int v]\<rparr>"

definition set_exit_stats :: "SKICPU \<Rightarrow> hypercall_io \<Rightarrow> hypercall_io" where
  "set_exit_stats sc hio = hio\<lparr>hio_p := (hio_p hio)
     [0 := word_of_int (sc_nr_syscalls_self sc), 1 := word_of_int (sc_nr_interrupts_self sc),
      2 := word_of_int (sc_nr_syscalls_other sc), 3 := word_of_int (sc_nr_interrupts_other sc),
      4 := word_of_int (sc_nr_instr_executed sc), 5 := word_of_int (sc_nr_instr_executed_other sc)]\<rparr>"

definition word_chars :: "32 word \<Rightarrow> string" where
  "word_chars w = map (\<lambda>k. char_of (unat (drop_bit (8 * k) w) mod 256)) [0, 1, 2, 3]"

definition gh_msg :: "hypercall_io \<Rightarrow> string" where
  "gh_msg hio = takeWhile (\<lambda>c. c \<noteq> CHR 0x00) (concat (map word_chars (hio_p hio)))"

section \<open>Barrier and blocking\<close>

definition ski_barrier ::
  "ski_state \<Rightarrow> env \<Rightarrow> int \<Rightarrow> int \<Rightarrow> int \<Rightarrow> int \<Rightarrow> ski_state \<times> flow" where
  "ski_barrier s c nr_cpus_barrier old_state new_state blocking_exception =
    (let nr_cpus_missing = nr_cpus_barrier - int (length (filter (\<lambda>e. sc_state (ski_cpu e) = old_state) (cpus s)))
     in if nr_cpus_missing = 0
        then (s\<lparr>cpus := map (\<lambda>e. if sc_state (ski_cpu e) = old_state
                then e\<lparr>ski_cpu := (ski_cpu e)\<lparr>sc_state := new_state\<rparr>\<rparr> else e) (cpus s)\<rparr>, Returned)
        else (upd_cpu c (\<lambda>e. e\<lparr>cpu_exception_index := blocking_exception\<rparr>) s, Loop_exited))"

definition ski_nontesting_cpus_block :: "ski_state \<Rightarrow> ski_state" where
  "ski_nontesting_cpus_block s =
    (if ski_block_other_cpus s \<noteq> 0
     then s\<lparr>cpus := map (\<lambda>e. if \<not> ski_active e
              then e\<lparr>ski_old_stop := (cpu_stop e \<noteq> 0), ski_old_stopped := (cpu_stopped e \<noteq> 0),
                     cpu_stop := 1, cpu_stopped := 1\<rparr>
              else e) (cpus s)\<rparr>
     else s)"

text \<open>The saved flags are of type \<open>bool\<close>: the assertion that they are not -1 always holds.\<close>

definition ski_nontesting_cpus_unblock :: "ski_state \<Rightarrow> ski_state" where
  "ski_nontesting_cpus_unblock s =
    (if ski_block_other_cpus s \<noteq> 0
     then s\<lparr>cpus := map (\<lambda>e. if \<not> ski_active e
              then e\<lparr>cpu_stop := (if ski_old_stop e then 1 else 0),
                     cpu_stopped := (if ski_old_stopped e then 1 else 0),
                     ski_old_stop := True, ski_old_stopped := True\<rparr>
              else e) (cpus s)\<rparr>
     else s)"

definition zero_sc :: SKICPU where
  "zero_sc = \<lparr>sc_nr_cpus = 0, sc_nr_max_instr = 0, sc_state = SKI_CPU_NA,
    sc_nr_instr_executed = 0, sc_nr_instr_executed_other = 0, sc_priority = 0,
    sc_priority_adjust = 0, sc_blocked = False, sc_ignore_interrupts = zero_bitmap,
    sc_nr_syscalls_self = 0, sc_nr_interrupts_self = 0, sc_nr_syscalls_other = 0,
    sc_nr_interrupts_other = 0, sc_cr3 = 0, sc_gdt = 0,
    sc_interrupts_stack = replicate SKI_MAX_INTERRUPTS_STACK zero_si, sc_interrupts_stack_no = 0,
    sc_cpu_rs = zero_ma, sc_wait_for_interrupt = 0, sc_last_enter_cpu = False\<rparr>"

definition ski_deactivate_all_cpu :: "ski_state \<Rightarrow> ski_state" where
  "ski_deactivate_all_cpu s =
    (let s = ski_nontesting_cpus_unblock s
     in s\<lparr>cpus := map (\<lambda>e. e\<lparr>ski_active := False, ski_cpu := zero_sc\<rparr>) (cpus s)\<rparr>)"

section \<open>Start and end of a test\<close>

definition ski_first_in_test :: "ski_state \<Rightarrow> ski_state" where
  "ski_first_in_test s =
    (if length (filter ski_active (cpus s)) = 1
     then s\<lparr>ski_sched_instructions_current := 0, ski_sched_instructions_total := 0,
            ski_apic_disable_timer := 1, ski_apic_disable_all := 1\<rparr>
     else s)"

definition ski_start_test :: "ski_state \<Rightarrow> env \<Rightarrow> (ski_state \<times> flow) res" where
  "ski_start_test s c =
    bind_res (ski_threads_initialize s (opt_priorities_file s)) (\<lambda>s.
      let s = ski_nontesting_cpus_block s
      in Inr (upd_cpu c (\<lambda>e. e\<lparr>cpu_exception_index := EXCP_SKI_SCHEDULER\<rparr>) s, Loop_exited))"

definition ski_last_in_test :: "ski_state \<Rightarrow> unit res" where
  "ski_last_in_test s = SKI_ASSERT s False"

definition ski_reset_common :: "ski_state \<Rightarrow> ski_state" where
  "ski_reset_common s = s\<lparr>ski_apic_disable_timer := 0, ski_apic_disable_all := 0\<rparr>"

section \<open>Resuming from a snapshot\<close>

definition ski_snapshot_reinitialize :: "ski_state \<Rightarrow> ski_state" where
  "ski_snapshot_reinitialize s =
    (let s = s\<lparr>ski_sched_instructions_current := 0, ski_sched_instructions_total := 0,
               ski_exec_instruction_counter_total := 0, ski_exec_instruction_counter_per_cycle := 0,
               ski_apic_disable_timer := 1, ski_apic_disable_all := 1\<rparr>
     in if length (opt_preemptions s) \<noteq> 0
        then case ski_preemption_get_and_clear_lowest (opt_preemptions s) (-1) of (v, ps) \<Rightarrow>
               s\<lparr>ski_global_init_preemption := v, opt_preemptions := ps\<rparr>
        else s)"

definition option_at :: "int list \<Rightarrow> int \<Rightarrow> int res" where
  "option_at xs i = (if 0 \<le> i \<and> nat i < length xs then Inr (xs ! nat i) else Inl Out_of_bounds)"

text \<open>
  The buffer \<open>hio\<close> is a local variable that is not initialised before one of its fields is
  set and the whole is written to the guest; its prior contents are an argument.
\<close>

definition ski_snapshot_reinitialize_cpu ::
  "ski_state \<Rightarrow> env \<Rightarrow> hypercall_io \<Rightarrow> (ski_state \<times> hypercall_io) res" where
  "ski_snapshot_reinitialize_cpu s c hio =
    bind_res (option_at (opt_input_number s) (cpu_index (cpu_of s c))) (\<lambda>input_number.
    bind_res (ski_liveness_init (int SKI_MA_ENTRIES_MAX)) (\<lambda>rs.
      Inr (upd_sc c (\<lambda>sc. sc
             \<lparr>sc_nr_max_instr := (if ski_global_init_preemption s \<ge> 0
                then ski_global_init_preemption s else sc_nr_max_instr sc),
              sc_nr_cpus := (if opt_nr_cpus s \<noteq> 0 then opt_nr_cpus s else sc_nr_cpus sc),
              sc_nr_syscalls_self := 0, sc_nr_interrupts_self := 0,
              sc_nr_syscalls_other := 0, sc_nr_interrupts_other := 0, sc_cpu_rs := rs\<rparr>) s,
           set_enter_res (if input_number > -1 then input_number else opt_seed s) hio)))"

section \<open>Hypercalls\<close>

definition enter_test :: "ski_state \<Rightarrow> env \<Rightarrow> hypercall_io \<Rightarrow> (ski_state \<times> flow \<times> hypercall_io list) res" where
  "enter_test s c hio =
    (let s = upd_cpu c (\<lambda>e. e\<lparr>ski_active := True\<rparr>) s;
         s = ski_first_in_test s;
         s = upd_cpu c (\<lambda>e. e\<lparr>cpu_exception_index := -1,
               ski_cpu := (ski_cpu e)\<lparr>sc_priority := -1, sc_priority_adjust := 0, sc_blocked := True,
                 sc_nr_max_instr := gh_nr_instr hio, sc_nr_instr_executed_other := 0,
                 sc_nr_instr_executed := 0, sc_nr_cpus := gh_nr_cpus hio,
                 sc_cr3 := cpu_cr3 e, sc_gdt := cpu_gdt_base e, sc_state := SKI_CPU_BLOCKED_ON_ENTER\<rparr>\<rparr>) s
     in bind_res (ski_initialize_interrupts s c) (\<lambda>s.
        bind_res (option_at (opt_input_number s) (cpu_index (cpu_of s c))) (\<lambda>input_number.
        bind_res (ski_liveness_init (int SKI_MA_ENTRIES_MAX)) (\<lambda>rs.
          let hio = set_enter_res (if input_number \<noteq> 0 then input_number else opt_seed s) hio;
              s = upd_sc c (\<lambda>sc. sc\<lparr>sc_nr_syscalls_self := 0, sc_nr_interrupts_self := 0,
                    sc_nr_syscalls_other := 0, sc_nr_interrupts_other := 0, sc_last_enter_cpu := False,
                    sc_cpu_rs := rs\<rparr>) s
          in case ski_barrier s c (sc_nr_cpus (sc_of s c)) SKI_CPU_BLOCKED_ON_ENTER SKI_CPU_RUNNING_TEST
                    EXCP_SKI_ENTER_WAITING of
               (s, Loop_exited) \<Rightarrow> Inr (s, Loop_exited, [hio])
             | (s, Returned) \<Rightarrow>
                 bind_res (ski_start_test (upd_sc c (\<lambda>sc. sc\<lparr>sc_last_enter_cpu := True\<rparr>) s) c)
                   (\<lambda>(s, fl). Inr (s, fl, [hio]))))))"

definition exit_test :: "ski_state \<Rightarrow> env \<Rightarrow> hypercall_io \<Rightarrow> (ski_state \<times> flow \<times> hypercall_io list) res" where
  "exit_test s c hio =
    (if \<not> ski_active (cpu_of s c) then Inr (s, Returned, [])
     else let s = upd_sc c (\<lambda>sc. sc\<lparr>sc_state := SKI_CPU_BLOCKED_ON_EXIT\<rparr>) s;
              hio = set_exit_stats (sc_of s c) hio
          in case ski_barrier s c (sc_nr_cpus (sc_of s c)) SKI_CPU_BLOCKED_ON_EXIT SKI_CPU_NA
                    EXCP_SKI_EXIT_WAITING of
               (s, Loop_exited) \<Rightarrow> Inr (s, Loop_exited, [hio])
             | (s, Returned) \<Rightarrow>
                 bind_res (SKI_ASSERT_MSG (\<not> (opt_forkall_enabled s \<and> opt_exit_after_hypercall s))
                   SKI_EXIT_AFTER_HYPERCALL) (\<lambda>_.
                 bind_res (ski_last_in_test s) (\<lambda>_.
                   Inr (ski_deactivate_all_cpu s, Returned, [hio]))))"

definition debug_call :: "ski_state \<Rightarrow> hypercall_io \<Rightarrow> (ski_state \<times> flow \<times> hypercall_io list) res" where
  "debug_call s hio =
    (if opt_quit_hypercall_threshold s \<noteq> 0 \<and> gh_msg hio = ''END INFO''
     then let s = s\<lparr>ski_quit_hypercall_counter := ski_quit_hypercall_counter s + 1\<rparr>
          in if ski_quit_hypercall_counter s = opt_quit_hypercall_threshold s
             then Inl (Ski_exit SKI_EXIT_OK) else Inr (s, Returned, [])
     else Inr (s, Returned, []))"

text \<open>
  A structure with wrong magic numbers or size is handled like any other: the code runs into
  \<open>assert(-1)\<close>, whose condition is true.
\<close>

definition ski_process_hypercall ::
  "ski_state \<Rightarrow> env \<Rightarrow> hypercall_io \<Rightarrow> (ski_state \<times> flow \<times> hypercall_io list) res" where
  "ski_process_hypercall s c hio =
    (let s = upd_cpu c (\<lambda>e. e\<lparr>cpu_eip := (cpu_eip e + 2) mod 2 ^ 32, cpu_exception_index := -1\<rparr>) s
     in if hio_type hio = HYPERCALL_IO_TYPE_TEST_ENTER then enter_test s c hio
        else if hio_type hio = HYPERCALL_IO_TYPE_TEST_EXIT then exit_test s c hio
        else if hio_type hio = HYPERCALL_IO_TYPE_DEBUG then debug_call s hio
        else Inr (s, Returned, []))"

section \<open>The turn of a CPU\<close>

text \<open>
  The decision of \<open>tcg_exec_all\<close> for one CPU: the new state, whether the CPU executes and
  the structures written to the guest.  \<open>running\<close> is the run state of the machine.
\<close>

definition cpu_can_run :: "bool \<Rightarrow> CPUState \<Rightarrow> bool" where
  "cpu_can_run running e \<longleftrightarrow> cpu_stop e = 0 \<and> \<not> (cpu_stopped e \<noteq> 0 \<or> \<not> running)"

definition reinit_active ::
  "hypercall_io \<Rightarrow> ski_state \<times> hypercall_io list \<Rightarrow> env \<Rightarrow> (ski_state \<times> hypercall_io list) res" where
  "reinit_active hio st c =
    (case st of (s, out) \<Rightarrow>
       if ski_active (cpu_of s c)
       then bind_res (ski_snapshot_reinitialize_cpu s c hio) (\<lambda>(s, w). Inr (s, out @ [w]))
       else Inr (s, out))"

definition tcg_exec_turn ::
  "bool \<Rightarrow> hypercall_io \<Rightarrow> ski_state \<Rightarrow> env \<Rightarrow> (ski_state \<times> bool \<times> hypercall_io list) res" where
  "tcg_exec_turn running hio s c =
    (if ski_snapshot_restoring s \<noteq> 0
     then if \<not> sc_last_enter_cpu (sc_of s c) then Inr (s, False, [])
          else bind_res (fold_res (reinit_active hio) (ski_snapshot_reinitialize s, []) [0..<length (cpus s)])
            (\<lambda>(s, out). Inr (s, True, out))
     else if cpu_can_run running (cpu_of s c)
          then bind_res (ski_cpu_can_run s c) (\<lambda>(s, b). Inr (s, b, []))
          else Inr (s, False, []))"

text \<open>The entry of \<open>cpu_exec\<close> on a restored machine: the test starts.\<close>

definition cpu_exec_resume :: "ski_state \<Rightarrow> env \<Rightarrow> (ski_state \<times> flow) res" where
  "cpu_exec_resume s c =
    (if ski_snapshot_restoring s \<noteq> 0 \<and> sc_last_enter_cpu (sc_of s c)
     then ski_start_test (s\<lparr>ski_snapshot_restoring := 0\<rparr>) c
     else Inr (s, Returned))"

section \<open>Monitor commands\<close>

definition pike_resume_all_cpus :: "ski_state \<Rightarrow> ski_state" where
  "pike_resume_all_cpus s = s\<lparr>cpus := map (\<lambda>e. e\<lparr>cpu_stop := 0, cpu_stopped := 0\<rparr>) (cpus s)\<rparr>"

definition pike_cpu :: "env \<Rightarrow> ski_state \<Rightarrow> ski_state" where
  "pike_cpu c s = s\<lparr>cpus := map (\<lambda>(i, e). if i = c then e\<lparr>cpu_stop := 0, cpu_stopped := 0\<rparr>
     else e\<lparr>cpu_stop := 1\<rparr>) (enumerate 0 (cpus s))\<rparr>"

definition piking_select_cpu :: "int \<Rightarrow> ski_state \<Rightarrow> ski_state \<times> int" where
  "piking_select_cpu idx s =
    (if idx \<noteq> -1
     then if 0 \<le> idx \<and> idx < int (length (cpus s))
          then (pike_cpu (nat idx) s, 0) else (s, -1)
     else (pike_resume_all_cpus s, 0))"

definition ski_reset :: "ski_state \<Rightarrow> ski_state" where
  "ski_reset s = ski_reset_common
    (s\<lparr>cpus := map (\<lambda>e.
       let e = (if ski_active e \<or> ski_block_other_cpus s \<noteq> 0 then e\<lparr>cpu_stopped := 0, cpu_stop := 0\<rparr> else e)
       in e\<lparr>ski_active := False\<rparr>) (cpus s)\<rparr>)"

section \<open>The barrier\<close>

text \<open>A CPU arrives: it takes the waiting state and calls the barrier.\<close>

definition arrive :: "int \<Rightarrow> int \<Rightarrow> int \<Rightarrow> int \<Rightarrow> ski_state \<Rightarrow> env \<Rightarrow> ski_state \<times> flow" where
  "arrive n old new exc s c = ski_barrier (upd_sc c (\<lambda>sc. sc\<lparr>sc_state := old\<rparr>) s) c n old new exc"

fun arrivals :: "int \<Rightarrow> int \<Rightarrow> int \<Rightarrow> int \<Rightarrow> ski_state \<Rightarrow> env list \<Rightarrow> ski_state \<times> flow list" where
  "arrivals n old new exc s [] = (s, [])"
| "arrivals n old new exc s (c # cs) =
    (case arrive n old new exc s c of (s, fl) \<Rightarrow>
       case arrivals n old new exc s cs of (s, fls) \<Rightarrow> (s, fl # fls))"

definition waiting_set :: "int \<Rightarrow> ski_state \<Rightarrow> env set" where
  "waiting_set old s = {c. c < length (cpus s) \<and> sc_state (sc_of s c) = old}"

lemma length_filter_waiting: "length (filter (\<lambda>e. sc_state (ski_cpu e) = old) (cpus s)) = card (waiting_set old s)"
  by (simp add: waiting_set_def sc_of_def length_filter_conv_card)

lemma waiting_set_upd_sc [simp]:
  "c < length (cpus s) \<Longrightarrow> waiting_set old (upd_sc c (\<lambda>sc. sc\<lparr>sc_state := old\<rparr>) s) = insert c (waiting_set old s)"
  by (auto simp: waiting_set_def)

lemma finite_waiting_set [simp]: "finite (waiting_set old s)"
  by (simp add: waiting_set_def)

lemma sc_of_exception [simp]:
  "sc_of (upd_cpu c (\<lambda>e. e\<lparr>cpu_exception_index := x\<rparr>) s) d = sc_of s d"
  by (cases "c < length (cpus s)") (auto simp: sc_of_def upd_cpu_def nth_list_update list_update_beyond)

lemma waiting_set_exception [simp]:
  "waiting_set old (upd_cpu c (\<lambda>e. e\<lparr>cpu_exception_index := x\<rparr>) s) = waiting_set old s"
  by (simp add: waiting_set_def)

lemma sc_of_map [simp]: "d < length (cpus s) \<Longrightarrow> sc_of (s\<lparr>cpus := map f (cpus s)\<rparr>) d = ski_cpu (f (cpu_of s d))"
  and cpu_of_map [simp]: "d < length (cpus s) \<Longrightarrow> cpu_of (s\<lparr>cpus := map f (cpus s)\<rparr>) d = f (cpu_of s d)"
  by (simp_all add: sc_of_def cpu_of_def)

text \<open>What one call of the barrier does to the scheduling state of every CPU.\<close>

lemma barrier_cases:
  assumes "ski_barrier s c n old new exc = (s', fl)"
  shows "length (cpus s') = length (cpus s)"
    and "fl = (if n = int (card (waiting_set old s)) then Returned else Loop_exited)"
    and "d < length (cpus s) \<Longrightarrow> sc_state (sc_of s' d) =
      (if fl = Returned \<and> d \<in> waiting_set old s then new else sc_state (sc_of s d))"
  using assms
  by (auto simp: ski_barrier_def Let_def length_filter_waiting split: if_splits)
    (auto simp: waiting_set_def sc_of_def cpu_of_def)

lemma arrive_cases:
  assumes "arrive n old new exc s c = (s', fl)" and "c < length (cpus s)"
  shows "length (cpus s') = length (cpus s)"
    and "fl = (if n = int (card (insert c (waiting_set old s))) then Returned else Loop_exited)"
    and "d < length (cpus s) \<Longrightarrow> sc_state (sc_of s' d) =
      (if fl = Returned \<and> d \<in> insert c (waiting_set old s) then new
       else if d = c then old else sc_state (sc_of s d))"
  using barrier_cases[OF assms(1)[unfolded arrive_def]] assms(2) by auto

lemma arrive_waiting:
  assumes "arrive n old new exc s c = (s', Loop_exited)" "c < length (cpus s)"
  shows "waiting_set old s' = insert c (waiting_set old s)"
  using arrive_cases[OF assms] assms(2) by (auto simp: waiting_set_def)

text \<open>
  C15: the barrier.  If \<open>n\<close> different CPUs arrive one after the other, in any order, and no CPU
  was waiting before, then all but the last leave through the CPU loop and stay in the waiting
  state; the last one returns, and exactly the CPUs that arrived are moved to the new state.
\<close>

theorem barrier_releases_together:
  assumes "distinct cs" and "\<forall>c\<in>set cs. c < length (cpus s)" and "waiting_set old s = {}"
    and "cs \<noteq> []" and "old \<noteq> new"
  shows "case arrivals (int (length cs)) old new exc s cs of (s', fls) \<Rightarrow>
    fls = replicate (length cs - 1) Loop_exited @ [Returned] \<and>
    (\<forall>d < length (cpus s). sc_state (sc_of s' d) = (if d \<in> set cs then new else sc_state (sc_of s d)))"
proof -
  have gen: "case arrivals n old new exc s cs of (s', fls) \<Rightarrow>
      fls = replicate (length cs - 1) Loop_exited @ [Returned] \<and>
      (\<forall>d < length (cpus s). sc_state (sc_of s' d) =
        (if d \<in> set cs \<union> waiting_set old s then new else sc_state (sc_of s d)))"
    if "distinct cs" "\<forall>c\<in>set cs. c < length (cpus s)" "waiting_set old s \<inter> set cs = {}" "cs \<noteq> []"
      "n = int (length cs) + int (card (waiting_set old s))" for n cs s
    using that
  proof (induction cs arbitrary: s)
    case (Cons c cs)
    obtain s1 fl where s1: "arrive n old new exc s c = (s1, fl)" by force
    have c: "c < length (cpus s)" "c \<notin> waiting_set old s" using Cons.prems by auto
    note a = arrive_cases[OF s1 c(1)]
    have card: "card (insert c (waiting_set old s)) = Suc (card (waiting_set old s))" using c by simp
    show ?case
    proof (cases "cs = []")
      case True
      with a(2) Cons.prems(5) card have "fl = Returned" by simp
      with True s1 a show ?thesis by auto
    next
      case False
      with a(2) Cons.prems(5) card have fl: "fl = Loop_exited" by simp
      note w = arrive_waiting[OF s1[unfolded fl] c(1)]
      obtain s' fls where r: "arrivals n old new exc s1 cs = (s', fls)" by force
      have "case arrivals n old new exc s1 cs of (s', fls) \<Rightarrow>
          fls = replicate (length cs - 1) Loop_exited @ [Returned] \<and>
          (\<forall>d < length (cpus s1). sc_state (sc_of s' d) =
            (if d \<in> set cs \<union> waiting_set old s1 then new else sc_state (sc_of s1 d)))"
        using Cons.prems a(1) w card False by (intro Cons.IH) auto
      with r have IH: "fls = replicate (length cs - 1) Loop_exited @ [Returned]"
        "\<forall>d < length (cpus s1). sc_state (sc_of s' d) =
            (if d \<in> set cs \<union> waiting_set old s1 then new else sc_state (sc_of s1 d))" by auto
      moreover have "Loop_exited # replicate (length cs - 1) Loop_exited = replicate (length cs) Loop_exited"
        using False by (cases cs) simp_all
      ultimately show ?thesis using s1 fl r a(1,3) w by auto
    qed
  qed simp
  show ?thesis
    using gen[of cs s "int (length cs)"] assms by simp
qed

theorem barrier_releases_together_witness:
  "case arrivals 2 SKI_CPU_BLOCKED_ON_EXIT SKI_CPU_NA EXCP_SKI_EXIT_WAITING sample_state [1, 0] of (s', fls) \<Rightarrow>
    fls = [Loop_exited, Returned] \<and> sc_state (sc_of s' 0) = SKI_CPU_NA \<and> sc_state (sc_of s' 1) = SKI_CPU_NA"
proof -
  have "waiting_set SKI_CPU_BLOCKED_ON_EXIT sample_state = {}"
    using all_less_2[of "\<lambda>c. sc_state (sc_of sample_state c) \<noteq> SKI_CPU_BLOCKED_ON_EXIT"]
    by (simp add: waiting_set_def sc_of_def blank_cpu_def blank_sc_def numeral_2_eq_2)
  with barrier_releases_together[of "[1, 0]" sample_state SKI_CPU_BLOCKED_ON_EXIT SKI_CPU_NA EXCP_SKI_EXIT_WAITING]
  show ?thesis by auto
qed

text \<open>
  C40: blocking is undone.  Unblocking right after blocking gives every CPU that does not take
  part in the test its run flags back, provided these are 0 or 1 as the machine keeps them,
  and while blocked such a CPU cannot run.
\<close>

theorem block_unblock_restores:
  assumes "ski_block_other_cpus s \<noteq> 0" and "c < length (cpus s)" and "\<not> ski_active (cpu_of s c)"
    and "cpu_stop (cpu_of s c) \<in> {0, 1}" and "cpu_stopped (cpu_of s c) \<in> {0, 1}"
  shows "\<not> cpu_can_run running (cpu_of (ski_nontesting_cpus_block s) c) \<and>
    cpu_stop (cpu_of (ski_nontesting_cpus_unblock (ski_nontesting_cpus_block s)) c) = cpu_stop (cpu_of s c) \<and>
    cpu_stopped (cpu_of (ski_nontesting_cpus_unblock (ski_nontesting_cpus_block s)) c) = cpu_stopped (cpu_of s c)"
  using assms
  by (auto simp: ski_nontesting_cpus_block_def ski_nontesting_cpus_unblock_def cpu_can_run_def cpu_of_def)

theorem block_unblock_restores_witness:
  "let s = upd_cpu 1 (\<lambda>e. e\<lparr>ski_active := False, cpu_stopped := 1\<rparr>) sample_state in
    cpu_stopped (cpu_of (ski_nontesting_cpus_unblock (ski_nontesting_cpus_block s)) 1) = 1"
  using block_unblock_restores[of "upd_cpu 1 (\<lambda>e. e\<lparr>ski_active := False, cpu_stopped := 1\<rparr>) sample_state" 1]
  by (simp add: Let_def upd_cpu_def cpu_of_def sample_state_def blank_state_def blank_cpu_def)

section \<open>Entering a test\<close>

lemma irq_set_shape: "ski_handle_new_irq_set s c v = Inr s' \<Longrightarrow> s' = s\<lparr>ski_threads := ski_threads s'\<rparr>"
  by (auto simp: ski_handle_new_irq_set_def Let_def bind_res_eq_Inr upd_tc_def split: if_splits option.splits)

lemma init_loop_shape:
  assumes "fold_res (\<lambda>s i. if P s i then ski_handle_new_irq_set s c (int i) else Inr s) s is = Inr s'"
  shows "s' = s\<lparr>ski_threads := ski_threads s'\<rparr>"
  using assms
proof (rule fold_res_invariant[where P = "\<lambda>t. t = s\<lparr>ski_threads := ski_threads t\<rparr>"], goal_cases)
  case (2 t x t')
  show ?case
  proof (cases "P t x")
    case True
    with 2(3) have t': "t' = t\<lparr>ski_threads := ski_threads t'\<rparr>" using irq_set_shape by auto
    have "t\<lparr>ski_threads := ski_threads t'\<rparr> = s\<lparr>ski_threads := ski_threads t'\<rparr>" by (subst 2(1)) simp
    with t' show ?thesis by simp
  qed (use 2 in auto)
qed simp

lemma initialize_interrupts_shape:
  assumes "ski_initialize_interrupts s c = Inr s'"
  shows "s' = (upd_sc c (\<lambda>sc. sc\<lparr>sc_ignore_interrupts := foldl ski_set_bit zero_bitmap ignored_vectors,
      sc_interrupts_stack := replicate SKI_MAX_INTERRUPTS_STACK zero_si, sc_interrupts_stack_no := 0\<rparr>) s)
    \<lparr>ski_threads := ski_threads s'\<rparr>"
  using assms unfolding ski_initialize_interrupts_def Let_def
  by (rule init_loop_shape[where P = "\<lambda>s i. ski_apic_check_interrupt_set i (cpu_apic (cpu_of s c))"])

lemma insert_all_cpus: "insert_all s es = Inr s' \<Longrightarrow> cpus s' = cpus s"
  by (induction es arbitrary: s)
    (fastforce simp: insert_all_def ski_threads_insert_def Let_def bind_res_eq_Inr)+

lemma threads_initialize_cpus:
  "ski_threads_initialize s f = Inr s' \<Longrightarrow>
    cpus s' = map (\<lambda>e. e\<lparr>ski_cpu := (ski_cpu e)\<lparr>sc_wait_for_interrupt := 0\<rparr>\<rparr>) (cpus s)"
  by (auto simp: ski_threads_initialize_def ski_config_priorities_parse_file_def bind_res_eq_Inr
      ski_liveness_initialize_def dest!: insert_all_cpus split: option.splits)

text \<open>The state in which the CPU calls the barrier.\<close>

lemma enter_test_barrier:
  assumes c: "c < length (cpus s)" and ent: "enter_test s c hio = Inr (s', fl, ws)"
  obtains sb e input_number where "cpus sb = (cpus s)[c := e]" "ski_active e"
    "sc_state (ski_cpu e) = SKI_CPU_BLOCKED_ON_ENTER" "\<not> sc_last_enter_cpu (ski_cpu e)"
    "sc_nr_cpus (ski_cpu e) = gh_nr_cpus hio"
    "option_at (opt_input_number s) (cpu_index (cpu_of s c)) = Inr input_number"
    "ws = [set_enter_res (if input_number \<noteq> 0 then input_number else opt_seed s) hio]"
    "case ski_barrier sb c (gh_nr_cpus hio) SKI_CPU_BLOCKED_ON_ENTER SKI_CPU_RUNNING_TEST EXCP_SKI_ENTER_WAITING of
       (sa, Loop_exited) \<Rightarrow> s' = sa \<and> fl = Loop_exited
     | (sa, Returned) \<Rightarrow> ski_start_test (upd_sc c (\<lambda>sc. sc\<lparr>sc_last_enter_cpu := True\<rparr>) sa) c = Inr (s', fl)"
proof -
  define s1 where "s1 = upd_cpu c (\<lambda>e. e\<lparr>cpu_exception_index := -1,
               ski_cpu := (ski_cpu e)\<lparr>sc_priority := -1, sc_priority_adjust := 0, sc_blocked := True,
                 sc_nr_max_instr := gh_nr_instr hio, sc_nr_instr_executed_other := 0,
                 sc_nr_instr_executed := 0, sc_nr_cpus := gh_nr_cpus hio,
                 sc_cr3 := cpu_cr3 e, sc_gdt := cpu_gdt_base e, sc_state := SKI_CPU_BLOCKED_ON_ENTER\<rparr>\<rparr>)
      (ski_first_in_test (upd_cpu c (\<lambda>e. e\<lparr>ski_active := True\<rparr>) s))"
  have opts1: "opt_input_number s1 = opt_input_number s" "opt_seed s1 = opt_seed s"
    by (simp_all add: s1_def ski_first_in_test_def upd_cpu_def)
  obtain e1 where e1: "cpus s1 = (cpus s)[c := e1]" "ski_active e1" "cpu_index e1 = cpu_index (cpu_of s c)"
    "sc_state (ski_cpu e1) = SKI_CPU_BLOCKED_ON_ENTER" "sc_nr_cpus (ski_cpu e1) = gh_nr_cpus hio"
    using c by (auto simp: s1_def ski_first_in_test_def upd_cpu_def cpu_of_def)
  from ent obtain s2 input_number rs where s2: "ski_initialize_interrupts s1 c = Inr s2"
    and inp: "option_at (opt_input_number s2) (cpu_index (cpu_of s2 c)) = Inr input_number"
    and rs: "ski_liveness_init (int SKI_MA_ENTRIES_MAX) = Inr rs"
    unfolding enter_test_def Let_def s1_def[symmetric] by (auto simp: bind_res_eq_Inr)
  define sb where "sb = upd_sc c (\<lambda>sc. sc\<lparr>sc_nr_syscalls_self := 0, sc_nr_interrupts_self := 0,
                    sc_nr_syscalls_other := 0, sc_nr_interrupts_other := 0, sc_last_enter_cpu := False,
                    sc_cpu_rs := rs\<rparr>) s2"
  let ?w = "set_enter_res (if input_number \<noteq> 0 then input_number else opt_seed s2) hio"
  from ent have res: "(case ski_barrier sb c (sc_nr_cpus (sc_of sb c)) SKI_CPU_BLOCKED_ON_ENTER SKI_CPU_RUNNING_TEST
                    EXCP_SKI_ENTER_WAITING of
               (s, Loop_exited) \<Rightarrow> Inr (s, Loop_exited, [?w])
             | (s, Returned) \<Rightarrow>
                 bind_res (ski_start_test (upd_sc c (\<lambda>sc. sc\<lparr>sc_last_enter_cpu := True\<rparr>) s) c)
                   (\<lambda>(s, fl). Inr (s, fl, [?w]))) = Inr (s', fl, ws)"
    unfolding enter_test_def Let_def s1_def[symmetric] s2 inp rs bind_res.simps sb_def[symmetric] .
  have sh2: "cpus s2 = cpus (upd_sc c (\<lambda>sc. sc\<lparr>sc_ignore_interrupts := foldl ski_set_bit zero_bitmap ignored_vectors,
      sc_interrupts_stack := replicate SKI_MAX_INTERRUPTS_STACK zero_si, sc_interrupts_stack_no := 0\<rparr>) s1)"
    "opt_input_number s2 = opt_input_number s" "opt_seed s2 = opt_seed s"
    by (subst initialize_interrupts_shape[OF s2], simp add: upd_sc_def upd_cpu_def opts1)+
  let ?e = "cpus sb ! c"
  have "cpus sb = (cpus s)[c := ?e]" "ski_active ?e" "sc_state (ski_cpu ?e) = SKI_CPU_BLOCKED_ON_ENTER"
    "\<not> sc_last_enter_cpu (ski_cpu ?e)" and nr: "sc_nr_cpus (ski_cpu ?e) = gh_nr_cpus hio"
    using c e1 by (simp_all add: sb_def upd_sc_def upd_cpu_def sh2(1))
  moreover have "cpu_index (cpu_of s2 c) = cpu_index (cpu_of s c)"
    using c e1 by (simp add: upd_sc_def upd_cpu_def sh2(1) cpu_of_def)
  then have "option_at (opt_input_number s) (cpu_index (cpu_of s c)) = Inr input_number"
    using inp sh2(2) by simp
  moreover have "sc_nr_cpus (sc_of sb c) = gh_nr_cpus hio" using nr by (simp add: sc_of_def)
  note res[unfolded this]
  ultimately show thesis
    using sh2(3) by (intro that[of sb ?e input_number])
      (auto simp: bind_res_eq_Inr split: prod.splits flow.splits)
qed

lemma start_test_shape:
  assumes "ski_start_test s c = Inr (s', fl)" "c < length (cpus s)"
  shows "fl = Loop_exited" "length (cpus s') = length (cpus s)"
    "cpu_exception_index (cpu_of s' c) = EXCP_SKI_SCHEDULER"
    "d < length (cpus s) \<Longrightarrow> ski_active (cpu_of s' d) = ski_active (cpu_of s d)"
    "d < length (cpus s) \<Longrightarrow> sc_state (sc_of s' d) = sc_state (sc_of s d)"
    "d < length (cpus s) \<Longrightarrow> sc_last_enter_cpu (sc_of s' d) = sc_last_enter_cpu (sc_of s d)"
proof -
  from assms(1) obtain s1 where s1: "ski_threads_initialize s (opt_priorities_file s) = Inr s1"
    and s': "s' = upd_cpu c (\<lambda>e. e\<lparr>cpu_exception_index := EXCP_SKI_SCHEDULER\<rparr>) (ski_nontesting_cpus_block s1)"
    and "fl = Loop_exited" by (auto simp: ski_start_test_def Let_def bind_res_eq_Inr)
  note cp = threads_initialize_cpus[OF s1]
  have len: "length (cpus (ski_nontesting_cpus_block s1)) = length (cpus s)"
    by (simp add: ski_nontesting_cpus_block_def cp)
  have at: "ski_active (cpu_of (ski_nontesting_cpus_block s1) d) = ski_active (cpu_of s d)"
    "sc_state (sc_of (ski_nontesting_cpus_block s1) d) = sc_state (sc_of s d)"
    "sc_last_enter_cpu (sc_of (ski_nontesting_cpus_block s1) d) = sc_last_enter_cpu (sc_of s d)"
    if "d < length (cpus s)" for d
    using that by (simp_all add: ski_nontesting_cpus_block_def cp cpu_of_def sc_of_def)
  show "fl = Loop_exited" by fact
  show "length (cpus s') = length (cpus s)" by (simp add: s' len)
  show "cpu_exception_index (cpu_of s' c) = EXCP_SKI_SCHEDULER" using assms(2) by (simp add: s' len)
  show "d < length (cpus s) \<Longrightarrow> ski_active (cpu_of s' d) = ski_active (cpu_of s d)"
    using assms(2) at by (simp add: s' len)
  show "d < length (cpus s) \<Longrightarrow> sc_state (sc_of s' d) = sc_state (sc_of s d)"
    "d < length (cpus s) \<Longrightarrow> sc_last_enter_cpu (sc_of s' d) = sc_last_enter_cpu (sc_of s d)"
    using at by (simp_all add: s')
qed

lemma barrier_active:
  "ski_barrier s c n old new exc = (s', fl) \<Longrightarrow> d < length (cpus s) \<Longrightarrow> c < length (cpus s) \<Longrightarrow>
    ski_active (cpu_of s' d) = ski_active (cpu_of s d) \<and>
    sc_last_enter_cpu (sc_of s' d) = sc_last_enter_cpu (sc_of s d) \<and>
    (fl = Loop_exited \<longrightarrow> cpu_exception_index (cpu_of s' c) = exc)"
  by (auto simp: ski_barrier_def Let_def split: if_splits) (auto simp: cpu_of_def sc_of_def)

lemma cpu_active_upd_sc [simp]: "ski_active (cpu_of (upd_sc c f s) d) = ski_active (cpu_of s d)"
  by (cases "c < length (cpus s)")
    (auto simp: cpu_of_def upd_sc_def upd_cpu_def nth_list_update_if list_update_beyond)

text \<open>
  C37: entering a test never returns to the guest directly.  If with the entering CPU as many
  CPUs wait as the guest asked for, the test starts: the CPU leaves for the scheduler, is marked
  as the last one, and every waiting CPU is in the running state.  Otherwise the CPU leaves to
  wait, in the waiting state and not marked.
\<close>

theorem enter_waits_or_starts:
  assumes c: "c < length (cpus s)" and ent: "enter_test s c hio = Inr (s', fl, ws)"
  shows "let waiting = insert c (waiting_set SKI_CPU_BLOCKED_ON_ENTER s) in
    fl = Loop_exited \<and> ski_active (cpu_of s' c) \<and>
    (if gh_nr_cpus hio = int (card waiting)
     then cpu_exception_index (cpu_of s' c) = EXCP_SKI_SCHEDULER \<and> sc_last_enter_cpu (sc_of s' c) \<and>
       (\<forall>d\<in>waiting. sc_state (sc_of s' d) = SKI_CPU_RUNNING_TEST)
     else cpu_exception_index (cpu_of s' c) = EXCP_SKI_ENTER_WAITING \<and> \<not> sc_last_enter_cpu (sc_of s' c) \<and>
       sc_state (sc_of s' c) = SKI_CPU_BLOCKED_ON_ENTER)"
proof -
  let ?W = "insert c (waiting_set SKI_CPU_BLOCKED_ON_ENTER s)"
  obtain sb e input_number where sb: "cpus sb = (cpus s)[c := e]"
    "ski_active e" "sc_state (ski_cpu e) = SKI_CPU_BLOCKED_ON_ENTER" "\<not> sc_last_enter_cpu (ski_cpu e)"
    "sc_nr_cpus (ski_cpu e) = gh_nr_cpus hio"
    "option_at (opt_input_number s) (cpu_index (cpu_of s c)) = Inr input_number"
    "ws = [set_enter_res (if input_number \<noteq> 0 then input_number else opt_seed s) hio]"
    and res: "case ski_barrier sb c (gh_nr_cpus hio) SKI_CPU_BLOCKED_ON_ENTER SKI_CPU_RUNNING_TEST EXCP_SKI_ENTER_WAITING of
       (sa, Loop_exited) \<Rightarrow> s' = sa \<and> fl = Loop_exited
     | (sa, Returned) \<Rightarrow> ski_start_test (upd_sc c (\<lambda>sc. sc\<lparr>sc_last_enter_cpu := True\<rparr>) sa) c = Inr (s', fl)"
    by (rule enter_test_barrier[OF c ent])
  have W: "waiting_set SKI_CPU_BLOCKED_ON_ENTER sb = ?W"
    using c sb by (auto simp: waiting_set_def sc_of_def nth_list_update split: if_splits)
  have len: "length (cpus sb) = length (cpus s)" "c < length (cpus sb)" using sb(1) c by simp_all
  have ce: "cpu_of sb c = e" "sc_of sb c = ski_cpu e" using sb(1) c by (simp_all add: cpu_of_def sc_of_def)
  obtain sa fb where b: "ski_barrier sb c (gh_nr_cpus hio) SKI_CPU_BLOCKED_ON_ENTER SKI_CPU_RUNNING_TEST
      EXCP_SKI_ENTER_WAITING = (sa, fb)" by force
  note bc = barrier_cases[OF b, unfolded W len(1)]
  note ba = barrier_active[OF b _ len(2), unfolded len(1)]
  show ?thesis
  proof (cases fb)
    case Loop_exited
    with res b have "s' = sa" "fl = Loop_exited" by simp_all
    with Loop_exited bc ba[OF c] c ce sb show ?thesis by (auto simp: Let_def split: if_splits)
  next
    case Returned
    with res b have st: "ski_start_test (upd_sc c (\<lambda>sc. sc\<lparr>sc_last_enter_cpu := True\<rparr>) sa) c = Inr (s', fl)"
      by simp
    have sub: "\<forall>d\<in>?W. d < length (cpus s)" using c by (auto simp: waiting_set_def)
    have lsa: "c < length (cpus sa)" "length (cpus sa) = length (cpus s)" using bc(1) c by simp_all
    note ss = start_test_shape[OF st, simplified, OF lsa(1), unfolded lsa(2)]
    show ?thesis
      using Returned bc ba[OF c] ce sb ss(1-3) ss(4-6)[OF c] ss(5) sub lsa
      by (auto simp: Let_def split: if_splits)
  qed
qed

lemma initialize_interrupts_idle:
  assumes "c < length (cpus s)" and "apic_isr (cpu_apic (cpu_of s c)) = zero_bitmap"
  shows "ski_initialize_interrupts s c =
    Inr (upd_sc c (\<lambda>sc. sc\<lparr>sc_ignore_interrupts := foldl ski_set_bit zero_bitmap ignored_vectors,
      sc_interrupts_stack := replicate SKI_MAX_INTERRUPTS_STACK zero_si, sc_interrupts_stack_no := 0\<rparr>) s)"
proof -
  let ?s = "upd_sc c (\<lambda>sc. sc\<lparr>sc_ignore_interrupts := foldl ski_set_bit zero_bitmap ignored_vectors,
      sc_interrupts_stack := replicate SKI_MAX_INTERRUPTS_STACK zero_si, sc_interrupts_stack_no := 0\<rparr>) s"
  have "apic_isr (cpu_apic (cpu_of ?s c)) = zero_bitmap" using assms by (simp add: upd_sc_def)
  then have "fold_res (\<lambda>s i. if ski_apic_check_interrupt_set i (cpu_apic (cpu_of s c))
      then ski_handle_new_irq_set s c (int i) else Inr s) ?s is = Inr ?s" if "\<forall>i\<in>set is. i < 256" for "is"
    using that by (induction "is") (simp_all add: ski_apic_check_interrupt_set_def)
  from this[of "[0..<255]"] show ?thesis by (simp add: ski_initialize_interrupts_def)
qed

definition sample_hio :: hypercall_io where
  "sample_hio = \<lparr>hio_magic_start = 0x33556677, hio_size = 144, hio_type = 1,
    hio_p = [100, 2] @ replicate 30 0, hio_magic_end = 0x12345678\<rparr>"

text \<open>A CPU without pending vectors enters and waits for the others.\<close>

lemma enter_test_waits:
  assumes c: "c < length (cpus s)" and isr: "apic_isr (cpu_apic (cpu_of s c)) = zero_bitmap"
    and idx: "option_at (opt_input_number s) (cpu_index (cpu_of s c)) = Inr input_number"
    and few: "gh_nr_cpus hio \<noteq> int (card (insert c (waiting_set SKI_CPU_BLOCKED_ON_ENTER s)))"
  shows "\<exists>s' ws. enter_test s c hio = Inr (s', Loop_exited, ws)"
proof -
  define s1 where "s1 = upd_cpu c (\<lambda>e. e\<lparr>cpu_exception_index := -1,
               ski_cpu := (ski_cpu e)\<lparr>sc_priority := -1, sc_priority_adjust := 0, sc_blocked := True,
                 sc_nr_max_instr := gh_nr_instr hio, sc_nr_instr_executed_other := 0,
                 sc_nr_instr_executed := 0, sc_nr_cpus := gh_nr_cpus hio,
                 sc_cr3 := cpu_cr3 e, sc_gdt := cpu_gdt_base e, sc_state := SKI_CPU_BLOCKED_ON_ENTER\<rparr>\<rparr>)
      (ski_first_in_test (upd_cpu c (\<lambda>e. e\<lparr>ski_active := True\<rparr>) s))"
  define s2 where "s2 = upd_sc c (\<lambda>sc. sc\<lparr>sc_ignore_interrupts := foldl ski_set_bit zero_bitmap ignored_vectors,
      sc_interrupts_stack := replicate SKI_MAX_INTERRUPTS_STACK zero_si, sc_interrupts_stack_no := 0\<rparr>) s1"
  obtain e1 where e1: "cpus s1 = (cpus s)[c := e1]" "cpu_index e1 = cpu_index (cpu_of s c)"
    "cpu_apic e1 = cpu_apic (cpu_of s c)" "sc_state (ski_cpu e1) = SKI_CPU_BLOCKED_ON_ENTER"
    "sc_nr_cpus (ski_cpu e1) = gh_nr_cpus hio"
    using c by (auto simp: s1_def ski_first_in_test_def upd_cpu_def cpu_of_def)
  have s2: "ski_initialize_interrupts s1 c = Inr s2"
    unfolding s2_def using c e1 isr by (intro initialize_interrupts_idle) (simp_all add: cpu_of_def)
  have inp: "option_at (opt_input_number s2) (cpu_index (cpu_of s2 c)) = Inr input_number"
    using c e1 idx by (simp add: s2_def upd_sc_def upd_cpu_def cpu_of_def s1_def ski_first_in_test_def)
  define rs where "rs = zero_ma\<lparr>ma_max_entries := int SKI_MA_ENTRIES_MAX, ma_is_initialized := 1\<rparr>"
  have rs: "ski_liveness_init (int SKI_MA_ENTRIES_MAX) = Inr rs" by (simp add: rs_def)
  define sb where "sb = upd_sc c (\<lambda>sc. sc\<lparr>sc_nr_syscalls_self := 0, sc_nr_interrupts_self := 0,
                    sc_nr_syscalls_other := 0, sc_nr_interrupts_other := 0, sc_last_enter_cpu := False,
                    sc_cpu_rs := rs\<rparr>) s2"
  have nr: "sc_nr_cpus (sc_of sb c) = gh_nr_cpus hio"
    using c e1 by (simp add: sb_def s2_def) (simp add: sc_of_def)
  have "waiting_set SKI_CPU_BLOCKED_ON_ENTER sb = insert c (waiting_set SKI_CPU_BLOCKED_ON_ENTER s)"
    using c e1 by (auto simp: waiting_set_def sb_def s2_def)
      (auto simp: sc_of_def nth_list_update split: if_splits)
  moreover obtain sa fb where b: "ski_barrier sb c (gh_nr_cpus hio) SKI_CPU_BLOCKED_ON_ENTER SKI_CPU_RUNNING_TEST
      EXCP_SKI_ENTER_WAITING = (sa, fb)" by force
  ultimately have "fb = Loop_exited" using barrier_cases(2)[OF b] few by simp
  then show ?thesis
    unfolding enter_test_def Let_def s1_def[symmetric] s2 inp rs bind_res.simps sb_def[symmetric] nr b
    by simp
qed

lemma sample_enter: "\<exists>s' ws. enter_test sample_state 0 sample_hio = Inr (s', Loop_exited, ws)"
proof (rule enter_test_waits)
  have "card (insert 0 (waiting_set SKI_CPU_BLOCKED_ON_ENTER sample_state)) = 1"
    using all_less_2[of "\<lambda>c. sc_state (sc_of sample_state c) \<noteq> SKI_CPU_BLOCKED_ON_ENTER"]
    by (simp add: waiting_set_def sc_of_def blank_cpu_def blank_sc_def numeral_2_eq_2)
  then show "gh_nr_cpus sample_hio \<noteq> int (card (insert 0 (waiting_set SKI_CPU_BLOCKED_ON_ENTER sample_state)))"
    by (simp add: gh_nr_cpus_def sample_hio_def)
qed (simp_all add: cpu_of_def blank_cpu_def blank_apic_def option_at_def sample_state_def blank_state_def)

theorem enter_waits_or_starts_witness:
  "\<exists>s' ws. enter_test sample_state 0 sample_hio = Inr (s', Loop_exited, ws) \<and>
    sc_state (sc_of s' 0) = SKI_CPU_BLOCKED_ON_ENTER"
proof -
  from sample_enter obtain s' ws where e: "enter_test sample_state 0 sample_hio = Inr (s', Loop_exited, ws)" by blast
  have "waiting_set SKI_CPU_BLOCKED_ON_ENTER sample_state = {}"
    using all_less_2[of "\<lambda>c. sc_state (sc_of sample_state c) \<noteq> SKI_CPU_BLOCKED_ON_ENTER"]
    by (simp add: waiting_set_def sc_of_def blank_cpu_def blank_sc_def numeral_2_eq_2)
  with enter_waits_or_starts[OF _ e] e show ?thesis
    by (auto simp: gh_nr_cpus_def sample_hio_def)
qed

text \<open>
  The input number of a CPU as sent to the guest when it enters the test and when the test
  is resumed from a snapshot.  The two agree exactly when the input number is positive or
  equal to the seed: on entry the value 0, on resume a negative value means \<open>use the seed\<close>.
\<close>

theorem enter_and_resume_values:
  assumes c: "c < length (cpus s)" and idx: "option_at (opt_input_number s) (cpu_index (cpu_of s c)) = Inr input_number"
    and ent: "enter_test s c hio = Inr (s1, fl, ws)" and res: "ski_snapshot_reinitialize_cpu s c hio = Inr (s2, w)"
    and "length (hio_p hio) = 32" and "c_int input_number" and "c_int (opt_seed s)"
  shows "ws = [w] \<longleftrightarrow> input_number > 0 \<or> input_number = opt_seed s"
proof -
  obtain sb e input_number' where
    "option_at (opt_input_number s) (cpu_index (cpu_of s c)) = Inr input_number'"
    "ws = [set_enter_res (if input_number' \<noteq> 0 then input_number' else opt_seed s) hio]"
    by (rule enter_test_barrier[OF c ent])
  then have ws: "ws = [set_enter_res (if input_number \<noteq> 0 then input_number else opt_seed s) hio]"
    using idx by simp
  have w: "w = set_enter_res (if input_number > -1 then input_number else opt_seed s) hio"
    using res idx by (auto simp: ski_snapshot_reinitialize_cpu_def)
  have inj: "set_enter_res a hio = set_enter_res b hio \<longleftrightarrow> a = b" if "c_int a" "c_int b" for a b
  proof
    assume "set_enter_res a hio = set_enter_res b hio"
    then have "hio_p (set_enter_res a hio) ! 3 = hio_p (set_enter_res b hio) ! 3" by simp
    then have "sint (word_of_int a :: 32 word) = sint (word_of_int b :: 32 word)"
      using assms(5) by (simp add: set_enter_res_def)
    with that show "a = b" by (simp add: c_int_def sint_sbintrunc' signed_take_bit_int_eq_self)
  qed simp
  show ?thesis using ws w inj assms(6,7) by auto
qed

theorem enter_and_resume_values_witness:
  "\<exists>s1 fl ws s2 w. enter_test sample_state 0 sample_hio = Inr (s1, fl, ws) \<and>
    ski_snapshot_reinitialize_cpu sample_state 0 sample_hio = Inr (s2, w) \<and> ws \<noteq> [w]"
proof -
  from sample_enter obtain s1 ws where e: "enter_test sample_state 0 sample_hio = Inr (s1, Loop_exited, ws)" by blast
  have i: "option_at (opt_input_number sample_state) (cpu_index (cpu_of sample_state 0)) = Inr (-1)"
    by (simp add: cpu_of_def blank_cpu_def option_at_def sample_state_def blank_state_def)
  then obtain s2 w where r: "ski_snapshot_reinitialize_cpu sample_state 0 sample_hio = Inr (s2, w)"
    by (simp add: ski_snapshot_reinitialize_cpu_def)
  have "\<not> ws = [w]"
    by (subst enter_and_resume_values[OF _ i e r])
      (simp_all add: sample_hio_def c_int_def sample_state_def blank_state_def)
  with e r show ?thesis by blast
qed

text \<open>
  C36: leaving a test.  A CPU outside a test is ignored.  A CPU in a test receives its counters
  and waits until the last CPU leaves; at that moment the run stops at the trap that marks the
  end of the test, or, with traps switched off, every CPU is out of the test with its part of
  the state cleared.
\<close>

theorem exit_ends_test:
  assumes c: "c < length (cpus s)" and act: "ski_active (cpu_of s c)"
    and opt: "\<not> (opt_forkall_enabled s \<and> opt_exit_after_hypercall s)"
  shows "let is_last = (sc_nr_cpus (sc_of s c) = int (card (insert c (waiting_set SKI_CPU_BLOCKED_ON_EXIT s))));
      stats = set_exit_stats (sc_of s c) hio in
    case exit_test s c hio of
      Inl e \<Rightarrow> e = Int3_trap \<and> is_last \<and> opt_trap_enabled s
    | Inr (s', Loop_exited, out) \<Rightarrow> \<not> is_last \<and> out = [stats] \<and>
        sc_state (sc_of s' c) = SKI_CPU_BLOCKED_ON_EXIT \<and>
        cpu_exception_index (cpu_of s' c) = EXCP_SKI_EXIT_WAITING
    | Inr (s', Returned, out) \<Rightarrow> is_last \<and> \<not> opt_trap_enabled s \<and> out = [stats] \<and>
        (\<forall>d < length (cpus s). \<not> ski_active (cpu_of s' d) \<and> sc_of s' d = zero_sc)"
proof -
  let ?s = "upd_sc c (\<lambda>sc. sc\<lparr>sc_state := SKI_CPU_BLOCKED_ON_EXIT\<rparr>) s"
  obtain sa fl where b: "ski_barrier ?s c (sc_nr_cpus (sc_of s c)) SKI_CPU_BLOCKED_ON_EXIT SKI_CPU_NA
      EXCP_SKI_EXIT_WAITING = (sa, fl)" by force
  have bc: "length (cpus sa) = length (cpus s)"
    "fl = (if sc_nr_cpus (sc_of s c) = int (card (insert c (waiting_set SKI_CPU_BLOCKED_ON_EXIT s)))
       then Returned else Loop_exited)"
    "sc_state (sc_of sa c) = (if fl = Returned then SKI_CPU_NA else SKI_CPU_BLOCKED_ON_EXIT)"
    using barrier_cases[OF b] c by auto
  have len: "length (cpus sa) = length (cpus s)" using bc(1) .
  have opts: "opt_forkall_enabled sa = opt_forkall_enabled s" "opt_exit_after_hypercall sa = opt_exit_after_hypercall s"
    "opt_trap_enabled sa = opt_trap_enabled s"
    using b by (auto simp: ski_barrier_def Let_def upd_sc_def upd_cpu_def split: if_splits)
  have st: "set_exit_stats (sc_of ?s c) hio = set_exit_stats (sc_of s c) hio"
    "sc_nr_cpus (sc_of ?s c) = sc_nr_cpus (sc_of s c)" using c by (simp_all add: set_exit_stats_def)
  have dead: "\<not> ski_active (cpu_of (ski_deactivate_all_cpu sa) d) \<and> sc_of (ski_deactivate_all_cpu sa) d = zero_sc"
    if "d < length (cpus s)" for d
    using that len by (simp add: ski_deactivate_all_cpu_def ski_nontesting_cpus_unblock_def Let_def cpu_of_def sc_of_def)
  have e: "exit_test s c hio = (case (sa, fl) of
               (s1, Loop_exited) \<Rightarrow> Inr (s1, Loop_exited, [set_exit_stats (sc_of s c) hio])
             | (s1, Returned) \<Rightarrow>
                 bind_res (SKI_ASSERT_MSG (\<not> (opt_forkall_enabled s1 \<and> opt_exit_after_hypercall s1))
                   SKI_EXIT_AFTER_HYPERCALL) (\<lambda>_.
                 bind_res (ski_last_in_test s1) (\<lambda>_.
                   Inr (ski_deactivate_all_cpu s1, Returned, [set_exit_stats (sc_of s c) hio]))))"
    using act unfolding exit_test_def Let_def st b by simp
  show ?thesis
  proof (cases fl)
    case Loop_exited
    with bc(2,3) barrier_active[OF b, of c] c show ?thesis
      by (auto simp: e Let_def split: if_splits)
  next
    case Returned
    with bc(2) opt dead show ?thesis
      by (auto simp: e opts Let_def ski_last_in_test_def SKI_ASSERT_def split: if_splits)
  qed
qed

theorem exit_ends_test_witness:
  "\<exists>s' out. exit_test sample_state 0 sample_hio = Inr (s', Loop_exited, out) \<and>
    sc_state (sc_of s' 0) = SKI_CPU_BLOCKED_ON_EXIT"
proof -
  have w: "waiting_set SKI_CPU_BLOCKED_ON_EXIT sample_state = {}"
    using all_less_2[of "\<lambda>c. sc_state (sc_of sample_state c) \<noteq> SKI_CPU_BLOCKED_ON_EXIT"]
    by (simp add: waiting_set_def sc_of_def blank_cpu_def blank_sc_def numeral_2_eq_2)
  have "sc_nr_cpus (sc_of sample_state 0) = 2" "ski_active (cpu_of sample_state 0)"
    "\<not> opt_forkall_enabled sample_state"
    by (simp_all add: sc_of_def cpu_of_def blank_cpu_def blank_sc_def sample_state_def blank_state_def)
  with exit_ends_test[of 0 sample_state sample_hio] show ?thesis
    by (auto simp: w Let_def split: sum.splits prod.splits flow.splits)
qed

fun debug_calls :: "ski_state \<Rightarrow> hypercall_io list \<Rightarrow> ski_state res" where
  "debug_calls s [] = Inr s"
| "debug_calls s (h # hs) = bind_res (debug_call s h) (\<lambda>(s, _, _). debug_calls s hs)"

lemma debug_calls_count:
  assumes "\<forall>h\<in>set hs. gh_msg h = ''END INFO''" "opt_quit_hypercall_threshold s \<noteq> 0"
    "ski_quit_hypercall_counter s + int (length hs) < opt_quit_hypercall_threshold s"
  shows "debug_calls s hs = Inr (s\<lparr>ski_quit_hypercall_counter := ski_quit_hypercall_counter s + int (length hs)\<rparr>)"
  using assms
proof (induction hs arbitrary: s)
  case (Cons h hs)
  let ?s = "s\<lparr>ski_quit_hypercall_counter := ski_quit_hypercall_counter s + 1\<rparr>"
  have "debug_call s h = Inr (?s, Returned, [])" using Cons.prems by (simp add: debug_call_def Let_def)
  moreover have "debug_calls ?s hs = Inr (?s\<lparr>ski_quit_hypercall_counter := ski_quit_hypercall_counter ?s + int (length hs)\<rparr>)"
    using Cons.prems by (intro Cons.IH) simp_all
  ultimately show ?case by (simp add: add.assoc)
qed simp

lemma debug_calls_append: "debug_calls s (xs @ ys) = bind_res (debug_calls s xs) (\<lambda>s. debug_calls s ys)"
  by (induction xs arbitrary: s) (auto split: prod.splits intro: bind_res_cong)

text \<open>
  The quit message.  With a threshold \<open>n > 0\<close> and the counter at 0, the first \<open>n - 1\<close>
  quit messages only count and the \<open>n\<close>-th ends the process with the success code.
\<close>

theorem quit_after_threshold:
  assumes "\<forall>h\<in>set hs. gh_msg h = ''END INFO''" and "ski_quit_hypercall_counter s = 0"
    and "opt_quit_hypercall_threshold s = int (length hs)" and "hs \<noteq> []"
  shows "debug_calls s hs = Inl (Ski_exit SKI_EXIT_OK) \<and> (\<exists>s'. debug_calls s (butlast hs) = Inr s')"
proof -
  obtain h hs' where hs: "hs = hs' @ [h]" using assms(4) by (metis append_butlast_last_id)
  have "debug_calls s hs' = Inr (s\<lparr>ski_quit_hypercall_counter := int (length hs')\<rparr>)"
    using debug_calls_count[of hs' s] assms(1-3) hs by simp
  then show ?thesis
    using assms hs by (simp add: debug_calls_append debug_call_def Let_def)
qed

definition sample_quit :: hypercall_io where
  "sample_quit = sample_hio\<lparr>hio_type := 3, hio_p := [0x20444e45, 0x4f464e49] @ replicate 30 0\<rparr>"

lemma sample_quit_chars:
  "word_chars 0x20444e45 = ''END ''" "word_chars 0x4f464e49 = ''INFO''"
  "word_chars 0 = [CHR 0x00, CHR 0x00, CHR 0x00, CHR 0x00]"
  by (simp_all add: word_chars_def char_of_def bit_iff_odd)

theorem quit_after_threshold_witness:
  "debug_calls (sample_state\<lparr>opt_quit_hypercall_threshold := 2\<rparr>) [sample_quit, sample_quit] = Inl (Ski_exit SKI_EXIT_OK)"
proof -
  have "gh_msg sample_quit = ''END INFO''"
    by (simp add: gh_msg_def sample_quit_def sample_quit_chars numeral_eq_Suc)
  then show ?thesis
    using quit_after_threshold[of "[sample_quit, sample_quit]" "sample_state\<lparr>opt_quit_hypercall_threshold := 2\<rparr>"]
    by (simp add: sample_state_def blank_state_def)
qed

end
