(* ===== verification/Ski_Detectors.thy ===== *)
theory Ski_Detectors
  imports Ski_Prelude
begin

text \<open>
  The data race detector (\<open>vmm/ski-race-detector.h\<close>, \<open>vmm/ski-race-detector.c\<close>) and the
  instruction detector (\<open>vmm/ski-instruction-detector.h\<close>, \<open>vmm/ski-instruction-detector.c\<close>).
  The race detector is shown to report, over a whole trace, exactly the conflicts between an
  access and the latest access of every other CPU; the instruction detector to count exactly
  the executions of the listed instructions.  Their report files are output.
\<close>

section \<open>Race detector\<close>

abbreviation (input) SKI_RACE_DETECTOR_RACES_MAX :: nat where "SKI_RACE_DETECTOR_RACES_MAX \<equiv> 1024"
abbreviation (input) SKI_RD_MAX_CPU :: nat where "SKI_RD_MAX_CPU \<equiv> 4"

record ski_rd_memory_access =
  ra_cpu :: int
  ra_physical_memory_address :: int
  ra_ip_address :: int
  ra_length :: int
  ra_is_read :: int
  ra_instruction_count :: int

text \<open>The array \<open>races\<close> with its fill count is the list of its entries.\<close>

record ski_race_detector =
  rd_last_access_per_cpu :: "ski_rd_memory_access list"
  rd_races :: "(ski_rd_memory_access \<times> ski_rd_memory_access) list"
  rd_total_races :: int

definition ski_race_detector_init :: ski_race_detector where
  "ski_race_detector_init =
    \<lparr>rd_last_access_per_cpu = map (\<lambda>i. \<lparr>ra_cpu = int i, ra_physical_memory_address = 0,
        ra_ip_address = 0, ra_length = 0, ra_is_read = 0, ra_instruction_count = 0\<rparr>) [0..<SKI_RD_MAX_CPU],
     rd_races = [], rd_total_races = 0\<rparr>"

definition ski_race_detector_save_race ::
  "ski_race_detector \<Rightarrow> ski_rd_memory_access \<Rightarrow> ski_rd_memory_access \<Rightarrow> ski_race_detector" where
  "ski_race_detector_save_race rd m1 m2 =
    (let rd = rd\<lparr>rd_total_races := rd_total_races rd + 1\<rparr>
     in if length (rd_races rd) < SKI_RACE_DETECTOR_RACES_MAX
        then rd\<lparr>rd_races := rd_races rd @ [(m1, m2)]\<rparr> else rd)"

definition ski_race_detector_is_race :: "ski_rd_memory_access \<Rightarrow> ski_rd_memory_access \<Rightarrow> bool res" where
  "ski_race_detector_is_race m1 m2 =
    bind_res (c_assert (ra_cpu m1 \<noteq> ra_cpu m2)) (\<lambda>_. Inr
      (if ra_is_read m1 \<noteq> 0 \<and> ra_is_read m2 \<noteq> 0 then False
       else if ra_length m1 = 0 \<or> ra_length m2 = 0 then False
       else if ra_physical_memory_address m1 \<le> ra_physical_memory_address m2 \<and>
               int32 (ra_physical_memory_address m1 + ra_length m1) > ra_physical_memory_address m2 then True
       else if ra_physical_memory_address m2 \<le> ra_physical_memory_address m1 \<and>
               int32 (ra_physical_memory_address m2 + ra_length m2) > ra_physical_memory_address m1 then True
       else False))"

definition race_step :: "nat \<Rightarrow> ski_race_detector \<Rightarrow> nat \<Rightarrow> ski_race_detector res" where
  "race_step c rd i =
    (if i \<noteq> c
     then let ma = rd_last_access_per_cpu rd ! c; ma2 = rd_last_access_per_cpu rd ! i
          in bind_res (ski_race_detector_is_race ma ma2) (\<lambda>b.
               Inr (if b then ski_race_detector_save_race rd ma ma2 else rd))
     else Inr rd)"

definition ski_race_detector_new_access ::
  "ski_race_detector \<Rightarrow> int \<Rightarrow> int \<Rightarrow> int \<Rightarrow> int \<Rightarrow> int \<Rightarrow> int \<Rightarrow> ski_race_detector res" where
  "ski_race_detector_new_access rd cpu physical_memory_address ip_address len is_read instruction_count =
    bind_res (c_assert (0 \<le> cpu \<and> cpu < int SKI_RD_MAX_CPU)) (\<lambda>_.
      let c = nat cpu;
          rd = rd\<lparr>rd_last_access_per_cpu := (rd_last_access_per_cpu rd)[c :=
                 (rd_last_access_per_cpu rd ! c)
                   \<lparr>ra_physical_memory_address := physical_memory_address, ra_ip_address := ip_address,
                    ra_length := len, ra_is_read := is_read, ra_instruction_count := instruction_count\<rparr>]\<rparr>
      in fold_res (race_step c) rd [0..<SKI_RD_MAX_CPU])"

section \<open>Instruction detector\<close>

abbreviation (input) SKI_INSTRUCTION_DETECTOR_ENTRIES_MAX :: nat where
  "SKI_INSTRUCTION_DETECTOR_ENTRIES_MAX \<equiv> 131072"

record ski_instruction_detector_entry =
  ide_eip_address :: "32 word"
  ide_count :: int

text \<open>
  The entries in the order of the array; the hash table over them is keyed by the address, so
  a lookup is the position of the entry with that address.
\<close>

record ski_instruction_detector =
  id_instructions :: "ski_instruction_detector_entry list"
  id_total_instructions :: int
  id_total_distinct_instructions :: int

definition ski_instruction_detector_init :: ski_instruction_detector where
  "ski_instruction_detector_init =
    \<lparr>id_instructions = [], id_total_instructions = 0, id_total_distinct_instructions = 0\<rparr>"

definition id_find :: "ski_instruction_detector \<Rightarrow> 32 word \<Rightarrow> nat option" where
  "id_find idt eip = index_from (\<lambda>e. ide_eip_address e = eip) 0 (id_instructions idt)"

definition ski_instruction_detector_add_entry ::
  "ski_instruction_detector \<Rightarrow> 32 word \<Rightarrow> ski_instruction_detector res" where
  "ski_instruction_detector_add_entry idt eip =
    (case id_find idt eip of
       None \<Rightarrow> bind_res (c_assert (length (id_instructions idt) < SKI_INSTRUCTION_DETECTOR_ENTRIES_MAX)) (\<lambda>_.
         Inr (idt\<lparr>id_instructions := id_instructions idt @ [\<lparr>ide_eip_address = eip, ide_count = 0\<rparr>]\<rparr>))
     | Some _ \<Rightarrow> Inl Assert_failed)"

definition ski_instruction_detector_reset_count ::
  "ski_instruction_detector \<Rightarrow> ski_instruction_detector" where
  "ski_instruction_detector_reset_count idt =
    idt\<lparr>id_instructions := map (\<lambda>e. e\<lparr>ide_count := 0\<rparr>) (id_instructions idt),
        id_total_instructions := 0, id_total_distinct_instructions := 0\<rparr>"

text \<open>The addresses of the list file up to the first line that is not a number.\<close>

definition ski_instruction_detector_load ::
  "ski_instruction_detector \<Rightarrow> 32 word list option \<Rightarrow> ski_instruction_detector res" where
  "ski_instruction_detector_load idt addresses =
    (case addresses of
       None \<Rightarrow> Inr idt
     | Some eips \<Rightarrow>
         bind_res (fold_res ski_instruction_detector_add_entry (ski_instruction_detector_reset_count idt) eips) (\<lambda>idt.
         bind_res (c_assert (id_instructions idt \<noteq> [])) (\<lambda>_. Inr idt)))"

definition ski_instruction_detector_new_access ::
  "bool \<Rightarrow> ski_instruction_detector \<Rightarrow> 32 word \<Rightarrow> ski_instruction_detector" where
  "ski_instruction_detector_new_access enabled idt eip =
    (if \<not> enabled then idt
     else case id_find idt eip of
         None \<Rightarrow> idt
       | Some k \<Rightarrow>
           let e = id_instructions idt ! k
           in idt\<lparr>id_instructions := (id_instructions idt)[k := e\<lparr>ide_count := ide_count e + 1\<rparr>],
                 id_total_instructions := id_total_instructions idt + 1,
                 id_total_distinct_instructions := id_total_distinct_instructions idt +
                   (if ide_count e = 0 then 1 else 0)\<rparr>)"

section \<open>Conflicts of a trace\<close>

definition bytes_of :: "ski_rd_memory_access \<Rightarrow> int set" where
  "bytes_of m = {ra_physical_memory_address m..<ra_physical_memory_address m + ra_length m}"

definition conflict :: "ski_rd_memory_access \<Rightarrow> ski_rd_memory_access \<Rightarrow> bool" where
  "conflict m1 m2 \<longleftrightarrow> (ra_is_read m1 = 0 \<or> ra_is_read m2 = 0) \<and> bytes_of m1 \<inter> bytes_of m2 \<noteq> {}"

definition latest_of :: "ski_rd_memory_access list \<Rightarrow> nat \<Rightarrow> ski_rd_memory_access option" where
  "latest_of tr i = find (\<lambda>m. ra_cpu m = int i) (rev tr)"

text \<open>The pairs of \<open>m\<close> with the latest conflicting accesses of the other CPUs in \<open>tr\<close>.\<close>

definition new_conflicts ::
  "ski_rd_memory_access list \<Rightarrow> ski_rd_memory_access \<Rightarrow> (ski_rd_memory_access \<times> ski_rd_memory_access) list" where
  "new_conflicts tr m = concat (map (\<lambda>i. case latest_of tr i of
      None \<Rightarrow> [] | Some m2 \<Rightarrow> if int i \<noteq> ra_cpu m \<and> conflict m m2 then [(m, m2)] else []) [0..<SKI_RD_MAX_CPU])"

fun trace_conflicts ::
  "ski_rd_memory_access list \<Rightarrow> ski_rd_memory_access list \<Rightarrow> (ski_rd_memory_access \<times> ski_rd_memory_access) list" where
  "trace_conflicts seen [] = []"
| "trace_conflicts seen (m # ms) = new_conflicts seen m @ trace_conflicts (seen @ [m]) ms"

definition access_ok :: "ski_rd_memory_access \<Rightarrow> bool" where
  "access_ok m \<longleftrightarrow> 0 \<le> ra_cpu m \<and> ra_cpu m < int SKI_RD_MAX_CPU \<and> 0 < ra_length m \<and>
    c_int (ra_physical_memory_address m) \<and> c_int (ra_physical_memory_address m + ra_length m)"

definition rd_access :: "ski_race_detector \<Rightarrow> ski_rd_memory_access \<Rightarrow> ski_race_detector res" where
  "rd_access rd m = ski_race_detector_new_access rd (ra_cpu m) (ra_physical_memory_address m) (ra_ip_address m)
    (ra_length m) (ra_is_read m) (ra_instruction_count m)"

lemma conflict_iff:
  assumes "0 < ra_length m1" and "0 \<le> ra_length m2"
  shows "conflict m1 m2 \<longleftrightarrow> (ra_is_read m1 = 0 \<or> ra_is_read m2 = 0) \<and> ra_length m2 \<noteq> 0 \<and>
    (let a1 = ra_physical_memory_address m1; a2 = ra_physical_memory_address m2
     in a1 \<le> a2 \<and> a2 < a1 + ra_length m1 \<or> a2 \<le> a1 \<and> a1 < a2 + ra_length m2)"
proof -
  have "{a..<a + l} \<inter> {b..<b + k} \<noteq> {} \<longleftrightarrow> k \<noteq> 0 \<and> (a \<le> b \<and> b < a + l \<or> b \<le> a \<and> a < b + k)"
    if "0 < l" "0 \<le> k" for a b l k :: int
  proof
    assume "{a..<a + l} \<inter> {b..<b + k} \<noteq> {}"
    then obtain x where "x \<in> {a..<a + l}" "x \<in> {b..<b + k}" by blast
    then show "k \<noteq> 0 \<and> (a \<le> b \<and> b < a + l \<or> b \<le> a \<and> a < b + k)" by auto
  next
    assume *: "k \<noteq> 0 \<and> (a \<le> b \<and> b < a + l \<or> b \<le> a \<and> a < b + k)"
    with that have "max a b \<in> {a..<a + l} \<inter> {b..<b + k}" by auto
    then show "{a..<a + l} \<inter> {b..<b + k} \<noteq> {}" by blast
  qed
  from this[OF assms] show ?thesis by (simp add: conflict_def bytes_of_def Let_def)
qed

lemma is_race_conflict:
  assumes "access_ok m1" and "access_ok m2 \<or> ra_length m2 = 0" and "ra_cpu m1 \<noteq> ra_cpu m2"
  shows "ski_race_detector_is_race m1 m2 = Inr (conflict m1 m2)"
  using assms conflict_iff[of m1 m2]
  by (auto simp: ski_race_detector_is_race_def access_ok_def Let_def)

text \<open>The detector after the trace \<open>tr\<close> with the conflicts \<open>cs\<close> reported.\<close>

definition rd_last_repr :: "ski_rd_memory_access list \<Rightarrow> ski_rd_memory_access list \<Rightarrow> bool" where
  "rd_last_repr las tr \<longleftrightarrow> length las = SKI_RD_MAX_CPU \<and>
    (\<forall>i < SKI_RD_MAX_CPU. ra_cpu (las ! i) = int i \<and>
      (case latest_of tr i of None \<Rightarrow> ra_length (las ! i) = 0 | Some m \<Rightarrow> las ! i = m))"

definition rd_races_repr ::
  "ski_race_detector \<Rightarrow> (ski_rd_memory_access \<times> ski_rd_memory_access) list \<Rightarrow> bool" where
  "rd_races_repr rd cs \<longleftrightarrow> rd_races rd = take SKI_RACE_DETECTOR_RACES_MAX cs \<and> rd_total_races rd = int (length cs)"

lemma rd_races_repr_save:
  "rd_races_repr rd cs \<Longrightarrow> rd_races_repr (ski_race_detector_save_race rd a b) (cs @ [(a, b)])"
  by (auto simp: rd_races_repr_def ski_race_detector_save_race_def Let_def)

lemma rd_last_save [simp]:
  "rd_last_access_per_cpu (ski_race_detector_save_race rd a b) = rd_last_access_per_cpu rd"
  by (simp add: ski_race_detector_save_race_def Let_def)

lemma latest_of_snoc: "latest_of (tr @ [m]) i = (if ra_cpu m = int i then Some m else latest_of tr i)"
  by (simp add: latest_of_def)

lemma latest_of_in: "latest_of tr i = Some m \<Longrightarrow> m \<in> set tr \<and> ra_cpu m = int i"
  using find_Some_iff[of "\<lambda>m. ra_cpu m = int i" "rev tr" m] nth_mem[of _ "rev tr"]
  by (auto simp: latest_of_def simp del: nth_mem)

lemma rd_last_repr_access:
  assumes "rd_last_repr las tr" and "access_ok m"
  shows "rd_last_repr (las[nat (ra_cpu m) := m]) (tr @ [m])"
proof -
  have "las[nat (ra_cpu m) := m] ! i = (if ra_cpu m = int i then m else las ! i)" if "i < 4" for i
    using assms that by (auto simp: rd_last_repr_def access_ok_def nth_list_update)
  with assms show ?thesis
    by (auto simp: rd_last_repr_def latest_of_snoc split: option.splits)
qed

lemma race_steps:
  assumes last_ok: "\<forall>i\<in>set is. i < SKI_RD_MAX_CPU \<and> (i \<noteq> c \<longrightarrow> ra_cpu (las ! i) \<noteq> ra_cpu (las ! c) \<and>
      (access_ok (las ! i) \<or> ra_length (las ! i) = 0))" and "access_ok (las ! c)"
    and "rd_last_access_per_cpu rd = las" and "rd_races_repr rd cs"
  shows "\<exists>rd'. fold_res (race_step c) rd is = Inr rd' \<and> rd_last_access_per_cpu rd' = las \<and>
    rd_races_repr rd' (cs @ concat (map (\<lambda>i. if i \<noteq> c \<and> conflict (las ! c) (las ! i) then [(las ! c, las ! i)] else []) is))"
  using assms
proof (induction "is" arbitrary: rd cs)
  case (Cons i "is")
  let ?rd = "if i \<noteq> c \<and> conflict (las ! c) (las ! i) then ski_race_detector_save_race rd (las ! c) (las ! i) else rd"
  let ?cs = "cs @ (if i \<noteq> c \<and> conflict (las ! c) (las ! i) then [(las ! c, las ! i)] else [])"
  have "race_step c rd i = Inr ?rd"
    using Cons.prems is_race_conflict[of "las ! c" "las ! i"]
    by (auto simp: race_step_def Let_def)
  moreover have "rd_last_access_per_cpu ?rd = las" "rd_races_repr ?rd ?cs"
    using Cons.prems by (auto intro: rd_races_repr_save)
  moreover obtain rd' where "fold_res (race_step c) ?rd is = Inr rd'" "rd_last_access_per_cpu rd' = las"
    "rd_races_repr rd' (?cs @ concat (map (\<lambda>i. if i \<noteq> c \<and> conflict (las ! c) (las ! i) then [(las ! c, las ! i)] else []) is))"
    using Cons.IH[of ?rd ?cs] Cons.prems calculation(2,3) by auto
  ultimately show ?case by auto
qed simp

lemma new_conflicts_last:
  assumes "rd_last_repr las tr" and "access_ok m"
  shows "concat (map (\<lambda>i. if i \<noteq> nat (ra_cpu m) \<and> conflict m (las ! i) then [(m, las ! i)] else []) [0..<SKI_RD_MAX_CPU])
    = new_conflicts tr m"
  unfolding new_conflicts_def
proof (rule arg_cong[where f = concat], rule map_cong[OF refl])
  fix i assume "i \<in> set [0..<SKI_RD_MAX_CPU]"
  then have i: "i < SKI_RD_MAX_CPU" by auto
  have "i \<noteq> nat (ra_cpu m) \<longleftrightarrow> int i \<noteq> ra_cpu m" using assms(2) by (auto simp: access_ok_def)
  moreover have "latest_of tr i = None \<Longrightarrow> \<not> conflict m (las ! i)"
    using assms i conflict_iff[of m "las ! i"] by (auto simp: rd_last_repr_def access_ok_def)
  ultimately show "(if i \<noteq> nat (ra_cpu m) \<and> conflict m (las ! i) then [(m, las ! i)] else []) =
      (case latest_of tr i of None \<Rightarrow> [] | Some m2 \<Rightarrow> if int i \<noteq> ra_cpu m \<and> conflict m m2 then [(m, m2)] else [])"
    using assms(1) i by (auto simp: rd_last_repr_def split: option.splits)
qed

lemma rd_access_step:
  assumes rl: "rd_last_repr (rd_last_access_per_cpu rd) tr" and rr: "rd_races_repr rd cs"
    and ok: "\<forall>m\<in>set tr. access_ok m" "access_ok m"
  shows "\<exists>rd'. rd_access rd m = Inr rd' \<and> rd_last_repr (rd_last_access_per_cpu rd') (tr @ [m]) \<and>
    rd_races_repr rd' (cs @ new_conflicts tr m)"
proof -
  let ?c = "nat (ra_cpu m)"
  let ?las = "rd_last_access_per_cpu rd"
  have c: "0 \<le> ra_cpu m" "ra_cpu m < 4" "?c < 4" "int ?c = ra_cpu m" using ok(2) by (auto simp: access_ok_def)
  have len: "length ?las = 4" and cpu: "\<And>i. i < 4 \<Longrightarrow> ra_cpu (?las ! i) = int i"
    using rl by (simp_all add: rd_last_repr_def)
  have m: "(?las ! ?c)\<lparr>ra_physical_memory_address := ra_physical_memory_address m, ra_ip_address := ra_ip_address m,
      ra_length := ra_length m, ra_is_read := ra_is_read m, ra_instruction_count := ra_instruction_count m\<rparr> = m"
    using cpu[OF c(3)] c(4) by simp
  let ?las' = "?las[?c := m]"
  let ?rd = "rd\<lparr>rd_last_access_per_cpu := ?las'\<rparr>"
  note rl' = rd_last_repr_access[OF rl ok(2)]
  have "\<exists>rd'. fold_res (race_step ?c) ?rd [0..<4] = Inr rd' \<and> rd_last_access_per_cpu rd' = ?las' \<and>
      rd_races_repr rd' (cs @ concat (map (\<lambda>i. if i \<noteq> ?c \<and> conflict (?las' ! ?c) (?las' ! i) then [(?las' ! ?c, ?las' ! i)] else []) [0..<4]))"
  proof (rule race_steps)
    show "\<forall>i\<in>set [0..<4]. i < 4 \<and> (i \<noteq> ?c \<longrightarrow> ra_cpu (?las' ! i) \<noteq> ra_cpu (?las' ! ?c) \<and>
      (access_ok (?las' ! i) \<or> ra_length (?las' ! i) = 0))"
    proof (intro ballI conjI impI)
      fix i assume "i \<in> set [0..<4]"
      then show i: "i < 4" by (simp only: set_upt) simp
      assume ne: "i \<noteq> ?c"
      then show "ra_cpu (?las' ! i) \<noteq> ra_cpu (?las' ! ?c)" using cpu[OF i] c len by auto
      show "access_ok (?las' ! i) \<or> ra_length (?las' ! i) = 0"
        using ne i rl latest_of_in[of tr i] ok(1) by (auto simp: rd_last_repr_def split: option.splits)
    qed
    show "access_ok (?las' ! ?c)" using ok(2) c len by simp
    show "rd_races_repr ?rd cs" using rr by (simp add: rd_races_repr_def)
  qed simp
  moreover have "concat (map (\<lambda>i. if i \<noteq> ?c \<and> conflict (?las' ! ?c) (?las' ! i) then [(?las' ! ?c, ?las' ! i)] else []) [0..<4])
      = new_conflicts tr m"
    using new_conflicts_last[OF rl ok(2)] c len
    by (subst map_cong[where g = "\<lambda>i. if i \<noteq> ?c \<and> conflict m (?las ! i) then [(m, ?las ! i)] else []"]) auto
  moreover have "rd_access rd m = fold_res (race_step ?c) ?rd [0..<4]"
    unfolding rd_access_def ski_race_detector_new_access_def Let_def m using c(1,2) by simp
  ultimately show ?thesis using rl' by auto
qed

text \<open>
  C9: the race detector.  For every trace of accesses of the four CPUs it never fails; it
  counts exactly the pairs of an access and a latest earlier access of another CPU that share
  a byte with at least one of the two writing, and it keeps the first 1024 of them in order.
\<close>

theorem race_detector_exact:
  assumes "\<forall>m\<in>set tr. access_ok m"
  shows "\<exists>rd. fold_res rd_access ski_race_detector_init tr = Inr rd \<and>
    rd_total_races rd = int (length (trace_conflicts [] tr)) \<and>
    rd_races rd = take SKI_RACE_DETECTOR_RACES_MAX (trace_conflicts [] tr)"
proof -
  have run: "\<exists>rd'. fold_res rd_access rd tr = Inr rd' \<and> rd_races_repr rd' (cs @ trace_conflicts seen tr)"
    if "rd_last_repr (rd_last_access_per_cpu rd) seen" "rd_races_repr rd cs"
      "\<forall>m\<in>set seen. access_ok m" "\<forall>m\<in>set tr. access_ok m" for rd cs seen
    using that
  proof (induction tr arbitrary: rd cs seen)
    case (Cons m ms)
    from rd_access_step[OF Cons.prems(1-3), of m] Cons.prems(4) obtain rd1 where
      rd1: "rd_access rd m = Inr rd1" "rd_last_repr (rd_last_access_per_cpu rd1) (seen @ [m])"
      "rd_races_repr rd1 (cs @ new_conflicts seen m)" by auto
    from Cons.IH[OF rd1(2,3)] Cons.prems(3,4) rd1(1) show ?case by simp
  qed simp
  have "rd_last_repr (rd_last_access_per_cpu ski_race_detector_init) []"
    by (simp add: rd_last_repr_def ski_race_detector_init_def latest_of_def nth_append del: upt.simps)
  moreover have "rd_races_repr ski_race_detector_init []"
    by (simp add: rd_races_repr_def ski_race_detector_init_def)
  ultimately show ?thesis using run[of ski_race_detector_init "[]" "[]"] assms by (auto simp: rd_races_repr_def)
qed

definition sample_access :: "int \<Rightarrow> int \<Rightarrow> int \<Rightarrow> int \<Rightarrow> ski_rd_memory_access" where
  "sample_access cpu a len is_read = \<lparr>ra_cpu = cpu, ra_physical_memory_address = a, ra_ip_address = 0,
    ra_length = len, ra_is_read = is_read, ra_instruction_count = 0\<rparr>"

theorem race_detector_exact_witness:
  "\<exists>rd. fold_res rd_access ski_race_detector_init
      [sample_access 0 100 4 1, sample_access 1 102 2 0, sample_access 0 100 2 1] = Inr rd \<and>
    rd_races rd = [(sample_access 1 102 2 0, sample_access 0 100 4 1)]"
proof -
  let ?tr = "[sample_access 0 100 4 1, sample_access 1 102 2 0, sample_access 0 100 2 1]"
  have tc: "trace_conflicts [] ?tr = [(sample_access 1 102 2 0, sample_access 0 100 4 1)]"
    by (simp add: new_conflicts_def latest_of_def sample_access_def conflict_iff upt_0_4)
  have ok: "\<forall>m\<in>set ?tr. access_ok m" by (simp add: access_ok_def sample_access_def c_int_def)
  show ?thesis using race_detector_exact[OF ok] unfolding tc by auto
qed

section \<open>Counting instructions\<close>

definition id_wf :: "ski_instruction_detector \<Rightarrow> bool" where
  "id_wf idt \<longleftrightarrow> distinct (map ide_eip_address (id_instructions idt))"

lemma id_find_cases:
  obtains (absent) "id_find idt eip = None" "eip \<notin> ide_eip_address ` set (id_instructions idt)"
  | (at) k where "id_find idt eip = Some k" "k < length (id_instructions idt)"
      "ide_eip_address (id_instructions idt ! k) = eip"
proof (cases "id_find idt eip")
  case None
  then show thesis by (intro absent) (auto simp: id_find_def index_from_None)
next
  case (Some k)
  then show thesis using index_from_Some[of _ 0 _ k] by (intro at[of k]) (auto simp: id_find_def)
qed

definition id_accesses :: "ski_instruction_detector \<Rightarrow> 32 word list \<Rightarrow> ski_instruction_detector" where
  "id_accesses idt tr = foldl (ski_instruction_detector_new_access True) idt tr"

lemma id_accesses_snoc [simp]:
  "id_accesses idt (tr @ [x]) = ski_instruction_detector_new_access True (id_accesses idt tr) x"
  "id_accesses idt [] = idt"
  by (simp_all add: id_accesses_def)

text \<open>
  The instruction detector.  After loading a list of distinct addresses and executing any
  trace, the count of every listed address is its number of executions, and the totals are the
  number of executed listed instructions and the number of different ones among them.
\<close>

theorem instruction_detector_counts:
  assumes "distinct ws" and "ws \<noteq> []" and "length ws \<le> SKI_INSTRUCTION_DETECTOR_ENTRIES_MAX"
  shows "\<exists>idt. ski_instruction_detector_load ski_instruction_detector_init (Some ws) = Inr idt \<and>
    map (\<lambda>e. (ide_eip_address e, ide_count e)) (id_instructions (id_accesses idt tr)) =
      map (\<lambda>w. (w, int (count_list tr w))) ws \<and>
    id_total_instructions (id_accesses idt tr) = int (length (filter (\<lambda>x. x \<in> set ws) tr)) \<and>
    id_total_distinct_instructions (id_accesses idt tr) = int (card (set tr \<inter> set ws))"
proof -
  define mk where "mk xs = \<lparr>id_instructions = map (\<lambda>w. \<lparr>ide_eip_address = w, ide_count = 0\<rparr>) xs,
    id_total_instructions = 0, id_total_distinct_instructions = 0\<rparr>" for xs :: "32 word list"
  have load: "fold_res ski_instruction_detector_add_entry (mk us) vs = Inr (mk (us @ vs))"
    if "distinct (us @ vs)" "length (us @ vs) \<le> 131072" for us vs
    using that
  proof (induction vs arbitrary: us)
    case (Cons v vs)
    have "id_find (mk us) v = None" using Cons.prems by (auto simp: id_find_def index_from_None mk_def)
    then have "ski_instruction_detector_add_entry (mk us) v = Inr (mk (us @ [v]))"
      using Cons.prems by (simp add: ski_instruction_detector_add_entry_def mk_def)
    with Cons.IH[of "us @ [v]"] Cons.prems show ?case by simp
  qed simp
  have "ski_instruction_detector_reset_count ski_instruction_detector_init = mk []"
    by (simp add: ski_instruction_detector_reset_count_def ski_instruction_detector_init_def mk_def)
  with load[of "[]" ws] assms have ld: "ski_instruction_detector_load ski_instruction_detector_init (Some ws) = Inr (mk ws)"
    by (simp add: ski_instruction_detector_load_def mk_def)
  have run: "map ide_eip_address (id_instructions (id_accesses (mk ws) tr)) = ws \<and>
      map ide_count (id_instructions (id_accesses (mk ws) tr)) = map (\<lambda>w. int (count_list tr w)) ws \<and>
      id_total_instructions (id_accesses (mk ws) tr) = int (length (filter (\<lambda>x. x \<in> set ws) tr)) \<and>
      id_total_distinct_instructions (id_accesses (mk ws) tr) = int (card (set tr \<inter> set ws))" for tr
  proof (induction tr rule: rev_induct)
    case Nil
    show ?case by (simp add: mk_def comp_def)
  next
    case (snoc x tr)
    let ?i = "id_accesses (mk ws) tr"
    show ?case
    proof (cases rule: id_find_cases[of ?i x])
      case absent
      have "ide_eip_address ` set (id_instructions ?i) = set ws" using snoc.IH by (metis list.set_map)
      with absent have x: "x \<notin> set ws" by simp
      then have "map (\<lambda>w. int (count_list (tr @ [x]) w)) ws = map (\<lambda>w. int (count_list tr w)) ws" by auto
      moreover have "insert x (set tr) \<inter> set ws = set tr \<inter> set ws" using x by blast
      ultimately show ?thesis using snoc.IH absent(1) x
        by (simp add: ski_instruction_detector_new_access_def)
    next
      case (at k)
      have k: "k < length ws" "ws ! k = x" "ide_count (id_instructions ?i ! k) = int (count_list tr x)"
        using at snoc.IH by (metis length_map, metis nth_map, metis (no_types, lifting) length_map nth_map)
      have eip: "map ide_eip_address ((id_instructions ?i)[k := (id_instructions ?i ! k)\<lparr>ide_count := n\<rparr>]) = ws" for n
        using snoc.IH k at by (simp add: map_update) (metis list_update_id nth_map)
      have cnt: "(map (\<lambda>w. int (count_list tr w)) ws)[k := int (count_list tr x) + 1] =
          map (\<lambda>w. int (count_list (tr @ [x]) w)) ws"
        unfolding map_list_update_same[OF assms(1) k(1), symmetric] k(2) by (rule map_cong[OF refl]) simp
      have "x \<in> set ws" using k nth_mem by blast
      then have "insert x (set tr) \<inter> set ws = insert x (set tr \<inter> set ws)" by blast
      then have "int (card (set (tr @ [x]) \<inter> set ws)) =
          int (card (set tr \<inter> set ws)) + (if count_list tr x = 0 then 1 else 0)"
        using \<open>x \<in> set ws\<close> by (auto simp: card_insert_if count_list_0_iff)
      with snoc.IH at(1) k(3) eip cnt \<open>x \<in> set ws\<close> show ?thesis
        by (simp add: ski_instruction_detector_new_access_def Let_def map_update)
    qed
  qed
  have zip: "map (\<lambda>e. (ide_eip_address e, ide_count e)) es = zip (map ide_eip_address es) (map ide_count es)" for es
    by (simp add: zip_map_map zip_same_conv_map)
  have "map (\<lambda>e. (ide_eip_address e, ide_count e)) (id_instructions (id_accesses (mk ws) tr)) =
      zip ws (map (\<lambda>w. int (count_list tr w)) ws)"
    unfolding zip using run[of tr] by simp
  then have "map (\<lambda>e. (ide_eip_address e, ide_count e)) (id_instructions (id_accesses (mk ws) tr)) =
      map (\<lambda>w. (w, int (count_list tr w))) ws" by (simp add: zip_map2 zip_same_conv_map)
  with run[of tr] ld show ?thesis by blast
qed

theorem instruction_detector_counts_witness:
  "\<exists>idt. ski_instruction_detector_load ski_instruction_detector_init (Some [16, 32]) = Inr idt \<and>
    map ide_count (id_instructions (id_accesses idt [16, 48, 16])) = [2, 0]"
proof -
  from instruction_detector_counts[of "[16, 32]" "[16, 48, 16]"] obtain idt where
    i: "ski_instruction_detector_load ski_instruction_detector_init (Some [16, 32]) = Inr idt"
    "map (\<lambda>e. (ide_eip_address e, ide_count e)) (id_instructions (id_accesses idt [16, 48, 16])) = [(16, 2), (32, 0)]"
    by auto
  from arg_cong[OF i(2), of "map snd"] i(1) show ?thesis by (simp add: comp_def)
qed

end
