(* ===== verification/Ski_Stats.thy ===== *)
theory Ski_Stats
  imports Ski_Detectors
begin

text \<open>
  The statistics of a run (\<open>vmm/ski-stats.h\<close>, \<open>vmm/ski-stats.c\<close>): per slot the accesses to
  every byte of memory with the instructions that made them, and at the end of the run the
  communication points, the instructions that touch a byte shared between CPUs.  The theory
  shows that the computed points are exactly those.  A hash table is the list of its entries
  in insertion order, the order in which the code walks through it.  Times and the shared
  memory segment are not modelled; the dump functions are output.
\<close>

unbundle bit_operations_syntax

section \<open>Data\<close>

abbreviation (input) SKI_STATS_MAX_CPU :: nat where "SKI_STATS_MAX_CPU \<equiv> 4"
abbreviation (input) SKI_STATS_MAX_INSTRUCTION_ADDRESSES :: nat where "SKI_STATS_MAX_INSTRUCTION_ADDRESSES \<equiv> 1000000"
abbreviation (input) SKI_STATS_MAX_DATA_ADDRESSES :: nat where "SKI_STATS_MAX_DATA_ADDRESSES \<equiv> 3000000"
abbreviation (input) SKI_STATS_MAX_DATA_INSTRUCTION_ADDRESSES :: nat where
  "SKI_STATS_MAX_DATA_INSTRUCTION_ADDRESSES \<equiv> 3000000"
abbreviation (input) SKI_STATS_MAX_ACCESS_SIZE :: nat where "SKI_STATS_MAX_ACCESS_SIZE \<equiv> 9"
abbreviation (input) MAX_IPFILTER_HASH :: nat where "MAX_IPFILTER_HASH \<equiv> 262144"
abbreviation (input) SKI_MAX_PREEMPTION_POINTS :: nat where "SKI_MAX_PREEMPTION_POINTS \<equiv> 16"

record ski_stats_instruction_accesses =
  sia_eip_address :: "32 word"
  sia_total_accesses :: int

record ski_stats_data_accesses =
  sda_data_address :: "32 word"
  sda_rw_cpu_size_flag :: "32 word"
  sda_total_accesses :: int
  sda_data_instructions :: "32 word list"

record ski_stats =
  ss_pid :: int
  ss_slot :: int
  ss_seed :: int
  ss_input_number :: "int list"
  ss_instructions :: "ski_stats_instruction_accesses list"
  ss_data :: "ski_stats_data_accesses list"
  ss_data_instructions_n :: nat
  ss_preemption_list_size :: int
  ss_preemption_points_executed :: int
  ss_preemptions :: "int list"
  ss_communication_data :: int
  ss_communication_eips :: int
  ss_instructions_executed :: int
  ss_exit_code :: int
  ss_communication_instructions :: "32 word list"
  ss_rd :: ski_race_detector
  ss_id :: ski_instruction_detector

definition SKI_STATS_SET_W_CPU :: "nat \<Rightarrow> ski_stats_data_accesses \<Rightarrow> ski_stats_data_accesses" where
  "SKI_STATS_SET_W_CPU cpu_no da = da\<lparr>sda_rw_cpu_size_flag := sda_rw_cpu_size_flag da OR push_bit (cpu_no + 8) 1\<rparr>"

definition SKI_STATS_SET_R_CPU :: "nat \<Rightarrow> ski_stats_data_accesses \<Rightarrow> ski_stats_data_accesses" where
  "SKI_STATS_SET_R_CPU cpu_no da = da\<lparr>sda_rw_cpu_size_flag := sda_rw_cpu_size_flag da OR push_bit cpu_no 1\<rparr>"

definition SKI_STATS_SET_SIZE :: "nat \<Rightarrow> ski_stats_data_accesses \<Rightarrow> ski_stats_data_accesses" where
  "SKI_STATS_SET_SIZE size_bytes da =
    da\<lparr>sda_rw_cpu_size_flag := sda_rw_cpu_size_flag da OR push_bit (size_bytes + 16) 1\<rparr>"

definition SKI_STATS_GET_W_CPU :: "ski_stats_data_accesses \<Rightarrow> nat \<Rightarrow> 32 word" where
  "SKI_STATS_GET_W_CPU da cpu_no = sda_rw_cpu_size_flag da AND push_bit (cpu_no + 8) 1"

definition SKI_STATS_GET_R_CPU :: "ski_stats_data_accesses \<Rightarrow> nat \<Rightarrow> 32 word" where
  "SKI_STATS_GET_R_CPU da cpu_no = sda_rw_cpu_size_flag da AND push_bit cpu_no 1"

section \<open>Recording accesses\<close>

definition record_access ::
  "ski_stats \<Rightarrow> nat \<Rightarrow> 32 word \<Rightarrow> bool \<Rightarrow> nat \<Rightarrow> ski_stats" where
  "record_access st k eip_address is_write cpu_no =
    (let da = SKI_STATS_SET_SIZE 1 (ss_data st ! k);
         da = (if is_write then SKI_STATS_SET_W_CPU cpu_no da else SKI_STATS_SET_R_CPU cpu_no da);
         da = da\<lparr>sda_total_accesses := sda_total_accesses da + 1\<rparr>
     in if eip_address \<in> set (sda_data_instructions da) \<or>
           \<not> ss_data_instructions_n st < SKI_STATS_MAX_DATA_INSTRUCTION_ADDRESSES
        then st\<lparr>ss_data := (ss_data st)[k := da]\<rparr>
        else st\<lparr>ss_data := (ss_data st)[k :=
                   da\<lparr>sda_data_instructions := sda_data_instructions da @ [eip_address]\<rparr>],
                 ss_data_instructions_n := ss_data_instructions_n st + 1\<rparr>)"

definition ski_stats_add_data_access_byte ::
  "ski_stats \<Rightarrow> 32 word \<Rightarrow> 32 word \<Rightarrow> bool \<Rightarrow> nat \<Rightarrow> ski_stats" where
  "ski_stats_add_data_access_byte st data_address eip_address is_write cpu_no =
    (case index_from (\<lambda>d. sda_data_address d = data_address) 0 (ss_data st) of
       Some k \<Rightarrow> record_access st k eip_address is_write cpu_no
     | None \<Rightarrow>
         if \<not> length (ss_data st) < SKI_STATS_MAX_DATA_ADDRESSES then st
         else record_access
           (st\<lparr>ss_data := ss_data st @ [\<lparr>sda_data_address = data_address, sda_rw_cpu_size_flag = 0,
              sda_total_accesses = 0, sda_data_instructions = []\<rparr>]\<rparr>)
           (length (ss_data st)) eip_address is_write cpu_no)"

definition ski_stats_add_data_access ::
  "ski_stats \<Rightarrow> 32 word \<Rightarrow> 32 word \<Rightarrow> nat \<Rightarrow> bool \<Rightarrow> nat \<Rightarrow> ski_stats res" where
  "ski_stats_add_data_access st data_address eip_address size_bytes is_write cpu_no =
    bind_res (c_assert (size_bytes < SKI_STATS_MAX_ACCESS_SIZE)) (\<lambda>_.
    bind_res (c_assert (cpu_no < SKI_STATS_MAX_CPU)) (\<lambda>_.
      Inr (foldl (\<lambda>st s. ski_stats_add_data_access_byte st (data_address + of_nat s) eip_address is_write cpu_no)
        st [0..<size_bytes])))"

text \<open>The assertion compares with the size of another array than the one that is written.\<close>

definition ski_stats_add_instruction_access :: "ski_stats \<Rightarrow> 32 word \<Rightarrow> ski_stats res" where
  "ski_stats_add_instruction_access st eip_address =
    (case index_from (\<lambda>i. sia_eip_address i = eip_address) 0 (ss_instructions st) of
       Some k \<Rightarrow> Inr (st\<lparr>ss_instructions := (ss_instructions st)[k := (ss_instructions st ! k)
           \<lparr>sia_total_accesses := sia_total_accesses (ss_instructions st ! k) + 1\<rparr>]\<rparr>)
     | None \<Rightarrow>
         bind_res (c_assert (length (ss_instructions st) < SKI_STATS_MAX_DATA_ADDRESSES)) (\<lambda>_.
           if length (ss_instructions st) < SKI_STATS_MAX_INSTRUCTION_ADDRESSES
           then Inr (st\<lparr>ss_instructions := ss_instructions st @
                  [\<lparr>sia_eip_address = eip_address, sia_total_accesses = 1\<rparr>]\<rparr>)
           else Inl Out_of_bounds))"

section \<open>Slots\<close>

definition ski_stats_init_slot :: "32 word list option \<Rightarrow> nat \<Rightarrow> ski_stats res" where
  "ski_stats_init_slot addresses slot =
    bind_res (ski_instruction_detector_load ski_instruction_detector_init addresses) (\<lambda>idt.
      Inr \<lparr>ss_pid = 0, ss_slot = int slot, ss_seed = 0, ss_input_number = replicate 16 0,
           ss_instructions = [], ss_data = [], ss_data_instructions_n = 0, ss_preemption_list_size = 0,
           ss_preemption_points_executed = 0, ss_preemptions = [], ss_communication_data = 0,
           ss_communication_eips = 0, ss_instructions_executed = 0, ss_exit_code = 0,
           ss_communication_instructions = [], ss_rd = ski_race_detector_init, ss_id = idt\<rparr>)"

definition ski_stats_init_all :: "32 word list option \<Rightarrow> nat \<Rightarrow> ski_stats list res" where
  "ski_stats_init_all addresses n_slots =
    fold_res (\<lambda>all slot. bind_res (ski_stats_init_slot addresses slot) (\<lambda>s. Inr (all @ [s]))) [] [0..<n_slots]"

definition ski_stats_reset_slot :: "ski_stats list \<Rightarrow> nat \<Rightarrow> ski_stats list" where
  "ski_stats_reset_slot all slot = all[slot := (all ! slot)
    \<lparr>ss_pid := 0, ss_seed := 0, ss_input_number := (ss_input_number (all ! slot))[0 := 0, 1 := 0],
     ss_instructions := [], ss_data := [], ss_data_instructions_n := 0,
     ss_preemption_points_executed := 0, ss_preemption_list_size := 0, ss_preemptions := [],
     ss_communication_eips := 0, ss_communication_data := 0, ss_instructions_executed := 0,
     ss_exit_code := 0, ss_communication_instructions := [], ss_rd := ski_race_detector_init,
     ss_id := ski_instruction_detector_reset_count (ss_id (all ! slot)), ss_slot := int slot\<rparr>]"

definition ski_stats_set_self_slot :: "ski_stats list \<Rightarrow> int \<Rightarrow> nat res" where
  "ski_stats_set_self_slot all slot =
    bind_res (c_assert (slot < int (length all))) (\<lambda>_.
    if slot < 0 then Inl Out_of_bounds
    else bind_res (c_assert (ss_slot (all ! nat slot) = slot)) (\<lambda>_. Inr (nat slot)))"

definition ski_stats_get_from_pid :: "ski_stats list \<Rightarrow> int \<Rightarrow> nat res" where
  "ski_stats_get_from_pid all pid =
    (case index_from (\<lambda>s. ss_pid s = pid) 0 all of None \<Rightarrow> Inl Assert_failed | Some k \<Rightarrow> Inr k)"

definition ski_stats_start :: "ski_stats \<Rightarrow> int list \<Rightarrow> ski_stats" where
  "ski_stats_start st options_input_number =
    st\<lparr>ss_input_number := (ss_input_number st)[0 := options_input_number ! 0, 1 := options_input_number ! 1]\<rparr>"

definition ski_stats_input_is_running :: "ski_stats \<Rightarrow> int list \<Rightarrow> bool" where
  "ski_stats_input_is_running st options_input_number \<longleftrightarrow>
    ss_input_number st ! 0 = options_input_number ! 0 \<and> ss_input_number st ! 1 = options_input_number ! 1"

definition ski_stats_input_set_preemptions :: "ski_stats \<Rightarrow> int list \<Rightarrow> ski_stats res" where
  "ski_stats_input_set_preemptions st options_preemptions =
    bind_res (c_assert (length options_preemptions < SKI_MAX_PREEMPTION_POINTS)) (\<lambda>_.
      Inr (st\<lparr>ss_preemptions := options_preemptions\<rparr>))"

section \<open>Communication points\<close>

definition ski_stats_add_communication_instruction :: "ski_stats \<Rightarrow> 32 word \<Rightarrow> ski_stats res" where
  "ski_stats_add_communication_instruction st eip =
    (if eip \<in> set (ss_communication_instructions st) then Inr st
     else bind_res (c_assert (length (ss_communication_instructions st) < MAX_IPFILTER_HASH)) (\<lambda>_.
       Inr (st\<lparr>ss_communication_instructions := ss_communication_instructions st @ [eip]\<rparr>)))"

definition is_communication :: "ski_stats_data_accesses \<Rightarrow> bool" where
  "is_communication da \<longleftrightarrow>
    (\<exists>cpu_no\<in>set [0..<SKI_STATS_MAX_CPU]. SKI_STATS_GET_W_CPU da cpu_no \<noteq> 0) \<and>
    length (filter (\<lambda>cpu_no. SKI_STATS_GET_W_CPU da cpu_no \<noteq> 0 \<or> SKI_STATS_GET_R_CPU da cpu_no \<noteq> 0)
      [0..<SKI_STATS_MAX_CPU]) > 1"

definition communication_step :: "ski_stats \<Rightarrow> ski_stats_data_accesses \<Rightarrow> ski_stats res" where
  "communication_step st da =
    (if is_communication da
     then bind_res (fold_res ski_stats_add_communication_instruction st (sda_data_instructions da)) (\<lambda>st.
       Inr (st\<lparr>ss_communication_eips := ss_communication_eips st + int (length (sda_data_instructions da)),
                ss_communication_data := ss_communication_data st + 1\<rparr>))
     else Inr st)"

definition ski_stats_compute_communication_instructions ::
  "ski_stats \<Rightarrow> int list \<Rightarrow> int \<Rightarrow> int \<Rightarrow> ski_stats res" where
  "ski_stats_compute_communication_instructions st options_input_number sched_total exec_total =
    bind_res (if ski_stats_input_is_running st options_input_number
              then fold_res communication_step (st\<lparr>ss_communication_eips := 0, ss_communication_data := 0\<rparr>) (ss_data st)
              else Inr (st\<lparr>ss_communication_eips := 0, ss_communication_data := 0\<rparr>)) (\<lambda>st.
      Inr (st\<lparr>ss_preemption_points_executed := sched_total, ss_instructions_executed := exec_total\<rparr>))"

section \<open>Recording is exact\<close>

text \<open>An access to one byte: the byte, the instruction, whether it writes, and the CPU.\<close>

type_synonym byte_access = "32 word \<times> 32 word \<times> bool \<times> nat"

definition entry_repr :: "ski_stats_data_accesses \<Rightarrow> byte_access list \<Rightarrow> bool" where
  "entry_repr da evs \<longleftrightarrow> (let b = sda_data_address da; flag = sda_rw_cpu_size_flag da in
    (\<forall>c < SKI_STATS_MAX_CPU. bit flag (c + 8) \<longleftrightarrow> (\<exists>eip. (b, eip, True, c) \<in> set evs)) \<and>
    (\<forall>c < SKI_STATS_MAX_CPU. bit flag c \<longleftrightarrow> (\<exists>eip. (b, eip, False, c) \<in> set evs)) \<and>
    set (sda_data_instructions da) = {eip. \<exists>w c. (b, eip, w, c) \<in> set evs})"

definition data_repr :: "ski_stats \<Rightarrow> byte_access list \<Rightarrow> bool" where
  "data_repr st evs \<longleftrightarrow> distinct (map sda_data_address (ss_data st)) \<and>
    sda_data_address ` set (ss_data st) = fst ` set evs \<and>
    (\<forall>da\<in>set (ss_data st). entry_repr da evs) \<and>
    length (ss_data st) \<le> length evs \<and> ss_data_instructions_n st \<le> length evs"

lemma bit_or_push1: "n < 32 \<Longrightarrow> bit (f OR push_bit n (1 :: 32 word)) m \<longleftrightarrow> bit f m \<or> m = n"
  by (auto simp: bit_or_iff bit_exp_iff)

lemma and_push1: "n < 32 \<Longrightarrow> f AND push_bit n (1 :: 32 word) \<noteq> 0 \<longleftrightarrow> bit f n"
  by (simp add: push_bit_of_1 and_exp_eq_0_iff_not_bit)

text \<open>The entry of a byte after an access, while there is room for instructions.\<close>

definition entry_upd :: "32 word \<Rightarrow> bool \<Rightarrow> nat \<Rightarrow> ski_stats_data_accesses \<Rightarrow> ski_stats_data_accesses" where
  "entry_upd eip w c da =
    (let da = SKI_STATS_SET_SIZE 1 da;
         da = (if w then SKI_STATS_SET_W_CPU c da else SKI_STATS_SET_R_CPU c da)
     in da\<lparr>sda_total_accesses := sda_total_accesses da + 1,
           sda_data_instructions := (if eip \<in> set (sda_data_instructions da) then sda_data_instructions da
             else sda_data_instructions da @ [eip])\<rparr>)"

lemma record_access_upd:
  assumes "ss_data_instructions_n st < SKI_STATS_MAX_DATA_INSTRUCTION_ADDRESSES"
  shows "\<exists>n. n \<le> ss_data_instructions_n st + 1 \<and> record_access st k eip w c =
    st\<lparr>ss_data := (ss_data st)[k := entry_upd eip w c (ss_data st ! k)], ss_data_instructions_n := n\<rparr>"
  using assms
  by (auto simp: record_access_def entry_upd_def Let_def SKI_STATS_SET_SIZE_def SKI_STATS_SET_W_CPU_def
      SKI_STATS_SET_R_CPU_def intro: exI[of _ "ss_data_instructions_n st"] exI[of _ "ss_data_instructions_n st + 1"])

lemma entry_upd_address [simp]: "sda_data_address (entry_upd eip w c da) = sda_data_address da"
  by (simp add: entry_upd_def Let_def SKI_STATS_SET_SIZE_def SKI_STATS_SET_W_CPU_def SKI_STATS_SET_R_CPU_def)

lemma entry_upd_flag:
  "c < SKI_STATS_MAX_CPU \<Longrightarrow> bit (sda_rw_cpu_size_flag (entry_upd eip w c da)) m \<longleftrightarrow>
    bit (sda_rw_cpu_size_flag da) m \<or> m = 17 \<or> m = (if w then c + 8 else c)"
proof -
  assume "c < SKI_STATS_MAX_CPU"
  then have n: "(if w then c + 8 else c) < 32" by simp
  have "sda_rw_cpu_size_flag (entry_upd eip w c da) =
      (sda_rw_cpu_size_flag da OR push_bit 17 1) OR push_bit (if w then c + 8 else c) 1"
    by (simp add: entry_upd_def Let_def SKI_STATS_SET_SIZE_def SKI_STATS_SET_W_CPU_def SKI_STATS_SET_R_CPU_def)
  moreover have "(17::nat) < 32" by simp
  ultimately show ?thesis by (simp only: bit_or_push1[OF n] bit_or_push1[of 17]) blast
qed

lemma entry_upd_instructions:
  "set (sda_data_instructions (entry_upd eip w c da)) = insert eip (set (sda_data_instructions da))"
  by (auto simp: entry_upd_def Let_def SKI_STATS_SET_SIZE_def SKI_STATS_SET_W_CPU_def SKI_STATS_SET_R_CPU_def)

lemma entry_repr_upd:
  assumes "entry_repr da evs" and "c < SKI_STATS_MAX_CPU"
  shows "entry_repr (entry_upd eip w c da) (evs @ [(sda_data_address da, eip, w, c)])"
proof -
  have "bit (sda_rw_cpu_size_flag (entry_upd eip w c da)) (d + 8) \<longleftrightarrow>
      bit (sda_rw_cpu_size_flag da) (d + 8) \<or> w \<and> d = c" if "d < 4" for d
    using assms(2) that by (auto simp: entry_upd_flag)
  moreover have "bit (sda_rw_cpu_size_flag (entry_upd eip w c da)) d \<longleftrightarrow>
      bit (sda_rw_cpu_size_flag da) d \<or> \<not> w \<and> d = c" if "d < 4" for d
    using assms(2) that by (auto simp: entry_upd_flag)
  ultimately show ?thesis
    using assms(1) by (auto simp: entry_repr_def Let_def entry_upd_instructions)
qed

lemma entry_repr_other:
  "entry_repr da evs \<Longrightarrow> sda_data_address da \<noteq> b \<Longrightarrow> entry_repr da (evs @ [(b, eip, w, c)])"
  by (auto simp: entry_repr_def Let_def)

lemma entry_repr_fresh:
  "b \<notin> fst ` set evs \<Longrightarrow> entry_repr \<lparr>sda_data_address = b, sda_rw_cpu_size_flag = 0, sda_total_accesses = n,
    sda_data_instructions = []\<rparr> evs"
  by (force simp: entry_repr_def)

lemma data_repr_record:
  assumes inv: "data_repr st evs" and k: "k < length (ss_data st)" "sda_data_address (ss_data st ! k) = b"
    and c: "c < SKI_STATS_MAX_CPU" and room: "length evs < SKI_STATS_MAX_DATA_INSTRUCTION_ADDRESSES"
  shows "data_repr (record_access st k eip w c) (evs @ [(b, eip, w, c)])"
proof -
  note d = inv[unfolded data_repr_def]
  have "ss_data_instructions_n st < SKI_STATS_MAX_DATA_INSTRUCTION_ADDRESSES" using d room by linarith
  from record_access_upd[OF this] obtain n where n: "n \<le> ss_data_instructions_n st + 1"
    "record_access st k eip w c =
      st\<lparr>ss_data := (ss_data st)[k := entry_upd eip w c (ss_data st ! k)], ss_data_instructions_n := n\<rparr>" by blast
  have addr: "map sda_data_address ((ss_data st)[k := entry_upd eip w c (ss_data st ! k)]) = map sda_data_address (ss_data st)"
    using k by (simp add: map_update) (metis list_update_id nth_map)
  have "entry_repr ((ss_data st)[k := entry_upd eip w c (ss_data st ! k)] ! j) (evs @ [(b, eip, w, c)])"
    if j: "j < length (ss_data st)" for j
  proof (cases "j = k")
    case True
    with k d entry_repr_upd[of "ss_data st ! k" evs c eip w] c show ?thesis by simp
  next
    case False
    have "distinct (map sda_data_address (ss_data st))" using d by blast
    from nth_eq_iff_index_eq[OF this, of j k] False j k have "sda_data_address (ss_data st ! j) \<noteq> b" by simp
    with False j d entry_repr_other[of "ss_data st ! j"] show ?thesis by simp
  qed
  then have "\<forall>da\<in>set ((ss_data st)[k := entry_upd eip w c (ss_data st ! k)]). entry_repr da (evs @ [(b, eip, w, c)])"
    by (simp add: all_set_conv_all_nth)
  moreover have "b \<in> fst ` set evs"
    using k(2) imageI[OF nth_mem[OF k(1)], of sda_data_address] d by simp
  moreover have "sda_data_address ` set ((ss_data st)[k := entry_upd eip w c (ss_data st ! k)]) = fst ` set evs"
    using arg_cong[OF addr, of set] d by simp
  ultimately show ?thesis
    using d n addr by (simp add: data_repr_def insert_absorb)
qed

lemma data_repr_byte:
  assumes inv: "data_repr st evs" and c: "c < SKI_STATS_MAX_CPU" and room: "length evs < SKI_STATS_MAX_DATA_ADDRESSES"
  shows "data_repr (ski_stats_add_data_access_byte st b eip w c) (evs @ [(b, eip, w, c)])"
proof (cases "index_from (\<lambda>d. sda_data_address d = b) 0 (ss_data st)")
  case (Some k)
  with index_from_Some[OF Some] data_repr_record[OF inv, of k b c eip w] c room show ?thesis
    by (simp add: ski_stats_add_data_access_byte_def)
next
  case None
  note d = inv[unfolded data_repr_def]
  let ?da = "\<lparr>sda_data_address = b, sda_rw_cpu_size_flag = 0, sda_total_accesses = 0, sda_data_instructions = []\<rparr>"
  let ?st = "st\<lparr>ss_data := ss_data st @ [?da]\<rparr>"
  have b: "b \<notin> fst ` set evs" using None d by (force simp: index_from_None)
  let ?n = "length (ss_data st)"
  have "ss_data_instructions_n ?st < SKI_STATS_MAX_DATA_INSTRUCTION_ADDRESSES" using d room by simp
  from record_access_upd[OF this, of ?n eip w c] obtain n where n: "n \<le> ss_data_instructions_n st + 1"
    "record_access ?st ?n eip w c =
      st\<lparr>ss_data := ss_data st @ [entry_upd eip w c ?da], ss_data_instructions_n := n\<rparr>" by auto
  have "entry_repr (entry_upd eip w c ?da) (evs @ [(b, eip, w, c)])"
    using entry_repr_upd[OF entry_repr_fresh[OF b] c] by simp
  moreover have "\<forall>da\<in>set (ss_data st). entry_repr da (evs @ [(b, eip, w, c)])"
  proof
    fix da assume da: "da \<in> set (ss_data st)"
    then have "sda_data_address da \<in> fst ` set evs" using d by blast
    with b da d show "entry_repr da (evs @ [(b, eip, w, c)])" by (intro entry_repr_other) auto
  qed
  ultimately have "data_repr (record_access ?st ?n eip w c) (evs @ [(b, eip, w, c)])"
    using d b n by (auto simp: data_repr_def)
  moreover have "length (ss_data st) < SKI_STATS_MAX_DATA_ADDRESSES" using d room by linarith
  ultimately show ?thesis by (simp only: ski_stats_add_data_access_byte_def None option.case not_True_eq_False if_False)
qed

section \<open>Communication points are exact\<close>

text \<open>An access of the trace: address, instruction, size in bytes, write flag and CPU.\<close>

type_synonym data_access = "32 word \<times> 32 word \<times> nat \<times> bool \<times> nat"

definition byte_accesses :: "data_access \<Rightarrow> byte_access list" where
  "byte_accesses x = (case x of (a, eip, sz, w, c) \<Rightarrow> map (\<lambda>s. (a + of_nat s, eip, w, c)) [0..<sz])"

definition all_bytes :: "data_access list \<Rightarrow> byte_access list" where
  "all_bytes tr = concat (map byte_accesses tr)"

definition shared_byte :: "data_access list \<Rightarrow> 32 word \<Rightarrow> bool" where
  "shared_byte tr b \<longleftrightarrow> (\<exists>eip c. (b, eip, True, c) \<in> set (all_bytes tr)) \<and>
    (\<exists>eip w c eip' w' c'. (b, eip, w, c) \<in> set (all_bytes tr) \<and> (b, eip', w', c') \<in> set (all_bytes tr) \<and> c \<noteq> c')"

definition communication_points :: "data_access list \<Rightarrow> 32 word set" where
  "communication_points tr = {eip. \<exists>b w c. (b, eip, w, c) \<in> set (all_bytes tr) \<and> shared_byte tr b}"

definition add_accesses :: "ski_stats \<Rightarrow> data_access list \<Rightarrow> ski_stats res" where
  "add_accesses st tr = fold_res (\<lambda>st (a, eip, sz, w, c). ski_stats_add_data_access st a eip sz w c) st tr"

lemma data_repr_access:
  assumes "data_repr st evs" and "sz < SKI_STATS_MAX_ACCESS_SIZE" and "c < SKI_STATS_MAX_CPU"
    and "length evs + sz \<le> SKI_STATS_MAX_DATA_ADDRESSES"
  shows "\<exists>st'. ski_stats_add_data_access st a eip sz w c = Inr st' \<and>
    data_repr st' (evs @ byte_accesses (a, eip, sz, w, c))"
proof -
  have "data_repr (foldl (\<lambda>st s. ski_stats_add_data_access_byte st (a + of_nat s) eip w c) st [0..<n])
      (evs @ map (\<lambda>s. (a + of_nat s, eip, w, c)) [0..<n])" if "n \<le> sz" for n
    using that
  proof (induction n)
    case (Suc n)
    then have "length (evs @ map (\<lambda>s. (a + of_nat s, eip, w, c)) [0..<n]) < SKI_STATS_MAX_DATA_ADDRESSES"
      using assms(4) by simp
    from data_repr_byte[OF Suc.IH assms(3) this] Suc.prems show ?case by simp
  qed (use assms(1) in simp)
  from this[of sz] assms(2,3) show ?thesis by (simp add: ski_stats_add_data_access_def byte_accesses_def)
qed

lemma data_repr_accesses:
  assumes "data_repr st evs" and "\<forall>(a, eip, sz, w, c)\<in>set tr. sz < SKI_STATS_MAX_ACCESS_SIZE \<and> c < SKI_STATS_MAX_CPU"
    and "length evs + length (all_bytes tr) \<le> SKI_STATS_MAX_DATA_ADDRESSES"
  shows "\<exists>st'. add_accesses st tr = Inr st' \<and> data_repr st' (evs @ all_bytes tr)"
  using assms
proof (induction tr arbitrary: st evs)
  case Nil
  then show ?case by (simp add: add_accesses_def all_bytes_def)
next
  case (Cons x tr)
  obtain a eip sz w c where x: "x = (a, eip, sz, w, c)" by (cases x)
  have len: "length (byte_accesses x) = sz" by (simp add: x byte_accesses_def)
  obtain st1 where st1: "ski_stats_add_data_access st a eip sz w c = Inr st1" "data_repr st1 (evs @ byte_accesses x)"
    using data_repr_access[OF Cons.prems(1), of sz c a eip w] Cons.prems(2,3) len
    by (auto simp: x all_bytes_def)
  from Cons.IH[OF st1(2)] Cons.prems(2,3) obtain st' where
    "add_accesses st1 tr = Inr st'" "data_repr st' ((evs @ byte_accesses x) @ all_bytes tr)"
    by (auto simp: all_bytes_def)
  with st1 show ?case by (simp add: add_accesses_def x all_bytes_def)
qed

lemma length_filter_upt_gt1:
  "length (filter P [0..<n]) > 1 \<longleftrightarrow> (\<exists>c<n. \<exists>d<n. c \<noteq> d \<and> P c \<and> P d)"
proof -
  have "length (filter P [0..<n]) = card {c. c < n \<and> P c}"
    by (subst distinct_card[symmetric]) (auto intro: arg_cong[where f = card])
  moreover have "\<not> card {c. c < n \<and> P c} \<le> Suc 0 \<longleftrightarrow> (\<exists>c<n. \<exists>d<n. c \<noteq> d \<and> P c \<and> P d)"
    by (subst card_le_Suc0_iff_eq) auto
  ultimately show ?thesis by auto
qed

lemma is_communication_iff:
  assumes "entry_repr da (all_bytes tr)" and "\<forall>(b, eip, w, c)\<in>set (all_bytes tr). c < SKI_STATS_MAX_CPU"
  shows "is_communication da \<longleftrightarrow> shared_byte tr (sda_data_address da)"
proof -
  let ?b = "sda_data_address da"
  have w: "SKI_STATS_GET_W_CPU da c \<noteq> 0 \<longleftrightarrow> (\<exists>eip. (?b, eip, True, c) \<in> set (all_bytes tr))" if "c < 4" for c
    using assms(1) that and_push1[of "c + 8" "sda_rw_cpu_size_flag da"]
    by (simp add: SKI_STATS_GET_W_CPU_def entry_repr_def Let_def)
  have r: "SKI_STATS_GET_R_CPU da c \<noteq> 0 \<longleftrightarrow> (\<exists>eip. (?b, eip, False, c) \<in> set (all_bytes tr))" if "c < 4" for c
    using assms(1) that and_push1[of c "sda_rw_cpu_size_flag da"]
    by (simp add: SKI_STATS_GET_R_CPU_def entry_repr_def Let_def)
  have wr: "SKI_STATS_GET_W_CPU da c \<noteq> 0 \<or> SKI_STATS_GET_R_CPU da c \<noteq> 0 \<longleftrightarrow>
      (\<exists>eip w. (?b, eip, w, c) \<in> set (all_bytes tr))" if "c < 4" for c
    unfolding w[OF that] r[OF that] by (metis (full_types))
  have lt: "(?b, eip, w, c) \<in> set (all_bytes tr) \<Longrightarrow> c < 4" for eip w c using assms(2) by auto
  have "(\<exists>c\<in>set [0..<4]. SKI_STATS_GET_W_CPU da c \<noteq> 0) \<longleftrightarrow> (\<exists>eip c. (?b, eip, True, c) \<in> set (all_bytes tr))"
    using w lt by (simp only: set_upt) fastforce
  moreover have "length (filter (\<lambda>c. SKI_STATS_GET_W_CPU da c \<noteq> 0 \<or> SKI_STATS_GET_R_CPU da c \<noteq> 0) [0..<4]) > 1 \<longleftrightarrow>
      (\<exists>eip w c eip' w' c'. (?b, eip, w, c) \<in> set (all_bytes tr) \<and> (?b, eip', w', c') \<in> set (all_bytes tr) \<and> c \<noteq> c')"
  proof -
    define A where "A c \<longleftrightarrow> SKI_STATS_GET_W_CPU da c \<noteq> 0 \<or> SKI_STATS_GET_R_CPU da c \<noteq> 0" for c
    define B where "B c \<longleftrightarrow> (\<exists>eip w. (?b, eip, w, c) \<in> set (all_bytes tr))" for c
    have "A c = B c" if "c < 4" for c using wr[OF that] by (simp only: A_def B_def)
    moreover have "B c \<Longrightarrow> c < 4" for c using lt by (auto simp: B_def)
    ultimately have "(\<exists>c<4. \<exists>d<4. c \<noteq> d \<and> A c \<and> A d) \<longleftrightarrow> (\<exists>c d. B c \<and> B d \<and> c \<noteq> d)" by blast
    then show ?thesis unfolding length_filter_upt_gt1 A_def B_def by blast
  qed
  ultimately show ?thesis by (simp only: is_communication_def shared_byte_def)
qed

lemma add_communication_all:
  assumes "card (set (ss_communication_instructions st) \<union> set xs) \<le> MAX_IPFILTER_HASH"
    and "distinct (ss_communication_instructions st)"
  shows "\<exists>l. fold_res ski_stats_add_communication_instruction st xs = Inr (st\<lparr>ss_communication_instructions := l\<rparr>) \<and>
    distinct l \<and> set l = set (ss_communication_instructions st) \<union> set xs"
  using assms
proof (induction xs arbitrary: st)
  case Nil
  then show ?case by (auto intro: exI[of _ "ss_communication_instructions st"])
next
  case (Cons x xs)
  let ?L = "ss_communication_instructions st"
  show ?case
  proof (cases "x \<in> set ?L")
    case True
    then have eq: "set ?L \<union> set (x # xs) = set ?L \<union> set xs" by auto
    have "fold_res ski_stats_add_communication_instruction st (x # xs) =
        fold_res ski_stats_add_communication_instruction st xs"
      using True by (simp add: ski_stats_add_communication_instruction_def)
    with Cons.IH[of st] Cons.prems show ?thesis unfolding eq by metis
  next
    case False
    let ?st = "st\<lparr>ss_communication_instructions := ?L @ [x]\<rparr>"
    have "card (insert x (set ?L)) \<le> card (set ?L \<union> set (x # xs))" by (rule card_mono) auto
    then have len: "length ?L < MAX_IPFILTER_HASH"
      using Cons.prems False distinct_card[OF Cons.prems(2)] by simp
    have eq: "set (?L @ [x]) \<union> set xs = set ?L \<union> set (x # xs)" by auto
    have step: "ski_stats_add_communication_instruction st x = Inr ?st"
      using False len by (simp add: ski_stats_add_communication_instruction_def)
    have "\<exists>l. fold_res ski_stats_add_communication_instruction ?st xs = Inr (?st\<lparr>ss_communication_instructions := l\<rparr>) \<and>
        distinct l \<and> set l = set (ss_communication_instructions ?st) \<union> set xs"
      using Cons.prems False eq by (intro Cons.IH) simp_all
    then obtain l where "fold_res ski_stats_add_communication_instruction ?st xs = Inr (?st\<lparr>ss_communication_instructions := l\<rparr>)"
      "distinct l" "set l = set (?L @ [x]) \<union> set xs" by auto
    with step show ?thesis unfolding eq by (intro exI[of _ l]) simp
  qed
qed

lemma communication_fold:
  assumes "card (set (ss_communication_instructions st) \<union> (\<Union>da\<in>set (filter is_communication das). set (sda_data_instructions da)))
      \<le> MAX_IPFILTER_HASH" and "distinct (ss_communication_instructions st)"
  shows "\<exists>st'. fold_res communication_step st das = Inr st' \<and> distinct (ss_communication_instructions st') \<and>
    set (ss_communication_instructions st') = set (ss_communication_instructions st) \<union>
      (\<Union>da\<in>set (filter is_communication das). set (sda_data_instructions da)) \<and>
    ss_communication_data st' = ss_communication_data st + int (length (filter is_communication das))"
  using assms
proof (induction das arbitrary: st)
  case (Cons da das)
  let ?L = "ss_communication_instructions st"
  let ?U = "\<lambda>das. \<Union>da\<in>set (filter is_communication das). set (sda_data_instructions da)"
  show ?case
  proof (cases "is_communication da")
    case False
    then have "fold_res communication_step st (da # das) = fold_res communication_step st das"
      "filter is_communication (da # das) = filter is_communication das" by (simp_all add: communication_step_def)
    with Cons.IH[of st] Cons.prems show ?thesis by simp
  next
    case True
    then have U: "set ?L \<union> ?U (da # das) = (set ?L \<union> set (sda_data_instructions da)) \<union> ?U das" by auto
    have "card (set ?L \<union> set (sda_data_instructions da)) \<le> card (set ?L \<union> ?U (da # das))"
      unfolding U by (rule card_mono) auto
    then have "card (set ?L \<union> set (sda_data_instructions da)) \<le> MAX_IPFILTER_HASH" using Cons.prems(1) by linarith
    from add_communication_all[OF this Cons.prems(2)] obtain l where
      l: "fold_res ski_stats_add_communication_instruction st (sda_data_instructions da) = Inr (st\<lparr>ss_communication_instructions := l\<rparr>)"
      "distinct l" "set l = set ?L \<union> set (sda_data_instructions da)" by blast
    define st1 where "st1 = st\<lparr>ss_communication_instructions := l,
      ss_communication_eips := ss_communication_eips st + int (length (sda_data_instructions da)),
      ss_communication_data := ss_communication_data st + 1\<rparr>"
    have s1: "communication_step st da = Inr st1" using True l(1) by (simp add: communication_step_def st1_def)
    have L1: "ss_communication_instructions st1 = l" "ss_communication_data st1 = ss_communication_data st + 1"
      by (simp_all add: st1_def)
    have "card (set (ss_communication_instructions st1) \<union> ?U das) \<le> MAX_IPFILTER_HASH"
      using Cons.prems(1) unfolding U L1 l(3) .
    from Cons.IH[OF this] l(2) L1 obtain st' where st': "fold_res communication_step st1 das = Inr st'"
      "distinct (ss_communication_instructions st')"
      "set (ss_communication_instructions st') = set l \<union> ?U das"
      "ss_communication_data st' = ss_communication_data st + 1 + int (length (filter is_communication das))" by auto
    show ?thesis
      unfolding U using s1 st' l(3) True by (intro exI[of _ st']) simp
  qed
qed auto

definition fresh_stats :: "ski_stats \<Rightarrow> bool" where
  "fresh_stats st \<longleftrightarrow> ss_data st = [] \<and> ss_data_instructions_n st = 0 \<and> ss_communication_instructions st = []"

lemma reset_slot_fresh: "slot < length all \<Longrightarrow> fresh_stats (ski_stats_reset_slot all slot ! slot)"
  by (simp add: ski_stats_reset_slot_def fresh_stats_def)

lemma add_byte_keeps:
  "ss_input_number (ski_stats_add_data_access_byte st b eip w c) = ss_input_number st \<and>
   ss_communication_instructions (ski_stats_add_data_access_byte st b eip w c) = ss_communication_instructions st"
  by (simp add: ski_stats_add_data_access_byte_def record_access_def Let_def split: option.splits)

lemma add_accesses_keeps:
  assumes "add_accesses st tr = Inr st'"
  shows "ss_input_number st' = ss_input_number st \<and>
    ss_communication_instructions st' = ss_communication_instructions st"
  using assms unfolding add_accesses_def
proof (rule fold_res_invariant[where P = "\<lambda>s. ss_input_number s = ss_input_number st \<and>
    ss_communication_instructions s = ss_communication_instructions st"], goal_cases)
  case (2 s x s')
  obtain a eip sz w c where x: "x = (a, eip, sz, w, c)" by (cases x)
  have "ss_input_number (foldl (\<lambda>st i. ski_stats_add_data_access_byte st (a + of_nat i) eip w c) s is) = ss_input_number s \<and>
      ss_communication_instructions (foldl (\<lambda>st i. ski_stats_add_data_access_byte st (a + of_nat i) eip w c) s is)
        = ss_communication_instructions s" for "is"
    by (induction "is" arbitrary: s) (simp_all add: add_byte_keeps)
  with 2 show ?case by (auto simp: x ski_stats_add_data_access_def bind_res_eq_Inr)
qed simp

lemma data_repr_communication:
  assumes repr: "data_repr st (all_bytes tr)"
    and ok: "\<forall>(a, eip, sz, w, c)\<in>set tr. sz < SKI_STATS_MAX_ACCESS_SIZE \<and> c < SKI_STATS_MAX_CPU"
  shows "(\<Union>da\<in>set (filter is_communication (ss_data st)). set (sda_data_instructions da)) = communication_points tr"
    and "length (filter is_communication (ss_data st)) = card {b. shared_byte tr b}"
proof -
  note d = repr[unfolded data_repr_def]
  have lt: "\<forall>(b, eip, w, c)\<in>set (all_bytes tr). c < SKI_STATS_MAX_CPU"
    using ok by (auto simp: all_bytes_def byte_accesses_def)
  have com: "is_communication da \<longleftrightarrow> shared_byte tr (sda_data_address da)" if "da \<in> set (ss_data st)" for da
    using is_communication_iff[OF _ lt] d that by blast
  have ins: "set (sda_data_instructions da) = {eip. \<exists>w c. (sda_data_address da, eip, w, c) \<in> set (all_bytes tr)}"
    if "da \<in> set (ss_data st)" for da using d that by (simp add: entry_repr_def Let_def)
  have at: "\<exists>da\<in>set (ss_data st). sda_data_address da = b" if "(b, eip, w, c) \<in> set (all_bytes tr)" for b eip w c
  proof -
    have "b \<in> fst ` set (all_bytes tr)" using that by force
    with d show ?thesis by (metis imageE)
  qed
  show "(\<Union>da\<in>set (filter is_communication (ss_data st)). set (sda_data_instructions da)) = communication_points tr"
  proof (intro set_eqI iffI)
    fix eip assume "eip \<in> (\<Union>da\<in>set (filter is_communication (ss_data st)). set (sda_data_instructions da))"
    then show "eip \<in> communication_points tr" using com ins by (auto simp: communication_points_def)
  next
    fix eip assume "eip \<in> communication_points tr"
    then obtain b w c where b: "(b, eip, w, c) \<in> set (all_bytes tr)" "shared_byte tr b"
      by (auto simp: communication_points_def)
    from at[OF b(1)] obtain da where "da \<in> set (ss_data st)" "sda_data_address da = b" by blast
    with b com ins show "eip \<in> (\<Union>da\<in>set (filter is_communication (ss_data st)). set (sda_data_instructions da))" by auto
  qed
  have "sda_data_address ` set (filter is_communication (ss_data st)) = {b. shared_byte tr b}"
  proof (intro set_eqI iffI)
    fix b assume "b \<in> sda_data_address ` set (filter is_communication (ss_data st))"
    then show "b \<in> {b. shared_byte tr b}" using com by auto
  next
    fix b assume b: "b \<in> {b. shared_byte tr b}"
    then obtain eip c where "(b, eip, True, c) \<in> set (all_bytes tr)" unfolding shared_byte_def by blast
    from at[OF this] obtain da where "da \<in> set (ss_data st)" "sda_data_address da = b" by blast
    with b com show "b \<in> sda_data_address ` set (filter is_communication (ss_data st))" by auto
  qed
  moreover have "distinct (map sda_data_address (filter is_communication (ss_data st)))"
    using d by (simp add: distinct_map_filter)
  ultimately show "length (filter is_communication (ss_data st)) = card {b. shared_byte tr b}"
    by (metis distinct_card length_map list.set_map)
qed

text \<open>
  C8: communication points.  On a fresh slot, after any trace of accesses of at most 8 bytes by
  the four CPUs that fits into the tables, the computation succeeds and yields, without
  repetition, exactly the instructions that touched a byte which some CPU wrote and at least
  two CPUs accessed; it also counts exactly these bytes.
\<close>

theorem communication_points_exact:
  assumes fresh: "fresh_stats st" and inp: "ski_stats_input_is_running st opts"
    and ok: "\<forall>(a, eip, sz, w, c)\<in>set tr. sz < SKI_STATS_MAX_ACCESS_SIZE \<and> c < SKI_STATS_MAX_CPU"
    and room: "length (all_bytes tr) \<le> SKI_STATS_MAX_DATA_ADDRESSES" "card (communication_points tr) \<le> MAX_IPFILTER_HASH"
  shows "\<exists>st1 st2. add_accesses st tr = Inr st1 \<and>
    ski_stats_compute_communication_instructions st1 opts sched_total exec_total = Inr st2 \<and>
    distinct (ss_communication_instructions st2) \<and>
    set (ss_communication_instructions st2) = communication_points tr \<and>
    ss_communication_data st2 = int (card {b. shared_byte tr b})"
proof -
  have "data_repr st []" using fresh by (simp add: fresh_stats_def data_repr_def)
  from data_repr_accesses[OF this ok] room(1) obtain st1 where
    st1: "add_accesses st tr = Inr st1" "data_repr st1 (all_bytes tr)" by auto
  note keep = add_accesses_keeps[OF st1(1)]
  note com = data_repr_communication[OF st1(2) ok]
  let ?st = "st1\<lparr>ss_communication_eips := 0, ss_communication_data := 0\<rparr>"
  have nil: "ss_communication_instructions ?st = []" using keep fresh by (simp add: fresh_stats_def)
  from communication_fold[of ?st "ss_data st1"] room(2) obtain st2 where
    "fold_res communication_step ?st (ss_data st1) = Inr st2" "distinct (ss_communication_instructions st2)"
    "set (ss_communication_instructions st2) = communication_points tr"
    "ss_communication_data st2 = int (card {b. shared_byte tr b})"
    unfolding nil com by auto
  moreover have "ski_stats_input_is_running st1 opts" using inp keep by (simp add: ski_stats_input_is_running_def)
  ultimately show ?thesis
    using st1(1) by (auto simp: ski_stats_compute_communication_instructions_def)
qed

definition sample_stats :: ski_stats where
  "sample_stats = \<lparr>ss_pid = 0, ss_slot = 0, ss_seed = 0, ss_input_number = replicate 16 0,
    ss_instructions = [], ss_data = [], ss_data_instructions_n = 0, ss_preemption_list_size = 0,
    ss_preemption_points_executed = 0, ss_preemptions = [], ss_communication_data = 0,
    ss_communication_eips = 0, ss_instructions_executed = 0, ss_exit_code = 0,
    ss_communication_instructions = [], ss_rd = ski_race_detector_init, ss_id = ski_instruction_detector_init\<rparr>"

theorem communication_points_exact_witness:
  "\<exists>st1 st2. add_accesses sample_stats [(64, 16, 1, True, 0), (64, 32, 1, False, 1)] = Inr st1 \<and>
    ski_stats_compute_communication_instructions st1 (replicate 16 0) 0 0 = Inr st2 \<and>
    set (ss_communication_instructions st2) = {16, 32}"
proof -
  let ?tr = "[(64, 16, 1, True, 0), (64, 32, 1, False, 1)] :: data_access list"
  have b: "all_bytes ?tr = [(64, 16, True, 0), (64, 32, False, 1)]"
    by (simp add: all_bytes_def byte_accesses_def)
  have "shared_byte ?tr 64" unfolding shared_byte_def b
    by (rule conjI, rule exI[of _ 16], rule exI[of _ 0], simp)
      (rule exI[of _ 16], rule exI[of _ True], rule exI[of _ 0], rule exI[of _ 32], rule exI[of _ False],
       rule exI[of _ 1], simp)
  then have p: "communication_points ?tr = {16, 32}"
    unfolding communication_points_def b by auto
  have f: "fresh_stats sample_stats" "ski_stats_input_is_running sample_stats (replicate 16 0)"
    by (simp_all add: fresh_stats_def ski_stats_input_is_running_def sample_stats_def)
  have ok: "\<forall>(a, eip, sz, w, c)\<in>set ?tr. sz < SKI_STATS_MAX_ACCESS_SIZE \<and> c < SKI_STATS_MAX_CPU" by simp
  have len: "length (all_bytes ?tr) \<le> SKI_STATS_MAX_DATA_ADDRESSES" unfolding b by simp
  have card: "card (communication_points ?tr) \<le> MAX_IPFILTER_HASH" unfolding p by simp
  show ?thesis using communication_points_exact[OF f ok len card, of 0 0] unfolding p by blast
qed

end
