(* ===== verification/Ski_Loop.thy ===== *)
theory Ski_Loop
  imports Ski_Detectors
begin

text \<open>
  Loop compression of the execution trace (\<open>vmm/target-i386/op_helper.c\<close>, with the comment
  writer of \<open>vmm/ski-debug.c\<close>).  A ring of the latest instructions counts repetitions; from
  the eleventh iteration on a loop is no longer written but summarised when it ends.  The
  trace file is the list of its lines.  It is shown that the summarised trace determines the
  sequence of executed instructions.
\<close>

section \<open>Data\<close>

abbreviation (input) SKI_LOOP_INTERATIONS_ACTIVATE :: int where "SKI_LOOP_INTERATIONS_ACTIVATE \<equiv> 10"
abbreviation (input) SKI_LOOP_MAX_LOG_ENTRIES :: nat where "SKI_LOOP_MAX_LOG_ENTRIES \<equiv> 10"
abbreviation (input) SKI_DEBUG_LOOP_CYCLE_IN_PROGREESS :: int where "SKI_DEBUG_LOOP_CYCLE_IN_PROGREESS \<equiv> 50000"
abbreviation (input) SKI_EXEC_TRACE_MAX_ENTRIES :: int where "SKI_EXEC_TRACE_MAX_ENTRIES \<equiv> 4000000"

text \<open>The registers that are logged with an instruction.\<close>

record loop_regs =
  lr_eax :: int
  lr_ebx :: int
  lr_ecx :: int
  lr_edx :: int
  lr_esp :: int
  lr_ebp :: int
  lr_esi :: int
  lr_edi :: int
  lr_cs :: int
  lr_ss :: int
  lr_ds :: int
  lr_cr3 :: int
  lr_gdt :: int

record ski_loop_execution_context =
  lc_count :: int
  lc_vcpu :: int
  lc_eip :: int
  lc_regs :: loop_regs

datatype trace_line =
    Entry int int loop_regs
  | Loop_start
  | Loop_end int
  | Loop_tail_end
  | Loop_in_progress int
  | Comment string

record loop_trace =
  ski_loop_log :: "ski_loop_execution_context list"
  ski_loop_log_head :: int
  trace_fd :: bool
  trace_out :: "trace_line list"
  trace_nr_entries :: int
  opt_trace_instructions :: bool

section \<open>Operations\<close>

definition ski_exec_trace_print_comment :: "loop_trace \<Rightarrow> trace_line \<Rightarrow> loop_trace" where
  "ski_exec_trace_print_comment s l =
    (if trace_fd s \<and> trace_nr_entries s < SKI_EXEC_TRACE_MAX_ENTRIES
     then s\<lparr>trace_out := trace_out s @ [l]\<rparr> else s)"

definition ski_exec_trace_print_entry :: "loop_trace \<Rightarrow> int \<Rightarrow> int \<Rightarrow> loop_regs \<Rightarrow> loop_trace res" where
  "ski_exec_trace_print_entry s vcpu eip regs =
    bind_res (c_assert (trace_fd s)) (\<lambda>_.
      Inr (if opt_trace_instructions s then s\<lparr>trace_out := trace_out s @ [Entry vcpu eip regs]\<rparr> else s))"

definition ski_loop_store_instruction ::
  "ski_loop_execution_context \<Rightarrow> int \<Rightarrow> int \<Rightarrow> loop_regs \<Rightarrow> bool \<Rightarrow> ski_loop_execution_context" where
  "ski_loop_store_instruction c vcpu eip regs update_if_exists =
    (if lc_eip c \<noteq> eip \<or> lc_count c \<le> 0
     then \<lparr>lc_count = 1, lc_vcpu = vcpu, lc_eip = eip, lc_regs = regs\<rparr>
     else let c = c\<lparr>lc_count := lc_count c + 1\<rparr>
          in if update_if_exists then c\<lparr>lc_vcpu := vcpu, lc_eip := eip, lc_regs := regs\<rparr> else c)"

definition ski_loop_find_entry :: "loop_trace \<Rightarrow> int \<Rightarrow> nat option" where
  "ski_loop_find_entry s eip = index_from (\<lambda>e. lc_count e > 0 \<and> lc_eip e = eip) 0 (ski_loop_log s)"

text \<open>Loop summaries are written whether or not instructions are to be traced.\<close>

definition ski_loop_print_entry :: "loop_trace \<Rightarrow> ski_loop_execution_context \<Rightarrow> loop_trace res" where
  "ski_loop_print_entry s c =
    (if lc_count c > 0
     then if trace_fd s
          then Inr (s\<lparr>trace_out := trace_out s @ [Entry (lc_vcpu c) (lc_eip c) (lc_regs c)],
                   trace_nr_entries := trace_nr_entries s + 1\<rparr>)
          else Inl Null_deref
     else Inr s)"

text \<open>Position \<open>i\<close> of the ring counted from \<open>base\<close>.\<close>

definition ring_at :: "loop_trace \<Rightarrow> nat \<Rightarrow> nat \<Rightarrow> ski_loop_execution_context" where
  "ring_at s base i = ski_loop_log s ! ((i + base) mod SKI_LOOP_MAX_LOG_ENTRIES)"

text \<open>
  One round of the loop that determines the least and the greatest count; the position of the
  first greatest count, -1 in the code while there is none, is only read when there is one.
\<close>

definition count_step :: "int \<times> int \<times> nat \<Rightarrow> nat \<times> ski_loop_execution_context \<Rightarrow> int \<times> int \<times> nat" where
  "count_step acc pe =
    (case acc of (count_min, count_max, first_max_pos) \<Rightarrow> case pe of (pos, e) \<Rightarrow>
       if lc_count e > 0
       then (if count_min \<le> 0 then lc_count e else if lc_count e < count_min then lc_count e else count_min,
             if count_max \<le> 0 then lc_count e else if lc_count e > count_max then lc_count e else count_max,
             if count_max < lc_count e then pos else first_max_pos)
       else acc)"

definition scan_counts :: "loop_trace \<Rightarrow> nat \<Rightarrow> int \<times> int \<times> nat" where
  "scan_counts s base =
    foldl count_step (-1, -1, 0) (map (\<lambda>i. (i + base, ring_at s base i)) [0..<SKI_LOOP_MAX_LOG_ENTRIES])"

definition print_where :: "(ski_loop_execution_context \<Rightarrow> bool) \<Rightarrow> nat \<Rightarrow> loop_trace \<Rightarrow> loop_trace res" where
  "print_where P base s =
    fold_res (\<lambda>s i. if P (ring_at s base i) then ski_loop_print_entry s (ring_at s base i) else Inr s)
      s [0..<SKI_LOOP_MAX_LOG_ENTRIES]"

definition clear_log :: "loop_trace \<Rightarrow> loop_trace" where
  "clear_log s = s\<lparr>ski_loop_log := map (\<lambda>e. e\<lparr>lc_count := 0\<rparr>) (ski_loop_log s), ski_loop_log_head := -1\<rparr>"

definition print_loop :: "int \<Rightarrow> nat \<Rightarrow> loop_trace \<Rightarrow> loop_trace res" where
  "print_loop count_min first_max_pos s =
    (if count_min - SKI_LOOP_INTERATIONS_ACTIVATE \<ge> 1
     then bind_res (print_where (\<lambda>e. lc_count e \<ge> count_min) first_max_pos
            (ski_exec_trace_print_comment s Loop_start)) (\<lambda>s.
          Inr (ski_exec_trace_print_comment s (Loop_end (count_min - SKI_LOOP_INTERATIONS_ACTIVATE))))
     else Inr s)"

definition print_tail :: "int \<Rightarrow> int \<Rightarrow> nat \<Rightarrow> loop_trace \<Rightarrow> loop_trace res" where
  "print_tail count_min count_max base s =
    (if count_min \<noteq> count_max
     then bind_res (print_where (\<lambda>e. lc_count e = count_max) base s) (\<lambda>s.
          Inr (if count_min - SKI_LOOP_INTERATIONS_ACTIVATE > 0
               then ski_exec_trace_print_comment s Loop_tail_end else s))
     else Inr s)"

definition ski_loop_print_reset_all :: "loop_trace \<Rightarrow> loop_trace res" where
  "ski_loop_print_reset_all s =
    (let base = nat (ski_loop_log_head s + 1)
     in case scan_counts s base of (count_min, count_max, first_max_pos) \<Rightarrow>
        bind_res (c_assert (\<not> count_max - count_min > 1)) (\<lambda>_.
          if count_min - SKI_LOOP_INTERATIONS_ACTIVATE < 0 then Inr (clear_log s)
          else bind_res (print_loop count_min first_max_pos s) (\<lambda>s.
               bind_res (print_tail count_min count_max base s) (\<lambda>s. Inr (clear_log s)))))"

definition ski_loop_flush :: "loop_trace \<Rightarrow> loop_trace res" where
  "ski_loop_flush s = ski_loop_print_reset_all s"

definition ski_loop_init :: "loop_trace \<Rightarrow> loop_trace res" where
  "ski_loop_init s = ski_loop_print_reset_all
    (s\<lparr>ski_loop_log := map (\<lambda>e. e\<lparr>lc_count := 0\<rparr>) (ski_loop_log s)\<rparr>)"

definition ski_loop_finish :: "loop_trace \<Rightarrow> loop_trace res" where
  "ski_loop_finish s = ski_loop_flush s"

text \<open>The positions a loop with \<open>if(next_pos == reset_end) break\<close> visits.\<close>

fun until_end :: "nat \<Rightarrow> nat list \<Rightarrow> nat list" where
  "until_end reset_end [] = []"
| "until_end reset_end (p # ps) = (if p = reset_end then [p] else p # until_end reset_end ps)"

definition range_positions :: "nat \<Rightarrow> nat \<Rightarrow> nat list" where
  "range_positions reset_start reset_end =
    until_end reset_end (map (\<lambda>i. (i + reset_start) mod SKI_LOOP_MAX_LOG_ENTRIES) [0..<SKI_LOOP_MAX_LOG_ENTRIES])"

definition clear_at :: "ski_loop_execution_context list \<Rightarrow> nat \<Rightarrow> ski_loop_execution_context list" where
  "clear_at es p = es[p := (es ! p)\<lparr>lc_count := 0\<rparr>]"

definition ski_loop_print_reset_range :: "nat \<Rightarrow> nat \<Rightarrow> loop_trace \<Rightarrow> loop_trace res" where
  "ski_loop_print_reset_range reset_start reset_end s =
    bind_res
      (if \<exists>p\<in>set (range_positions reset_start reset_end).
            lc_count (ski_loop_log s ! p) > SKI_LOOP_INTERATIONS_ACTIVATE
       then ski_loop_print_reset_all s else Inr s) (\<lambda>s.
      Inr (s\<lparr>ski_loop_log := foldl clear_at (ski_loop_log s) (range_positions reset_start reset_end)\<rparr>))"

text \<open>\<open>SKI_LOOP_CMP_IGNORE_REGISTERS\<close> is set: only the CPU is compared.\<close>

definition ski_loop_equal_vcpu_regs :: "loop_trace \<Rightarrow> nat \<Rightarrow> int \<Rightarrow> bool" where
  "ski_loop_equal_vcpu_regs s existing_pos vcpu \<longleftrightarrow> lc_vcpu (ski_loop_log s ! existing_pos) = vcpu"

definition store_at :: "loop_trace \<Rightarrow> nat \<Rightarrow> int \<Rightarrow> int \<Rightarrow> loop_regs \<Rightarrow> bool \<Rightarrow> loop_trace" where
  "store_at s pos vcpu eip regs upd =
    s\<lparr>ski_loop_log := (ski_loop_log s)[pos := ski_loop_store_instruction (ski_loop_log s ! pos) vcpu eip regs upd]\<rparr>"

text \<open>The instruction is at \<open>new_pos\<close> of the log, the successor of \<open>old_pos\<close> or further on.\<close>

definition jump_next :: "loop_trace \<Rightarrow> nat \<Rightarrow> int \<Rightarrow> int \<Rightarrow> loop_regs \<Rightarrow> loop_trace \<times> bool" where
  "jump_next s new_pos vcpu eip regs =
    (let s = s\<lparr>ski_loop_log_head := int new_pos\<rparr>
     in if lc_count (ski_loop_log s ! new_pos) \<ge> SKI_LOOP_INTERATIONS_ACTIVATE
        then let s = store_at s new_pos vcpu eip regs False;
                 n = lc_count (ski_loop_log s ! new_pos)
             in (if n mod SKI_DEBUG_LOOP_CYCLE_IN_PROGREESS = 0
                 then ski_exec_trace_print_comment s (Loop_in_progress n) else s, False)
        else (store_at s new_pos vcpu eip regs True, True))"

definition jump_distant :: "loop_trace \<Rightarrow> nat \<Rightarrow> nat \<Rightarrow> int \<Rightarrow> int \<Rightarrow> loop_regs \<Rightarrow> (loop_trace \<times> bool) res" where
  "jump_distant s old_pos new_pos vcpu eip regs =
    bind_res (ski_loop_print_reset_range ((old_pos + 1) mod SKI_LOOP_MAX_LOG_ENTRIES)
        ((new_pos + SKI_LOOP_MAX_LOG_ENTRIES - 1) mod SKI_LOOP_MAX_LOG_ENTRIES) s) (\<lambda>s.
      let s = s\<lparr>ski_loop_log_head := int new_pos\<rparr>
      in if lc_count (ski_loop_log s ! new_pos) \<ge> SKI_LOOP_INTERATIONS_ACTIVATE
         then Inr (store_at s new_pos vcpu eip regs False, False)
         else Inr (store_at s new_pos vcpu eip regs True, True))"

definition append_new :: "loop_trace \<Rightarrow> nat \<Rightarrow> int \<Rightarrow> int \<Rightarrow> loop_regs \<Rightarrow> (loop_trace \<times> bool) res" where
  "append_new s old_pos vcpu eip regs =
    bind_res (if lc_count (ski_loop_log s ! old_pos) > 1 then ski_loop_print_reset_all s else Inr s) (\<lambda>s.
      let new_pos = nat (ski_loop_log_head s + 1) mod SKI_LOOP_MAX_LOG_ENTRIES
      in Inr ((store_at s new_pos vcpu eip regs False)\<lparr>ski_loop_log_head := int new_pos\<rparr>, True))"

definition ski_loop_add_instruction ::
  "loop_trace \<Rightarrow> int \<Rightarrow> int \<Rightarrow> loop_regs \<Rightarrow> (loop_trace \<times> bool) res" where
  "ski_loop_add_instruction s vcpu eip regs =
    (if ski_loop_log_head s < 0
     then Inr ((store_at s 0 vcpu eip regs False)\<lparr>ski_loop_log_head := 0\<rparr>, True)
     else let old_pos = nat (ski_loop_log_head s)
          in case ski_loop_find_entry s eip of
               None \<Rightarrow> append_new s old_pos vcpu eip regs
             | Some new_pos \<Rightarrow>
                 if ski_loop_equal_vcpu_regs s new_pos vcpu
                 then if new_pos = (old_pos + 1) mod SKI_LOOP_MAX_LOG_ENTRIES
                      then Inr (jump_next s new_pos vcpu eip regs)
                      else jump_distant s old_pos new_pos vcpu eip regs
                 else append_new s old_pos vcpu eip regs)"

text \<open>The part of \<open>helper_ski_instrument_all\<close> that writes the trace.\<close>

definition trace_instruction :: "loop_trace \<Rightarrow> int \<Rightarrow> int \<Rightarrow> loop_regs \<Rightarrow> loop_trace res" where
  "trace_instruction s vcpu eip regs =
    (if trace_fd s \<and> trace_nr_entries s < SKI_EXEC_TRACE_MAX_ENTRIES
     then bind_res (ski_loop_add_instruction s vcpu eip regs) (\<lambda>(s, ret).
       if ret
       then bind_res (ski_exec_trace_print_entry s vcpu eip regs) (\<lambda>s.
            bind_res (if trace_nr_entries s = SKI_EXEC_TRACE_MAX_ENTRIES - 1
                      then bind_res (ski_loop_flush s) (\<lambda>s.
                             Inr (ski_exec_trace_print_comment s (Comment ''Max entries in trace reached'')))
                      else Inr s) (\<lambda>s.
              Inr (s\<lparr>trace_nr_entries := trace_nr_entries s + 1\<rparr>)))
       else Inr s)
     else Inr s)"

definition ski_exec_trace_start :: "loop_trace \<Rightarrow> loop_trace res" where
  "ski_exec_trace_start s = ski_loop_init (s\<lparr>trace_fd := True, trace_out := [], trace_nr_entries := 0\<rparr>)"

definition ski_exec_trace_stop :: "loop_trace \<Rightarrow> loop_trace res" where
  "ski_exec_trace_stop s =
    (if trace_fd s then bind_res (ski_loop_finish s) (\<lambda>s. Inr (s\<lparr>trace_fd := False\<rparr>)) else Inr s)"

section \<open>Reading a compressed trace\<close>

type_synonym instr = "int \<times> int"

fun read_line :: "instr list \<times> instr list option \<Rightarrow> trace_line \<Rightarrow> instr list \<times> instr list option" where
  "read_line (d, None) (Entry v e r) = (d @ [(v, e)], None)"
| "read_line (d, Some b) (Entry v e r) = (d, Some (b @ [(v, e)]))"
| "read_line (d, ob) Loop_start = (d, Some [])"
| "read_line (d, Some b) (Loop_end n) = (d @ concat (replicate (nat n) b), None)"
| "read_line (d, ob) l = (d, ob)"

definition decompress :: "trace_line list \<Rightarrow> instr list \<times> instr list option" where
  "decompress ls = foldl read_line ([], None) ls"

datatype trace_event = Exec int int loop_regs | Flush

fun trace_step :: "loop_trace \<Rightarrow> trace_event \<Rightarrow> loop_trace res" where
  "trace_step s (Exec v e r) = trace_instruction s v e r"
| "trace_step s Flush = ski_loop_flush s"

definition trace_run :: "loop_trace \<Rightarrow> trace_event list \<Rightarrow> loop_trace res" where
  "trace_run s evs = fold_res trace_step s evs"

fun executed :: "trace_event list \<Rightarrow> instr list" where
  "executed [] = []"
| "executed (Exec v e r # evs) = (v, e) # executed evs"
| "executed (Flush # evs) = executed evs"

text \<open>Another CPU continues only after a flush, which every switch of the thread does.\<close>

fun flushed_between :: "int option \<Rightarrow> trace_event list \<Rightarrow> bool" where
  "flushed_between ov [] = True"
| "flushed_between ov (Exec v e r # evs) \<longleftrightarrow> (ov = None \<or> ov = Some v) \<and> flushed_between (Some v) evs"
| "flushed_between ov (Flush # evs) \<longleftrightarrow> flushed_between None evs"

section \<open>The ring\<close>

definition live :: "ski_loop_execution_context list \<Rightarrow> ski_loop_execution_context list" where
  "live es = filter (\<lambda>e. lc_count e > 0) es"

definition ring :: "loop_trace \<Rightarrow> ski_loop_execution_context list" where
  "ring s = rotate (nat (ski_loop_log_head s + 1)) (ski_loop_log s)"

lemma live_simps [simp]:
  "live [] = []" "live (es @ fs) = live es @ live fs"
  "live (e # es) = (if lc_count e > 0 then e # live es else live es)"
  by (simp_all add: live_def)

lemma set_live [simp]: "e \<in> set (live es) \<longleftrightarrow> e \<in> set es \<and> lc_count e > 0"
  by (auto simp: live_def)

lemma live_zeroed [simp]: "live (map (\<lambda>e. e\<lparr>lc_count := 0\<rparr>) es) = []"
  by (simp add: live_def)

text \<open>All live entries have the count \<open>k\<close>.\<close>

definition counts :: "int \<Rightarrow> ski_loop_execution_context list \<Rightarrow> bool" where
  "counts k es \<longleftrightarrow> list_all (\<lambda>e. lc_count e > 0 \<longrightarrow> lc_count e = k) es"

lemma counts_simps [simp]:
  "counts k []" "counts k (es @ fs) \<longleftrightarrow> counts k es \<and> counts k fs"
  "counts k (e # es) \<longleftrightarrow> (lc_count e > 0 \<longrightarrow> lc_count e = k) \<and> counts k es"
  by (simp_all add: counts_def)

lemma counts_live [simp]: "counts k (live es) \<longleftrightarrow> counts k es"
  by (induction es) simp_all

lemma counts_live_pos: "live es \<noteq> [] \<Longrightarrow> counts k es \<Longrightarrow> 0 < k"
  by (induction es) (auto split: if_splits)

lemma ring_positions:
  assumes "length (ski_loop_log s) = 10"
  shows "map (ring_at s base) [0..<10] = rotate base (ski_loop_log s)"
  using assms by (intro nth_equalityI) (simp_all add: ring_at_def nth_rotate add.commute)

lemma ring_positions_zip:
  assumes "length (ski_loop_log s) = 10"
  shows "map (\<lambda>i. (i + base, ring_at s base i)) [0..<10] = zip [base..<base + 10] (rotate base (ski_loop_log s))"
proof -
  have "map (\<lambda>i. (i + base, ring_at s base i)) [0..<10] =
      zip (map (\<lambda>i. i + base) [0..<10]) (map (ring_at s base) [0..<10])"
    by (simp add: zip_map_map zip_same_conv_map)
  also have "map (\<lambda>i. i + base) [0..<10] = [base..<base + 10]"
    by (intro nth_equalityI) simp_all
  finally show ?thesis using ring_positions[OF assms] by simp
qed

lemma count_step_app:
  "count_step (count_min, count_max, fp) (pos, e) =
    (if lc_count e > 0
     then (if count_min \<le> 0 then lc_count e else if lc_count e < count_min then lc_count e else count_min,
           if count_max \<le> 0 then lc_count e else if lc_count e > count_max then lc_count e else count_max,
           if count_max < lc_count e then pos else fp)
     else (count_min, count_max, fp))"
  by (simp add: count_step_def)

lemma count_fold_between:
  assumes "counts k es" "0 < count_min" "count_min \<le> k" "k \<le> count_max"
  shows "foldl count_step (count_min, count_max, fp) (zip ps es) = (count_min, count_max, fp)"
  using assms(1)
proof (induction es arbitrary: ps)
  case (Cons e es)
  show ?case
  proof (cases ps)
    case (Cons p ps')
    have "count_step (count_min, count_max, fp) (p, e) = (count_min, count_max, fp)"
      using Cons.prems assms(2-4) by (cases "lc_count e > 0") (simp_all add: count_step_app)
    then show ?thesis using \<open>ps = p # ps'\<close> Cons.IH[of ps'] Cons.prems by simp
  qed simp
qed simp

lemma count_fold_dead:
  assumes "live es = []"
  shows "foldl count_step acc (zip ps es) = acc"
  using assms
proof (induction es arbitrary: ps)
  case (Cons e es)
  then show ?case by (cases ps; cases acc) (auto simp: count_step_app split: if_splits)
qed simp

lemma count_fold_first:
  assumes "counts k es" "live es \<noteq> []" "length ps = length es"
  shows "\<exists>fp'. foldl count_step (-1, -1, fp) (zip ps es) = (k, k, fp')"
  using assms
proof (induction es arbitrary: ps)
  case (Cons e es)
  obtain p ps' where ps: "ps = p # ps'" using Cons.prems(3) by (cases ps) auto
  show ?case
  proof (cases "lc_count e > 0")
    case True
    then have "lc_count e = k" "0 < k" "counts k es" using Cons.prems(1) by simp_all
    moreover from this have "foldl count_step (k, k, p) (zip ps' es) = (k, k, p)"
      using count_fold_between[of k es k k p ps'] by simp
    ultimately show ?thesis using True ps by (simp add: count_step_app)
  next
    case False
    have "\<exists>fp'. foldl count_step (-1, -1, fp) (zip ps' es) = (k, k, fp')"
      using Cons.prems False ps by (intro Cons.IH) simp_all
    then show ?thesis using False ps by (simp add: count_step_app)
  qed
qed simp

lemma zip_upt_split:
  assumes "length R1 + length R2 = 9"
  shows "zip [base..<base + 10] (R1 @ y # R2) =
      zip [base..<base + length R1] R1 @ (base + length R1, y) # zip [Suc (base + length R1)..<base + 10] R2"
proof -
  have "[base..<base + 10] = [base..<base + length R1] @ [base + length R1..<base + 10]"
    using assms upt_add_eq_append[of base "base + length R1" "10 - length R1"] by simp
  also have "[base + length R1..<base + 10] = (base + length R1) # [Suc (base + length R1)..<base + 10]"
    using assms by (simp add: upt_conv_Cons)
  finally show ?thesis by simp
qed

lemma scan_counts_eq:
  assumes len: "length (ski_loop_log s) = 10"
    and split: "rotate base (ski_loop_log s) = R1 @ y # R2"
    and xs: "counts (c - 1) R1" and ys: "counts c R2"
    and y: "lc_count y = c" "0 < c"
  shows "scan_counts s base = (if live R1 = [] then c else c - 1, c, base + length R1)"
proof -
  have "length R1 + length R2 = 9" using arg_cong[OF split, of length] len by simp
  note z = zip_upt_split[OF this, of base y]
  have eq: "scan_counts s base = foldl count_step
      (count_step (foldl count_step (-1, -1, 0) (zip [base..<base + length R1] R1)) (base + length R1, y))
      (zip [Suc (base + length R1)..<base + 10] R2)"
    unfolding scan_counts_def ring_positions_zip[OF len] split z by simp
  show ?thesis
  proof (cases "live R1 = []")
    case True
    then show ?thesis using eq y count_fold_between[OF ys] by (simp add: count_fold_dead count_step_app)
  next
    case False
    then have "0 < c - 1" using xs by (rule counts_live_pos)
    moreover obtain fp where "foldl count_step (-1, -1, 0) (zip [base..<base + length R1] R1) = (c - 1, c - 1, fp)"
      using count_fold_first[OF xs False, of "[base..<base + length R1]" 0] by auto
    ultimately show ?thesis using eq y count_fold_between[OF ys, of "c - 1" c] False
      by (simp add: count_step_app)
  qed
qed

lemma scan_counts_dead:
  assumes "length (ski_loop_log s) = 10" "live (rotate base (ski_loop_log s)) = []"
  shows "scan_counts s base = (-1, -1, 0)"
  using assms by (simp add: scan_counts_def ring_positions_zip count_fold_dead)

section \<open>Writing the summary\<close>

definition line_of :: "ski_loop_execution_context \<Rightarrow> trace_line" where
  "line_of e = Entry (lc_vcpu e) (lc_eip e) (lc_regs e)"

definition key :: "ski_loop_execution_context \<Rightarrow> instr" where
  "key e = (lc_vcpu e, lc_eip e)"

lemma decompress_append [simp]: "decompress (ls @ ms) = foldl read_line (decompress ls) ms"
  by (simp add: decompress_def)

lemma read_line_of [simp]:
  "read_line (d, None) (line_of e) = (d @ [key e], None)"
  "read_line (d, Some b) (line_of e) = (d, Some (b @ [key e]))"
  by (simp_all add: line_of_def key_def)

lemma read_lines [simp]:
  "foldl read_line (d, None) (map line_of es) = (d @ map key es, None)"
  "foldl read_line (d, Some b) (map line_of es) = (d, Some (b @ map key es))"
  by (induction es arbitrary: d b) simp_all

definition emitted :: "loop_trace \<Rightarrow> trace_line list \<Rightarrow> nat \<Rightarrow> loop_trace" where
  "emitted s ls n = s\<lparr>trace_out := trace_out s @ ls, trace_nr_entries := trace_nr_entries s + int n\<rparr>"

lemma emitted_simps [simp]:
  "ski_loop_log (emitted s ls n) = ski_loop_log s" "ski_loop_log_head (emitted s ls n) = ski_loop_log_head s"
  "trace_fd (emitted s ls n) = trace_fd s" "trace_out (emitted s ls n) = trace_out s @ ls"
  "trace_nr_entries (emitted s ls n) = trace_nr_entries s + int n"
  "opt_trace_instructions (emitted s ls n) = opt_trace_instructions s"
  "emitted (emitted s ls n) ms m = emitted s (ls @ ms) (n + m)" "emitted s [] 0 = s"
  by (simp_all add: emitted_def)

lemma ring_at_emitted [simp]: "ring_at (emitted s ls n) base i = ring_at s base i"
  by (simp add: ring_at_def)

lemma print_comment_emitted:
  "trace_fd s \<Longrightarrow> trace_nr_entries s < SKI_EXEC_TRACE_MAX_ENTRIES \<Longrightarrow>
    ski_exec_trace_print_comment s l = emitted s [l] 0"
  by (simp add: ski_exec_trace_print_comment_def emitted_def)

lemma print_entries:
  assumes "trace_fd s"
  shows "fold_res (\<lambda>s i. if P (ring_at s base i) then ski_loop_print_entry s (ring_at s base i) else Inr s) s is =
    (let es = filter P (live (map (ring_at s base) is))
     in Inr (emitted s (map line_of es) (length es)))"
  using assms
proof (induction "is" arbitrary: s)
  case (Cons i "is")
  let ?e = "ring_at s base i"
  have "(if P ?e then ski_loop_print_entry s ?e else Inr s) =
      Inr (if P ?e \<and> lc_count ?e > 0 then emitted s [line_of ?e] 1 else s)"
    using Cons.prems by (simp add: ski_loop_print_entry_def emitted_def line_of_def)
  then show ?case using Cons.IH[of "emitted s [line_of ?e] 1"] Cons.IH[of s] Cons.prems
    by (simp add: Let_def)
qed simp

lemma print_where_eq:
  assumes "trace_fd s" "length (ski_loop_log s) = 10"
  shows "print_where P base s =
    (let es = filter P (live (rotate base (ski_loop_log s)))
     in Inr (emitted s (map line_of es) (length es)))"
  unfolding print_where_def print_entries[OF assms(1)] ring_positions[OF assms(2)] ..

lemma live_split:
  assumes "live zs = xs @ y # ys"
  obtains R1 R2 where "zs = R1 @ y # R2" "live R1 = xs" "live R2 = ys" "lc_count y > 0"
  using assms
proof (induction zs arbitrary: xs thesis)
  case (Cons z zs)
  show ?case
  proof (cases "lc_count z > 0 \<and> xs = []")
    case True
    then show ?thesis using Cons.prems(1)[of "[]" zs] Cons.prems(2) by simp
  next
    case False
    then have "live zs = (if lc_count z > 0 then tl xs else xs) @ y # ys"
      and z: "lc_count z > 0 \<Longrightarrow> xs = z # tl xs"
      using Cons.prems(2) by (cases xs; auto split: if_splits)+
    from Cons.IH[OF _ this(1)] obtain R1 R2 where
      "zs = R1 @ y # R2" "live R1 = (if lc_count z > 0 then tl xs else xs)" "live R2 = ys" "lc_count y > 0" .
    then show ?thesis using Cons.prems(1)[of "z # R1" R2] z by auto
  qed
qed simp

lemma filter_counts:
  "counts k es \<Longrightarrow> m \<le> k \<Longrightarrow> filter (\<lambda>e. m \<le> lc_count e) (live es) = live es"
  "counts k es \<Longrightarrow> filter (\<lambda>e. lc_count e = k) (live es) = live es"
  "counts k es \<Longrightarrow> m \<noteq> k \<Longrightarrow> filter (\<lambda>e. lc_count e = m) (live es) = []"
  by (induction es) auto

section \<open>The state between two instructions\<close>

text \<open>
  In the order of the ring the live entries are some with count \<open>c - 1\<close> followed by some
  with count \<open>c\<close>, the last of which is the head.
\<close>

definition loop_repr :: "loop_trace \<Rightarrow> int \<Rightarrow> int \<Rightarrow> ski_loop_execution_context list \<Rightarrow>
    ski_loop_execution_context list \<Rightarrow> bool" where
  "loop_repr s v c xs ys \<longleftrightarrow>
    length (ski_loop_log s) = 10 \<and> -1 \<le> ski_loop_log_head s \<and> ski_loop_log_head s < 10 \<and>
    live (ring s) = xs @ ys \<and> counts (c - 1) xs \<and> counts c ys \<and>
    list_all (\<lambda>e. lc_vcpu e = v) (xs @ ys) \<and> distinct (map lc_eip (xs @ ys)) \<and>
    (if ski_loop_log_head s = -1 then xs = [] \<and> ys = []
     else ys \<noteq> [] \<and> last ys = ski_loop_log s ! nat (ski_loop_log_head s))"

text \<open>The instructions executed but not written yet.\<close>

definition pending :: "int \<Rightarrow> ski_loop_execution_context list \<Rightarrow> ski_loop_execution_context list \<Rightarrow> instr list" where
  "pending c xs ys =
    (if c \<ge> 11 then concat (replicate (nat (c - 11)) (map key (ys @ xs))) @ map key ys else [])"

lemma concat_replicate_last: "0 < n \<Longrightarrow> concat (replicate n b) = concat (replicate (n - 1) b) @ b"
  by (cases n) (simp_all add: replicate_append_same [symmetric])

lemma loop_summary_written:
  assumes fd: "trace_fd s" and len: "length (ski_loop_log s) = 10"
    and R: "rotate base (ski_loop_log s) = R1 @ y # R2"
    and c: "counts (c - 1) R1" "counts c R2" "lc_count y = c" "11 \<le> c"
    and room: "trace_nr_entries s + int (length (pending c (live R1) (y # live R2))) < SKI_EXEC_TRACE_MAX_ENTRIES"
    and d: "decompress (trace_out s) = (d, None)"
  defines "m \<equiv> if live R1 = [] then c else c - 1"
  shows "\<exists>ls n. bind_res (print_loop m (base + length R1) s) (print_tail m c base) = Inr (emitted s ls n) \<and>
    n \<le> length (pending c (live R1) (y # live R2)) \<and>
    decompress (trace_out s @ ls) = (d @ pending c (live R1) (y # live R2), None)"
proof -
  let ?b = "(y # live R2) @ live R1"
  have rot: "rotate (base + length R1) (ski_loop_log s) = y # R2 @ R1"
  proof -
    have "rotate (base + length R1) (ski_loop_log s) = rotate (length R1) (rotate base (ski_loop_log s))"
      by (simp add: rotate_rotate add.commute)
    then show ?thesis by (simp add: R rotate_append)
  qed
  have "m \<le> c" "m = c \<or> m = c - 1" by (simp_all add: m_def)
  have body: "filter (\<lambda>e. m \<le> lc_count e) (live (y # R2 @ R1)) = ?b"
    using c \<open>m \<le> c\<close> by (cases "live R1 = []") (simp_all add: filter_counts m_def)
  have tail: "filter (\<lambda>e. lc_count e = c) (live (R1 @ y # R2)) = y # live R2"
    using c by (simp add: filter_counts)
  show ?thesis
  proof (cases "live R1 = []")
    case True
    then have P: "pending c (live R1) (y # live R2) = concat (replicate (nat (c - 10)) (map key ?b))"
      using c(4) concat_replicate_last[of "nat (c - 10)" "map key ?b"]
      by (simp add: pending_def nat_diff_distrib' diff_diff_add)
    have "m = c" using True by (simp add: m_def)
    moreover have "length ?b \<le> length (pending c (live R1) (y # live R2))"
      using True c(4) by (simp add: pending_def)
    moreover have "print_loop c (base + length R1) s =
        Inr (emitted s ([Loop_start] @ map line_of ?b @ [Loop_end (c - 10)]) (length ?b))"
      using c(4) fd len room body calculation(2)
      by (simp add: print_loop_def print_comment_emitted print_where_eq rot \<open>m = c\<close> del: live_simps)
    ultimately show ?thesis using P d
      by (intro exI[of _ "[Loop_start] @ map line_of ?b @ [Loop_end (c - 10)]"] exI[of _ "length ?b"])
        (simp add: print_tail_def)
  next
    case False
    then have m: "m = c - 1" by (simp add: m_def)
    have T: "print_tail m c base t = Inr (emitted t (map line_of (y # live R2) @
          (if m > 10 then [Loop_tail_end] else [])) (length (y # live R2)))"
      if "trace_fd t" "ski_loop_log t = ski_loop_log s"
        "trace_nr_entries t + int (length (y # live R2)) < SKI_EXEC_TRACE_MAX_ENTRIES" for t
      using that m tail R len
      by (simp add: print_tail_def print_where_eq print_comment_emitted del: live_simps)
    show ?thesis
    proof (cases "c = 11")
      case True
      then have P: "pending c (live R1) (y # live R2) = map key (y # live R2)" by (simp add: pending_def)
      have "print_loop m (base + length R1) s = Inr s" using True m by (simp add: print_loop_def)
      then show ?thesis using T[of s] fd room d P m True
        by (intro exI[of _ "map line_of (y # live R2)"] exI[of _ "length (y # live R2)"]) simp
    next
      case False
      then have P: "length (pending c (live R1) (y # live R2)) \<ge> length ?b + length (y # live R2)"
        using c(4) by (cases "nat (c - 11)") (simp_all add: pending_def)
      have "print_loop m (base + length R1) s =
          Inr (emitted s ([Loop_start] @ map line_of ?b @ [Loop_end (c - 11)]) (length ?b))"
        using c(4) False fd len room body P m
        by (simp add: print_loop_def print_comment_emitted print_where_eq rot del: live_simps)
      then show ?thesis using T[of "emitted s ([Loop_start] @ map line_of ?b @ [Loop_end (c - 11)]) (length ?b)"]
          fd room d P m False c(4)
        by (intro exI[of _ "[Loop_start] @ map line_of ?b @ [Loop_end (c - 11)] @ map line_of (y # live R2) @ [Loop_tail_end]"]
          exI[of _ "length ?b + length (y # live R2)"]) (simp add: pending_def)
    qed
  qed
qed

lemma clear_log_simps [simp]:
  "ski_loop_log (clear_log s) = map (\<lambda>e. e\<lparr>lc_count := 0\<rparr>) (ski_loop_log s)"
  "ski_loop_log_head (clear_log s) = -1" "trace_fd (clear_log s) = trace_fd s"
  "trace_out (clear_log s) = trace_out s" "trace_nr_entries (clear_log s) = trace_nr_entries s"
  "opt_trace_instructions (clear_log s) = opt_trace_instructions s"
  by (simp_all add: clear_log_def)

lemma cleared_repr: "length (ski_loop_log s) = 10 \<Longrightarrow> loop_repr (clear_log s) v c [] []"
  by (simp add: loop_repr_def ring_def rotate_map)

lemma flush_repr:
  assumes repr: "loop_repr s v c xs ys" and fd: "trace_fd s"
    and room: "trace_nr_entries s + int (length (pending c xs ys)) < SKI_EXEC_TRACE_MAX_ENTRIES"
    and d: "decompress (trace_out s) = (d, None)"
  obtains ls n where "ski_loop_print_reset_all s = Inr (clear_log (emitted s ls n))"
    "n \<le> length (pending c xs ys)" "decompress (trace_out s @ ls) = (d @ pending c xs ys, None)"
proof (cases ys)
  case Nil
  then have "xs = []" "live (ring s) = []" "length (ski_loop_log s) = 10"
    using repr by (auto simp: loop_repr_def split: if_splits)
  then have "ski_loop_print_reset_all s = Inr (clear_log (emitted s [] 0))"
    by (simp add: ski_loop_print_reset_all_def ring_def scan_counts_dead)
  then show ?thesis using that[of "[]" 0] d Nil \<open>xs = []\<close> by (simp add: pending_def)
next
  case (Cons y ys')
  let ?base = "nat (ski_loop_log_head s + 1)"
  have len: "length (ski_loop_log s) = 10" using repr by (simp add: loop_repr_def)
  obtain R1 R2 where R: "rotate ?base (ski_loop_log s) = R1 @ y # R2" "live R1 = xs" "live R2 = ys'" "lc_count y > 0"
    using repr Cons live_split[of "ring s" xs y ys'] by (auto simp: loop_repr_def ring_def)
  have c: "counts (c - 1) R1" "counts c R2" "lc_count y = c" "0 < c"
    using repr R Cons counts_live[of "c - 1" R1] counts_live[of c R2] by (auto simp: loop_repr_def)
  define m where "m = (if live R1 = [] then c else c - 1)"
  have scan: "scan_counts s ?base = (m, c, ?base + length R1)"
    using scan_counts_eq[OF len R(1) c] by (simp add: m_def)
  have mc: "m = c \<or> m = c - 1" by (simp add: m_def)
  show ?thesis
  proof (cases "11 \<le> c")
    case True
    obtain ls n where "bind_res (print_loop m (?base + length R1) s) (print_tail m c ?base) = Inr (emitted s ls n)"
      "n \<le> length (pending c xs ys)" "decompress (trace_out s @ ls) = (d @ pending c xs ys, None)"
      using loop_summary_written[OF fd len R(1) c(1,2,3) True _ d] room R Cons by (auto simp: m_def)
    moreover have "ski_loop_print_reset_all s =
        bind_res (bind_res (print_loop m (?base + length R1) s) (print_tail m c ?base)) (\<lambda>s. Inr (clear_log s))"
      using scan mc True by (auto simp: ski_loop_print_reset_all_def Let_def)
    ultimately show ?thesis using that by simp
  next
    case False
    then have "ski_loop_print_reset_all s = Inr (clear_log (emitted s [] 0))"
      using scan mc by (auto simp: ski_loop_print_reset_all_def Let_def print_loop_def print_tail_def)
    then show ?thesis using that[of "[]" 0] d False by (simp add: pending_def)
  qed
qed

section \<open>Moving in the ring\<close>

lemma ring_index_inj:
  fixes b i k :: nat
  assumes "i < 10" "k < 10"
  shows "(b + i) mod 10 = (b + k) mod 10 \<longleftrightarrow> i = k"
proof -
  have "i = k" if "b + i + 10 * q1 = b + k + 10 * q2" for q1 q2
    using that assms by presburger
  then show ?thesis by (metis nat_mod_eq_iff)
qed

lemma rotate_update:
  assumes "length L = 10" "k < 10"
  shows "rotate b (L[(b + k) mod 10 := x]) = (rotate b L)[k := x]"
  using assms by (intro nth_equalityI) (simp_all add: nth_rotate nth_list_update ring_index_inj)

lemma ring_store:
  assumes "length L = 10" "rotate b L = U @ r # V"
  shows "rotate (Suc ((b + length U) mod 10)) (L[(b + length U) mod 10 := r']) = V @ U @ [r']"
proof -
  have k: "length U < 10" using assms(1) arg_cong[OF assms(2), of length] by simp
  have "rotate (Suc ((b + length U) mod 10)) (L[(b + length U) mod 10 := r']) =
      rotate (Suc (length U) + b) (L[(b + length U) mod 10 := r'])"
    using assms(1) rotate_conv_mod[of "b + length U" "L[(b + length U) mod 10 := r']"] by (simp add: add.commute)
  also have "\<dots> = rotate (Suc (length U)) ((rotate b L)[length U := r'])"
    by (simp only: rotate_rotate[symmetric] rotate_update[OF assms(1) k])
  also have "\<dots> = rotate (length (U @ [r'])) ((U @ [r']) @ V)" using assms(2) by (simp del: rotate_Suc)
  also have "\<dots> = V @ U @ [r']" by (simp only: rotate_append)
  finally show ?thesis .
qed

lemma rotate_clear:
  assumes "length L = 10" "k \<le> 10"
  shows "rotate b (foldl clear_at L (map (\<lambda>i. (i + b) mod 10) [0..<k])) =
    map (\<lambda>e. e\<lparr>lc_count := 0\<rparr>) (take k (rotate b L)) @ drop k (rotate b L)"
  using assms(2)
proof (induction k)
  case (Suc k)
  let ?M = "foldl clear_at L (map (\<lambda>i. (i + b) mod 10) [0..<k])"
  have len: "length (foldl clear_at M ps) = length M" for M ps
    by (induction ps arbitrary: M) (simp_all add: clear_at_def)
  have IH: "rotate b ?M = map (\<lambda>e. e\<lparr>lc_count := 0\<rparr>) (take k (rotate b L)) @ drop k (rotate b L)"
    using Suc by simp
  have "?M ! ((b + k) mod 10) = rotate b ?M ! k" using len assms(1) Suc.prems by (simp add: nth_rotate)
  also have "\<dots> = rotate b L ! k" using IH assms(1) Suc.prems by (simp add: nth_append)
  finally have "rotate b (clear_at ?M ((b + k) mod 10)) = (rotate b ?M)[k := (rotate b L ! k)\<lparr>lc_count := 0\<rparr>]"
    using rotate_update[of ?M k b] len assms(1) Suc.prems by (simp add: clear_at_def)
  moreover have "drop k (rotate b L) = rotate b L ! k # drop (Suc k) (rotate b L)"
    using assms(1) Suc.prems by (simp add: Cons_nth_drop_Suc)
  ultimately show ?case using IH assms(1) Suc.prems
    by (simp add: add.commute[of k] take_Suc_conv_app_nth list_update_append)
qed simp

lemma until_end_take: "distinct ps \<Longrightarrow> k < length ps \<Longrightarrow> until_end (ps ! k) ps = take (Suc k) ps"
proof (induction ps arbitrary: k)
  case (Cons p ps)
  then show ?case by (cases k) auto
qed simp

lemma range_positions_eq:
  assumes "Suc k < 10"
  shows "range_positions ((old + 1) mod 10) (((old + 1 + Suc k) mod 10 + 10 - 1) mod 10) =
    map (\<lambda>i. (i + (old + 1)) mod 10) [0..<Suc k]"
proof -
  let ?ps = "map (\<lambda>i. (i + (old + 1)) mod 10) [0..<10]"
  have d: "distinct ?ps" using ring_index_inj[of _ _ "old + 1"]
    by (auto simp: distinct_map inj_on_def add.commute)
  have n: "?ps ! k = ((old + 1 + Suc k) mod 10 + 10 - 1) mod 10"
  proof -
    have "x + 10 - 1 = x + 9" for x :: nat by simp
    moreover have "(k + (old + 1)) mod 10 = ((old + 1 + Suc k) mod 10 + 9) mod 10"
    proof -
      have "old + 1 + Suc k + 9 = (k + (old + 1)) + 10" by simp
      then show ?thesis by (metis mod_add_left_eq mod_add_self2)
    qed
    moreover have "?ps ! k = (k + (old + 1)) mod 10" using assms by simp
    ultimately show ?thesis by (simp only:)
  qed
  have m: "map (\<lambda>i. (i + (old + 1) mod 10) mod 10) [0..<10] = ?ps"
    by (simp only: mod_add_right_eq)
  have t: "take (Suc k) ?ps = map (\<lambda>i. (i + (old + 1)) mod 10) [0..<Suc k]"
    using assms by (simp add: take_map take_upt del: upt_Suc)
  have "until_end (?ps ! k) ?ps = take (Suc k) ?ps" using assms by (intro until_end_take[OF d]) simp
  then show ?thesis unfolding range_positions_def m n t .
qed

lemma ring_index_exists:
  fixes b p :: nat
  assumes "p < 10"
  shows "(b + (p + (10 - b mod 10)) mod 10) mod 10 = p"
proof -
  obtain q a where b: "b = q * 10 + a" "a < 10" using that[of "b div 10" "b mod 10"] by simp
  then have "b + (p + (10 - b mod 10)) = p + (q + 1) * 10" by simp
  then have "(b + (p + (10 - b mod 10))) mod 10 = p" using assms by (simp only: mod_mult_self1 mod_less)
  then show ?thesis by (simp only: mod_add_right_eq)
qed

lemma ring_split:
  assumes "length (ski_loop_log s) = 10" "p < 10"
  obtains U V where "ring s = U @ ski_loop_log s ! p # V"
    "p = (nat (ski_loop_log_head s + 1) + length U) mod 10"
proof -
  let ?b = "nat (ski_loop_log_head s + 1)"
  define k where "k = (p + (10 - ?b mod 10)) mod 10"
  have k: "k < 10" by (simp add: k_def)
  have p: "(?b + k) mod 10 = p" unfolding k_def by (rule ring_index_exists[OF assms(2)])
  have n: "ring s ! k = ski_loop_log s ! p" using assms(1) k p by (simp add: ring_def nth_rotate)
  have "ring s = take k (ring s) @ ring s ! k # drop (Suc k) (ring s)"
    using k assms(1) by (intro id_take_nth_drop) (simp add: ring_def)
  then have e: "ring s = take k (ring s) @ ski_loop_log s ! p # drop (Suc k) (ring s)" unfolding n .
  have l: "length (take k (ring s)) = k" using k assms(1) by (simp add: ring_def)
  show ?thesis by (rule that[OF e]) (simp only: l p)
qed

lemma pending_eq_small: "c \<le> 10 \<Longrightarrow> pending c xs ys = []"
  by (simp add: pending_def)

lemma pending_advance:
  assumes "key r' = key r" "live U = [] \<or> c = 11" "11 \<le> c" "xs = live U @ r # zs"
  shows "pending c zs (ys @ [r']) = pending c xs ys @ [key r]"
  using assms by (auto simp: pending_def)

lemma pending_restart:
  assumes "key r' = key r" "11 \<le> c" "xs = [] \<or> c = 11"
  shows "pending (c + 1) vs [r'] = pending c xs (r # vs) @ [key r]"
proof (cases "c = 11")
  case False
  then have "nat (c + 1 - 11) = Suc (nat (c - 11))" "xs = []" using assms by auto
  then show ?thesis using assms(1,2) concat_replicate_last[of "Suc (nat (c - 11))" "key r # map key vs"]
    by (simp add: pending_def del: replicate_Suc)
qed (use assms in \<open>simp add: pending_def\<close>)

lemma jump_repr:
  assumes repr: "loop_repr s v c xs ys" and R: "ring s = U @ r # V" and r: "0 < lc_count r"
    and s': "length (ski_loop_log s') = 10" "0 \<le> ski_loop_log_head s'" "ski_loop_log_head s' < 10"
      "ring s' = V @ Z @ [r']" "live Z = []" "ski_loop_log s' ! nat (ski_loop_log_head s') = r'"
    and r': "lc_count r' = lc_count r + 1" "key r' = key r"
    and U10: "\<not> (\<exists>e\<in>set U. lc_count e > 10)"
  shows "\<exists>c' xs' ys'. loop_repr s' v c' xs' ys' \<and>
    pending c' xs' ys' = pending c xs ys @ (if lc_count r \<ge> 10 then [key r] else [])"
proof -
  have UV: "live U @ r # live V = xs @ ys" and cx: "counts (c - 1) xs" and cy: "counts c ys"
    using repr R r by (simp_all add: loop_repr_def)
  have U11: "live U = []" if "counts k U" "k > 10" for k
    using U10 that by (induction U) auto
  have lv: "live (ring s') = live V @ [r']" using s' r r' by simp
  have vd: "list_all (\<lambda>e. lc_vcpu e = v) (live U @ r # live V)" "distinct (map lc_eip (live U @ r # live V))"
    using repr unfolding UV loop_repr_def by simp_all
  have kr: "lc_vcpu r' = lc_vcpu r" "lc_eip r' = lc_eip r" using r'(2) by (simp_all add: key_def)
  consider zs where "xs = live U @ r # zs" "live V = zs @ ys"
    | us where "live U = xs @ us" "ys = us @ r # live V"
    using UV by (auto simp: append_eq_append_conv2 Cons_eq_append_conv append_eq_Cons_conv)
  then show ?thesis
  proof cases
    case 1
    have lr: "lc_count r = c - 1" "counts (c - 1) U" using cx 1(1) r by simp_all
    have "loop_repr s' v c zs (ys @ [r'])"
      using s' lv 1 cx cy vd kr r' lr r by (auto simp: loop_repr_def)
    moreover have "pending c zs (ys @ [r']) = pending c xs ys @ (if lc_count r \<ge> 10 then [key r] else [])"
    proof (cases "11 \<le> c")
      case True
      then have "live U = [] \<or> c = 11" using U11[OF lr(2)] by linarith
      from pending_advance[OF r'(2) this True 1(1)] show ?thesis using True lr by simp
    qed (simp add: lr pending_eq_small)
    ultimately show ?thesis by blast
  next
    case 2
    have lr: "lc_count r = c" "counts c us" "counts (c - 1) xs" using cy cx 2(2) r by simp_all
    have "loop_repr s' v (c + 1) (live V) [r']"
      using s' lv 2 cy vd kr r' lr r by (auto simp: loop_repr_def)
    moreover have "pending (c + 1) (live V) [r'] = pending c xs ys @ (if lc_count r \<ge> 10 then [key r] else [])"
    proof (cases "11 \<le> c")
      case True
      have "us = []"
      proof (cases us)
        case (Cons e es)
        then have "e \<in> set (live U)" using 2(1) by simp
        then show ?thesis using U10 lr(2) Cons True by auto
      qed simp
      moreover have "xs = [] \<or> c = 11"
      proof (cases xs)
        case (Cons e es)
        then have "e \<in> set (live U)" using 2(1) by simp
        then show ?thesis using U10 lr(3) Cons True by auto
      qed simp
      ultimately have "us = []" "xs = [] \<or> c = 11" by blast+
      from pending_restart[OF r'(2) True this(2), of "live V"] this(1) show ?thesis using True lr 2 by simp
    next
      case False
      then show ?thesis using lr r'(2) by (cases "c = 10") (auto simp: pending_def)
    qed
    ultimately show ?thesis by blast
  qed
qed

section \<open>One instruction\<close>

definition fresh_entry :: "int \<Rightarrow> int \<Rightarrow> loop_regs \<Rightarrow> ski_loop_execution_context" where
  "fresh_entry v eip regs = \<lparr>lc_count = 1, lc_vcpu = v, lc_eip = eip, lc_regs = regs\<rparr>"

lemma fresh_entry_simps [simp]:
  "lc_count (fresh_entry v eip regs) = 1" "lc_vcpu (fresh_entry v eip regs) = v"
  "lc_eip (fresh_entry v eip regs) = eip"
  by (simp_all add: fresh_entry_def)

lemma store_new:
  "lc_eip e \<noteq> eip \<or> lc_count e \<le> 0 \<Longrightarrow> ski_loop_store_instruction e v eip regs u = fresh_entry v eip regs"
  by (auto simp: ski_loop_store_instruction_def fresh_entry_def)

lemma store_again:
  assumes "lc_eip e = eip" "0 < lc_count e" "lc_vcpu e = v"
  shows "lc_count (ski_loop_store_instruction e v eip regs u) = lc_count e + 1"
    "key (ski_loop_store_instruction e v eip regs u) = key e"
  using assms by (simp_all add: ski_loop_store_instruction_def Let_def key_def)

lemma single_repr:
  assumes "length L = 10" "live L = []" "p < 10" "ski_loop_log s = L[p := fresh_entry v eip regs]"
    "ski_loop_log_head s = int p"
  shows "loop_repr s v 1 [] [fresh_entry v eip regs]"
proof -
  have L: "rotate 0 L = take p L @ L ! p # drop (Suc p) L" using assms(1,3) by (simp add: id_take_nth_drop)
  have "live (take p L @ L ! p # drop (Suc p) L) = []" using assms(2) L by simp
  then have "live (take p L) = []" "live (drop (Suc p) L) = []" by (simp_all split: if_splits)
  moreover have "ring s = drop (Suc p) L @ take p L @ [fresh_entry v eip regs]"
    using ring_store[OF assms(1) L] assms by (simp add: ring_def nat_add_distrib del: rotate_Suc)
  ultimately show ?thesis using assms by (simp add: loop_repr_def)
qed

lemma append_repr:
  assumes repr: "loop_repr s v 1 xs ys" and eip: "eip \<notin> lc_eip ` set (live (ring s))"
    and head: "0 \<le> ski_loop_log_head s"
    and p: "p = nat (ski_loop_log_head s + 1) mod 10"
    and s': "ski_loop_log s' = (ski_loop_log s)[p := fresh_entry v eip regs]" "ski_loop_log_head s' = int p"
  shows "\<exists>ys'. loop_repr s' v 1 [] ys'"
proof -
  let ?n = "fresh_entry v eip regs"
  have len: "length (ski_loop_log s) = 10" using repr by (simp add: loop_repr_def)
  then have "ring s \<noteq> []" by (auto simp: ring_def)
  then obtain u V where R: "ring s = u # V" by (cases "ring s") auto
  have "ring s' = V @ [?n]"
    using ring_store[OF len, of "nat (ski_loop_log_head s + 1)" "[]" u V ?n] R s' p
    by (simp add: ring_def nat_add_distrib del: rotate_Suc)
  then have lv: "live (ring s') = live V @ [?n]" by simp
  have xs: "xs = []"
  proof (cases xs)
    case (Cons x xs')
    then have "x \<in> set (live (ring s))" using repr by (simp add: loop_repr_def)
    then show ?thesis using repr Cons by (auto simp: loop_repr_def)
  qed simp
  then have lu: "live (u # V) = ys" using repr R by (simp add: loop_repr_def)
  have "counts 1 (live (u # V))" using repr unfolding lu by (simp add: loop_repr_def)
  then have "counts 1 V" by (simp only: counts_live counts_simps)
  moreover have "list_all (\<lambda>e. lc_vcpu e = v) (live V)" "distinct (map lc_eip (live V))"
    using repr lu by (auto simp: loop_repr_def split: if_splits)
  ultimately have sub: "counts 1 V" "list_all (\<lambda>e. lc_vcpu e = v) (live V)" "distinct (map lc_eip (live V))"
    by blast+
  have "eip \<notin> lc_eip ` set (live V)" using eip R by (auto split: if_splits)
  then have "distinct (map lc_eip (live V @ [?n]))" using sub(3) by auto
  then show ?thesis using lv sub len s' p by (intro exI[of _ "live V @ [?n]"]) (simp add: loop_repr_def)
qed

text \<open>\<open>q\<close> is what was executed so far and \<open>N\<close> bounds the entries written or pending.\<close>

definition loop_ok :: "loop_trace \<Rightarrow> int \<Rightarrow> instr list \<Rightarrow> int \<Rightarrow> bool" where
  "loop_ok s v q N \<longleftrightarrow> trace_fd s \<and> opt_trace_instructions s \<and>
    (\<exists>c xs ys d. loop_repr s v c xs ys \<and> decompress (trace_out s) = (d, None) \<and>
       q = d @ pending c xs ys \<and> trace_nr_entries s + int (length (pending c xs ys)) \<le> N)"

definition written :: "loop_trace \<Rightarrow> int \<Rightarrow> instr list \<Rightarrow> int \<Rightarrow> bool" where
  "written s v q N \<longleftrightarrow> trace_fd s \<and> opt_trace_instructions s \<and>
    (\<exists>c xs ys. loop_repr s v c xs ys \<and> pending c xs ys = [] \<and>
       decompress (trace_out s) = (q, None) \<and> trace_nr_entries s \<le> N)"

lemma loop_okI:
  "trace_fd s \<Longrightarrow> opt_trace_instructions s \<Longrightarrow> loop_repr s v c xs ys \<Longrightarrow>
    decompress (trace_out s) = (d, None) \<Longrightarrow> q = d @ pending c xs ys \<Longrightarrow>
    trace_nr_entries s + int (length (pending c xs ys)) \<le> N \<Longrightarrow> loop_ok s v q N"
  unfolding loop_ok_def by blast

lemma writtenI:
  "trace_fd s \<Longrightarrow> opt_trace_instructions s \<Longrightarrow> loop_repr s v c xs ys \<Longrightarrow> pending c xs ys = [] \<Longrightarrow>
    decompress (trace_out s) = (q, None) \<Longrightarrow> trace_nr_entries s \<le> N \<Longrightarrow> written s v q N"
  unfolding written_def by blast

lemma flush_ok:
  assumes "loop_ok s v q N" "N < SKI_EXEC_TRACE_MAX_ENTRIES"
  obtains s1 where "ski_loop_print_reset_all s = Inr (clear_log s1)" "ski_loop_log s1 = ski_loop_log s"
    "length (ski_loop_log s) = 10" "trace_fd s1" "opt_trace_instructions s1"
    "decompress (trace_out s1) = (q, None)" "trace_nr_entries s1 \<le> N"
proof -
  obtain c xs ys d where r: "loop_repr s v c xs ys" "decompress (trace_out s) = (d, None)"
      "q = d @ pending c xs ys" "trace_nr_entries s + int (length (pending c xs ys)) \<le> N"
    and fd: "trace_fd s" "opt_trace_instructions s" using assms(1) by (auto simp: loop_ok_def)
  have "trace_nr_entries s + int (length (pending c xs ys)) < SKI_EXEC_TRACE_MAX_ENTRIES"
    using r(4) assms(2) by linarith
  from flush_repr[OF r(1) fd(1) this r(2)] obtain ls n where
    "ski_loop_print_reset_all s = Inr (clear_log (emitted s ls n))" "n \<le> length (pending c xs ys)"
    "decompress (trace_out s @ ls) = (d @ pending c xs ys, None)" .
  then show ?thesis using that[of "emitted s ls n"] r fd by (simp add: loop_repr_def)
qed

lemma store_head: "(store_at s p v eip regs u)\<lparr>ski_loop_log_head := h\<rparr> =
    store_at (s\<lparr>ski_loop_log_head := h\<rparr>) p v eip regs u"
  by (simp add: store_at_def)

lemma dead_store:
  assumes "length (ski_loop_log s) = 10" "live (ski_loop_log s) = []" "p < 10" "trace_fd s" "opt_trace_instructions s"
    "decompress (trace_out s) = (q, None)" "trace_nr_entries s \<le> N"
  shows "written (store_at (s\<lparr>ski_loop_log_head := int p\<rparr>) p v eip regs u) v q N"
proof -
  let ?s = "store_at (s\<lparr>ski_loop_log_head := int p\<rparr>) p v eip regs u"
  have "ski_loop_log s ! p \<notin> set (live (ski_loop_log s))" using assms(2) by simp
  then have "lc_count (ski_loop_log s ! p) \<le> 0" using assms(1,3) nth_mem[of p "ski_loop_log s"] by simp
  then have "loop_repr ?s v 1 [] [fresh_entry v eip regs]"
    using assms by (intro single_repr[of "ski_loop_log s" p]) (simp_all add: store_new store_at_def)
  moreover have "pending 1 [] [fresh_entry v eip regs] = []" by (simp add: pending_eq_small)
  ultimately show ?thesis unfolding written_def using assms(4-7) by (auto simp: store_at_def)
qed

lemma find_entry_Some:
  assumes "ski_loop_find_entry s eip = Some p" "length (ski_loop_log s) = 10"
  shows "p < 10" "0 < lc_count (ski_loop_log s ! p)" "lc_eip (ski_loop_log s ! p) = eip"
  using assms index_from_Some[of _ 0 "ski_loop_log s" p] by (auto simp: ski_loop_find_entry_def)

lemma find_entry_None:
  assumes "ski_loop_find_entry s eip = None"
  shows "eip \<notin> lc_eip ` set (live (ring s))"
  using assms by (auto simp: ski_loop_find_entry_def index_from_None ring_def)

lemma jump_state:
  assumes ok: "loop_ok s v q N" and R: "ring s = U @ r # V" and r: "0 < lc_count r" "lc_eip r = eip" "lc_vcpu r = v"
    and U10: "\<not> (\<exists>e\<in>set U. lc_count e > 10)"
    and t: "length (ski_loop_log t) = 10" "ring t = U' @ r # V" "length U' = length U" "live U' = [] \<or> U' = []"
      "ski_loop_log_head t = ski_loop_log_head s" "trace_fd t" "opt_trace_instructions t"
      "trace_out t = trace_out s" "trace_nr_entries t = trace_nr_entries s"
    and p: "p = (nat (ski_loop_log_head s + 1) + length U) mod 10"
    and s': "s' = t\<lparr>ski_loop_log_head := int p,
                   ski_loop_log := (ski_loop_log t)[p := ski_loop_store_instruction r v eip regs u]\<rparr>"
  shows "if lc_count r \<ge> 10 then loop_ok s' v (q @ [(v, eip)]) (N + 1) else written s' v q N"
proof -
  let ?r = "ski_loop_store_instruction r v eip regs u"
  obtain c xs ys d where o: "loop_repr s v c xs ys" "decompress (trace_out s) = (d, None)"
      "q = d @ pending c xs ys" "trace_nr_entries s + int (length (pending c xs ys)) \<le> N"
    using ok by (auto simp: loop_ok_def)
  have "ring s' = V @ U' @ [?r]"
    using ring_store[OF t(1), of "nat (ski_loop_log_head t + 1)" U' r V ?r] t(2,3,5) p s'
    by (simp add: ring_def nat_add_distrib del: rotate_Suc)
  moreover have "live U' = []" using t(4) by auto
  moreover have "p < 10" using p by simp
  ultimately obtain c' xs' ys' where n: "loop_repr s' v c' xs' ys'"
    "pending c' xs' ys' = pending c xs ys @ (if lc_count r \<ge> 10 then [key r] else [])"
    using jump_repr[OF o(1) R r(1), of s' U' ?r] store_again[OF r(2,1,3)] U10 t(1) s' by auto
  have "trace_fd s'" "opt_trace_instructions s'" "trace_out s' = trace_out s" "trace_nr_entries s' = trace_nr_entries s"
    using t(6-9) s' by simp_all
  moreover have "key r = (v, eip)" using r(2,3) by (simp add: key_def)
  ultimately have I: "trace_fd s'" "opt_trace_instructions s'" "decompress (trace_out s') = (d, None)"
    "trace_nr_entries s' = trace_nr_entries s" "key r = (v, eip)" using o(2) by simp_all
  show ?thesis
  proof (cases "lc_count r \<ge> 10")
    case True
    then show ?thesis using loop_okI[OF I(1,2) n(1) I(3)] n(2) o(3,4) I(4,5) by simp
  next
    case False
    have "live (ring s) = xs @ ys" using o(1) by (simp add: loop_repr_def)
    moreover have "r \<in> set (live (ring s))" unfolding R using r(1) by simp
    ultimately have "r \<in> set (xs @ ys)" by (simp only:)
    moreover have "lc_count r = k" if "counts k es" "r \<in> set es" for k es
      using that r(1) by (induction es) auto
    ultimately have "c \<le> 10" using o(1) False by (fastforce simp: loop_repr_def)
    then have "pending c xs ys = []" by (rule pending_eq_small)
    then show ?thesis using False n o(3,4) I unfolding written_def by auto
  qed
qed

definition added :: "loop_trace \<times> bool \<Rightarrow> int \<Rightarrow> int \<Rightarrow> instr list \<Rightarrow> int \<Rightarrow> bool" where
  "added sr v eip q N =
    (if snd sr then written (fst sr) v q N else loop_ok (fst sr) v (q @ [(v, eip)]) (N + 1))"

lemma loop_repr_cong:
  "ski_loop_log s' = ski_loop_log s \<Longrightarrow> ski_loop_log_head s' = ski_loop_log_head s \<Longrightarrow>
    loop_repr s' v c xs ys = loop_repr s v c xs ys"
  by (simp add: loop_repr_def ring_def)

lemma progress_ok:
  assumes "loop_ok s v q N"
  shows "loop_ok (ski_exec_trace_print_comment s (Loop_in_progress n)) v q N"
proof -
  obtain c xs ys d where o: "trace_fd s" "opt_trace_instructions s" "loop_repr s v c xs ys"
      "decompress (trace_out s) = (d, None)" "q = d @ pending c xs ys"
      "trace_nr_entries s + int (length (pending c xs ys)) \<le> N"
    using assms by (auto simp: loop_ok_def)
  let ?s = "ski_exec_trace_print_comment s (Loop_in_progress n)"
  have "loop_repr ?s v c xs ys"
    using o(3) loop_repr_cong[of ?s s] by (simp add: ski_exec_trace_print_comment_def)
  then show ?thesis using o by (intro loop_okI) (simp_all add: ski_exec_trace_print_comment_def)
qed

lemma ok_length: "loop_ok s v q N \<Longrightarrow> length (ski_loop_log s) = 10 \<and> ski_loop_log_head s < 10"
  by (auto simp: loop_ok_def loop_repr_def)

lemma jump_next_ok:
  assumes ok: "loop_ok s v q N" and head: "0 \<le> ski_loop_log_head s"
    and p: "p < 10" "p = (nat (ski_loop_log_head s) + 1) mod 10"
    and r: "0 < lc_count (ski_loop_log s ! p)" "lc_eip (ski_loop_log s ! p) = eip" "lc_vcpu (ski_loop_log s ! p) = v"
  shows "added (jump_next s p v eip regs) v eip q N"
proof -
  have len: "length (ski_loop_log s) = 10" using ok_length[OF ok] by simp
  have b: "nat (ski_loop_log_head s + 1) = nat (ski_loop_log_head s) + 1" using head by simp
  obtain U V where UV: "ring s = U @ ski_loop_log s ! p # V" "p = (nat (ski_loop_log_head s + 1) + length U) mod 10"
    by (rule ring_split[OF len p(1)])
  have "length U < 10" using arg_cong[OF UV(1), of length] len by (simp add: ring_def)
  then have "U = []"
    using ring_index_inj[of "length U" 0 "nat (ski_loop_log_head s) + 1"] UV(2) p(2) unfolding b by simp
  then have R: "ring s = [] @ ski_loop_log s ! p # V" "p = (nat (ski_loop_log_head s + 1) + length []) mod 10"
    using UV by simp_all
  have "trace_fd s" "opt_trace_instructions s" using ok by (simp_all add: loop_ok_def)
  note J = jump_state[OF ok R(1) r _ len R(1) _ _ _ this _ _ R(2) refl, of regs, simplified]
  show ?thesis using J[of False] J[of True] progress_ok
    by (auto simp: jump_next_def added_def store_at_def Let_def)
qed

lemma clear_dead:
  assumes "live L = []"
  shows "live (foldl clear_at L ps) = [] \<and> length (foldl clear_at L ps) = length L"
  using assms
proof (induction ps arbitrary: L)
  case (Cons p ps)
  have "e \<notin> set (live (clear_at L p))" for e
  proof
    assume "e \<in> set (live (clear_at L p))"
    then have "e \<in> insert ((L ! p)\<lparr>lc_count := 0\<rparr>) (set L)" "0 < lc_count e"
      using set_update_subset_insert[of L p] by (auto simp: clear_at_def)
    then have "e \<in> set (live L)" by auto
    then show False using Cons.prems by simp
  qed
  then have "live (clear_at L p) = []" by (cases "live (clear_at L p)") auto
  then show ?case using Cons.IH[of "clear_at L p"] by (simp add: clear_at_def)
qed simp

lemma range_of_split:
  assumes len: "length (ski_loop_log s) = 10" and head: "0 \<le> ski_loop_log_head s"
    and R: "ring s = U @ r # V" and U: "U \<noteq> []"
    and p: "p = (nat (ski_loop_log_head s + 1) + length U) mod 10"
  defines "ps \<equiv> range_positions ((nat (ski_loop_log_head s) + 1) mod 10) ((p + 10 - 1) mod 10)"
  shows "(\<exists>i\<in>set ps. lc_count (ski_loop_log s ! i) > 10) \<longleftrightarrow> (\<exists>e\<in>set U. lc_count e > 10)"
    and "rotate (nat (ski_loop_log_head s + 1)) (foldl clear_at (ski_loop_log s) ps) =
      map (\<lambda>e. e\<lparr>lc_count := 0\<rparr>) U @ r # V"
proof -
  let ?b = "nat (ski_loop_log_head s) + 1"
  have b: "nat (ski_loop_log_head s + 1) = ?b" using head by simp
  have lR: "length U + length V = 9" using arg_cong[OF R, of length] len by (simp add: ring_def)
  obtain k where k: "length U = Suc k" using U by (cases U) auto
  have ps: "ps = map (\<lambda>i. (i + ?b) mod 10) [0..<length U]"
    using range_positions_eq[of k "nat (ski_loop_log_head s)"] k lR p unfolding ps_def b by simp
  have at: "ski_loop_log s ! ((i + ?b) mod 10) = U ! i" if "i < length U" for i
  proof -
    have "ring s ! i = ski_loop_log s ! ((?b + i) mod 10)" using that len lR nth_rotate[of i "ski_loop_log s" ?b]
      unfolding ring_def b by (simp del: rotate_Suc)
    moreover have "ring s ! i = U ! i" using that by (simp add: R nth_append)
    ultimately show ?thesis by (simp add: add.commute)
  qed
  show "(\<exists>i\<in>set ps. lc_count (ski_loop_log s ! i) > 10) \<longleftrightarrow> (\<exists>e\<in>set U. lc_count e > 10)"
  proof -
    have "(\<exists>i\<in>set ps. lc_count (ski_loop_log s ! i) > 10) \<longleftrightarrow> (\<exists>i<length U. lc_count (U ! i) > 10)"
      unfolding ps using at by (simp add: Bex_def)
    also have "\<dots> \<longleftrightarrow> (\<exists>e\<in>set U. lc_count e > 10)" by (metis in_set_conv_nth)
    finally show ?thesis .
  qed
  show "rotate (nat (ski_loop_log_head s + 1)) (foldl clear_at (ski_loop_log s) ps) =
      map (\<lambda>e. e\<lparr>lc_count := 0\<rparr>) U @ r # V"
    using rotate_clear[OF len, of "length U" ?b] lR R unfolding ps b ring_def by simp
qed

lemma jump_distant_ok:
  assumes ok: "loop_ok s v q N" and N: "N < SKI_EXEC_TRACE_MAX_ENTRIES" and head: "0 \<le> ski_loop_log_head s"
    and p: "p < 10" "p \<noteq> (nat (ski_loop_log_head s) + 1) mod 10"
    and r: "0 < lc_count (ski_loop_log s ! p)" "lc_eip (ski_loop_log s ! p) = eip" "lc_vcpu (ski_loop_log s ! p) = v"
  shows "\<exists>sr. jump_distant s (nat (ski_loop_log_head s)) p v eip regs = Inr sr \<and> added sr v eip q N"
proof -
  let ?r = "ski_loop_log s ! p"
  let ?ps = "range_positions ((nat (ski_loop_log_head s) + 1) mod 10) ((p + 10 - 1) mod 10)"
  have len: "length (ski_loop_log s) = 10" using ok_length[OF ok] by simp
  obtain U V where UV: "ring s = U @ ?r # V" "p = (nat (ski_loop_log_head s + 1) + length U) mod 10"
    by (rule ring_split[OF len p(1)])
  have "U \<noteq> []" using UV(2) p(2) head by (auto simp: nat_add_distrib)
  note range = range_of_split[OF len head UV(1) this UV(2)]
  show ?thesis
  proof (cases "\<exists>e\<in>set U. lc_count e > 10")
    case True
    obtain s1 where f: "ski_loop_print_reset_all s = Inr (clear_log s1)" "ski_loop_log s1 = ski_loop_log s"
      "length (ski_loop_log s) = 10" "trace_fd s1" "opt_trace_instructions s1"
      "decompress (trace_out s1) = (q, None)" "trace_nr_entries s1 \<le> N" by (rule flush_ok[OF ok N])
    let ?t = "(clear_log s1)\<lparr>ski_loop_log := foldl clear_at (ski_loop_log (clear_log s1)) ?ps\<rparr>"
    have t: "live (ski_loop_log ?t) = []" "length (ski_loop_log ?t) = 10"
      using clear_dead[of "ski_loop_log (clear_log s1)" ?ps] f(2) len by simp_all
    have "ski_loop_log ?t ! p \<notin> set (live (ski_loop_log ?t))" using t(1) by simp
    then have "lc_count (ski_loop_log ?t ! p) \<le> 0" using t(2) p(1) nth_mem[of p "ski_loop_log ?t"] by simp
    moreover have "written (store_at (?t\<lparr>ski_loop_log_head := int p\<rparr>) p v eip regs True) v q N"
      using t p(1) f by (intro dead_store) simp_all
    ultimately show ?thesis using True range(1) f(1)
      by (simp add: jump_distant_def ski_loop_print_reset_range_def added_def Let_def)
  next
    case False
    let ?t = "s\<lparr>ski_loop_log := foldl clear_at (ski_loop_log s) ?ps\<rparr>"
    have rt: "ring ?t = map (\<lambda>e. e\<lparr>lc_count := 0\<rparr>) U @ ?r # V" using range(2) by (simp add: ring_def)
    have lt: "length (ski_loop_log ?t) = 10" using arg_cong[OF rt, of length] arg_cong[OF UV(1), of length] len
      by (simp add: ring_def)
    have tp: "ski_loop_log ?t ! p = ?r"
    proof -
      have "ring ?t ! length U = ski_loop_log ?t ! ((nat (ski_loop_log_head s + 1) + length U) mod 10)"
        using lt arg_cong[OF rt, of length] unfolding ring_def by (simp add: nth_rotate)
      then show ?thesis unfolding rt UV(2)[symmetric] by (simp add: nth_append)
    qed
    have fd: "trace_fd s" "opt_trace_instructions s" using ok by (simp_all add: loop_ok_def)
    have J: "if lc_count ?r \<ge> 10
      then loop_ok (store_at (?t\<lparr>ski_loop_log_head := int p\<rparr>) p v eip regs u) v (q @ [(v, eip)]) (N + 1)
      else written (store_at (?t\<lparr>ski_loop_log_head := int p\<rparr>) p v eip regs u) v q N" for u
      by (rule jump_state[OF ok UV(1) r False lt rt _ _ _ _ _ _ _ UV(2), where regs = regs and u = u])
        (simp_all add: store_at_def tp[simplified] fd)
    show ?thesis using False range(1) tp J[of False] J[of True]
      by (cases "lc_count ?r \<ge> 10")
        (simp_all add: jump_distant_def ski_loop_print_reset_range_def added_def Let_def ex_bool_eq)
  qed
qed

lemma append_new_ok:
  assumes ok: "loop_ok s v q N" and N: "N < SKI_EXEC_TRACE_MAX_ENTRIES" and head: "0 \<le> ski_loop_log_head s"
    and eip: "eip \<notin> lc_eip ` set (live (ring s))"
  shows "\<exists>sr. append_new s (nat (ski_loop_log_head s)) v eip regs = Inr sr \<and> added sr v eip q N"
proof (cases "lc_count (ski_loop_log s ! nat (ski_loop_log_head s)) > 1")
  case True
  obtain s1 where f: "ski_loop_print_reset_all s = Inr (clear_log s1)" "ski_loop_log s1 = ski_loop_log s"
    "length (ski_loop_log s) = 10" "trace_fd s1" "opt_trace_instructions s1"
    "decompress (trace_out s1) = (q, None)" "trace_nr_entries s1 \<le> N" by (rule flush_ok[OF ok N])
  have "written (store_at ((clear_log s1)\<lparr>ski_loop_log_head := int 0\<rparr>) 0 v eip regs False) v q N"
    using f by (intro dead_store) simp_all
  then show ?thesis using True f(1) by (simp add: append_new_def added_def store_head)
next
  case False
  let ?p = "nat (ski_loop_log_head s + 1) mod 10"
  let ?s = "store_at (s\<lparr>ski_loop_log_head := int ?p\<rparr>) ?p v eip regs False"
  obtain c xs ys d where o: "trace_fd s" "opt_trace_instructions s" "loop_repr s v c xs ys"
      "decompress (trace_out s) = (d, None)" "q = d @ pending c xs ys"
      "trace_nr_entries s + int (length (pending c xs ys)) \<le> N"
    using ok by (auto simp: loop_ok_def)
  have len: "length (ski_loop_log s) = 10" using o(3) by (simp add: loop_repr_def)
  have "ys \<noteq> []" "last ys = ski_loop_log s ! nat (ski_loop_log_head s)" "live (ring s) = xs @ ys" "counts c ys"
    using o(3) head by (auto simp: loop_repr_def)
  moreover from this have "last ys \<in> set ys" "counts c [last ys]"
    using last_in_set[of ys] unfolding counts_def list_all_iff by auto
  ultimately have "last ys \<in> set (live (ring s))" "counts c [last ys]" "lc_count (last ys) \<le> 1"
    using False by (simp_all only: set_append Un_iff not_less simp_thms)
  then have "c = 1" by simp
  have "lc_eip (ski_loop_log s ! ?p) \<noteq> eip \<or> lc_count (ski_loop_log s ! ?p) \<le> 0"
    using eip nth_mem[of ?p "ski_loop_log s"] len by (force simp: ring_def)
  then have "ski_loop_log ?s = (ski_loop_log s)[?p := fresh_entry v eip regs]"
    by (simp add: store_at_def store_new)
  then obtain ys' where "loop_repr ?s v 1 [] ys'"
    using append_repr[OF o(3)[unfolded \<open>c = 1\<close>] eip head refl, of ?s] by (auto simp: store_at_def)
  then have "written ?s v q N" using o(1,2,4-6) \<open>c = 1\<close>
    by (intro writtenI[where c = 1 and xs = "[]" and ys = ys']) (simp_all add: store_at_def pending_def)
  then show ?thesis using False by (simp add: append_new_def added_def store_head Let_def ex_bool_eq)
qed

lemma add_instruction_ok:
  assumes ok: "loop_ok s v q N" and N: "N < SKI_EXEC_TRACE_MAX_ENTRIES"
  shows "\<exists>sr. ski_loop_add_instruction s v eip regs = Inr sr \<and> added sr v eip q N"
proof (cases "ski_loop_log_head s < 0")
  case True
  obtain c xs ys d where o: "trace_fd s" "opt_trace_instructions s" "loop_repr s v c xs ys"
      "decompress (trace_out s) = (d, None)" "q = d @ pending c xs ys"
      "trace_nr_entries s + int (length (pending c xs ys)) \<le> N"
    using ok by (auto simp: loop_ok_def)
  then have "ski_loop_log_head s = -1" "xs = []" "ys = []" "live (ski_loop_log s) = []" "length (ski_loop_log s) = 10"
    using True by (auto simp: loop_repr_def ring_def split: if_splits)
  then have "written (store_at (s\<lparr>ski_loop_log_head := int 0\<rparr>) 0 v eip regs False) v q N"
    using o by (intro dead_store) (simp_all add: pending_def)
  then show ?thesis using True by (simp add: ski_loop_add_instruction_def added_def store_head)
next
  case False
  then have head: "0 \<le> ski_loop_log_head s" by simp
  have len: "length (ski_loop_log s) = 10" using ok_length[OF ok] by simp
  show ?thesis
  proof (cases "ski_loop_find_entry s eip")
    case None
    then show ?thesis using append_new_ok[OF ok N head find_entry_None[OF None]] False
      by (simp add: ski_loop_add_instruction_def)
  next
    case (Some p)
    note p = find_entry_Some[OF Some len]
    have "ski_loop_log s ! p \<in> set (live (ring s))" using p len by (simp add: ring_def)
    moreover have "\<forall>e\<in>set (live (ring s)). lc_vcpu e = v"
      using ok unfolding loop_ok_def loop_repr_def list_all_iff by (elim conjE exE) (simp only: ball_simps)
    ultimately have v: "lc_vcpu (ski_loop_log s ! p) = v" by (rule bspec[rotated])
    show ?thesis
      using jump_next_ok[OF ok head p(1) _ p(2,3) v] jump_distant_ok[OF ok N head p(1) _ p(2,3) v] False Some v
      by (cases "p = (nat (ski_loop_log_head s) + 1) mod 10")
        (simp_all add: ski_loop_add_instruction_def ski_loop_equal_vcpu_regs_def)
  qed
qed

lemma trace_instruction_ok:
  assumes ok: "loop_ok s v q N" and N: "N + 1 < SKI_EXEC_TRACE_MAX_ENTRIES"
  shows "\<exists>s'. trace_instruction s v eip regs = Inr s' \<and> loop_ok s' v (q @ [(v, eip)]) (N + 1)"
proof -
  have fd: "trace_fd s" "trace_nr_entries s < SKI_EXEC_TRACE_MAX_ENTRIES"
    using ok N by (auto simp: loop_ok_def)
  have "N < SKI_EXEC_TRACE_MAX_ENTRIES" using N by simp
  from add_instruction_ok[OF ok this] obtain s1 ret where
    a: "ski_loop_add_instruction s v eip regs = Inr (s1, ret)" "added (s1, ret) v eip q N" by (metis surj_pair)
  show ?thesis
  proof (cases ret)
    case False
    then show ?thesis using a fd by (simp add: trace_instruction_def added_def)
  next
    case True
    then obtain c xs ys where w: "trace_fd s1" "opt_trace_instructions s1" "loop_repr s1 v c xs ys" "pending c xs ys = []"
       "decompress (trace_out s1) = (q, None)" "trace_nr_entries s1 \<le> N"
      using a(2) by (auto simp: added_def written_def)
    let ?s = "s1\<lparr>trace_out := trace_out s1 @ [Entry v eip regs], trace_nr_entries := trace_nr_entries s1 + 1\<rparr>"
    have "trace_nr_entries s1 \<noteq> SKI_EXEC_TRACE_MAX_ENTRIES - 1" using w(6) N by simp
    then have "trace_instruction s v eip regs = Inr ?s"
      using a(1) fd w True by (simp add: trace_instruction_def ski_exec_trace_print_entry_def)
    moreover have "loop_ok ?s v (q @ [(v, eip)]) (N + 1)"
      using w loop_repr_cong[of ?s s1]
      by (intro loop_okI[where c = c and xs = xs and ys = ys and d = "q @ [(v, eip)]"]) simp_all
    ultimately show ?thesis by blast
  qed
qed

section \<open>Whole traces\<close>

lemma cleared_ok:
  assumes "length (ski_loop_log s) = 10" "trace_fd s" "opt_trace_instructions s"
    "decompress (trace_out s) = (q, None)" "trace_nr_entries s \<le> N"
  shows "loop_ok (clear_log s) v q N"
  using assms cleared_repr[OF assms(1), of v 1]
  by (intro loop_okI[where c = 1 and xs = "[]" and ys = "[]" and d = q]) (simp_all add: pending_def)

lemma trace_run_ok:
  assumes "\<And>v. ov = None \<or> ov = Some v \<Longrightarrow> loop_ok s v q N" "flushed_between ov evs"
    "N + int (length (executed evs)) < SKI_EXEC_TRACE_MAX_ENTRIES"
  shows "\<exists>s' v. trace_run s evs = Inr s' \<and> loop_ok s' v (q @ executed evs) (N + int (length (executed evs)))"
  using assms
proof (induction evs arbitrary: s ov q N)
  case Nil
  then have "loop_ok s (case ov of None \<Rightarrow> 0 | Some v \<Rightarrow> v) q N" by (cases ov) simp_all
  then show ?case by (auto simp: trace_run_def)
next
  case (Cons ev evs)
  show ?case
  proof (cases ev)
    case (Exec v eip regs)
    then have "loop_ok s v q N" "flushed_between (Some v) evs" using Cons.prems by auto
    moreover have "N + 1 < SKI_EXEC_TRACE_MAX_ENTRIES" using Cons.prems(3) Exec by simp
    ultimately obtain s1 where s1: "trace_instruction s v eip regs = Inr s1" "loop_ok s1 v (q @ [(v, eip)]) (N + 1)"
      using trace_instruction_ok by blast
    obtain s' w where "trace_run s1 evs = Inr s'"
      "loop_ok s' w ((q @ [(v, eip)]) @ executed evs) (N + 1 + int (length (executed evs)))"
      using Cons.IH[of "Some v" s1 "q @ [(v, eip)]" "N + 1"] s1(2) Cons.prems(3) \<open>flushed_between (Some v) evs\<close> Exec
      by auto
    then show ?thesis using s1(1) Exec by (auto simp: trace_run_def add.assoc intro!: exI[of _ w])
  next
    case Flush
    have N: "N < SKI_EXEC_TRACE_MAX_ENTRIES" using Cons.prems(3) by simp
    obtain v where ok: "loop_ok s v q N" using Cons.prems(1) by (cases ov) auto
    obtain s1 where f: "ski_loop_print_reset_all s = Inr (clear_log s1)" "ski_loop_log s1 = ski_loop_log s"
      "length (ski_loop_log s) = 10" "trace_fd s1" "opt_trace_instructions s1"
      "decompress (trace_out s1) = (q, None)" "trace_nr_entries s1 \<le> N" by (rule flush_ok[OF ok N])
    then have "loop_ok (clear_log s1) v' q N" for v' by (intro cleared_ok) simp_all
    then obtain s' w where "trace_run (clear_log s1) evs = Inr s'"
      "loop_ok s' w (q @ executed evs) (N + int (length (executed evs)))"
      using Cons.IH[of None "clear_log s1" q N] Cons.prems(2,3) Flush by auto
    then show ?thesis using f(1) Flush by (auto simp: trace_run_def ski_loop_flush_def)
  qed
qed

text \<open>
  C7: the compressed trace is lossless.  For every run of instructions and flushes in which a
  CPU switch is preceded by a flush, starting the trace, executing the run and stopping the
  trace succeeds (in particular the counts of the ring never differ by more than one), and
  reading the file back, with every summarised loop repeated as often as it says, gives
  exactly the sequence of executed instructions.
\<close>

theorem loop_compression_lossless:
  assumes "length (ski_loop_log s) = SKI_LOOP_MAX_LOG_ENTRIES" "opt_trace_instructions s"
    "flushed_between None evs" "int (length (executed evs)) < SKI_EXEC_TRACE_MAX_ENTRIES"
  shows "\<exists>s'. bind_res (ski_exec_trace_start s) (\<lambda>s. bind_res (trace_run s evs) ski_exec_trace_stop) = Inr s' \<and>
    decompress (trace_out s') = (executed evs, None)"
proof -
  let ?s = "s\<lparr>trace_fd := True, trace_out := [], trace_nr_entries := 0,
      ski_loop_log := map (\<lambda>e. e\<lparr>lc_count := 0\<rparr>) (ski_loop_log s)\<rparr>"
  have "ski_loop_print_reset_all ?s = Inr (clear_log ?s)"
    using assms(1) scan_counts_dead[of ?s] by (simp add: ski_loop_print_reset_all_def rotate_map)
  then have start: "ski_exec_trace_start s = Inr (clear_log ?s)"
    by (simp add: ski_exec_trace_start_def ski_loop_init_def)
  have "loop_ok (clear_log ?s) v [] 0" for v
    using assms by (intro cleared_ok) (simp_all add: decompress_def)
  then obtain s' v where run: "trace_run (clear_log ?s) evs = Inr s'"
      "loop_ok s' v (executed evs) (int (length (executed evs)))"
    using trace_run_ok[of None "clear_log ?s" "[]" 0 evs] assms(3,4) by auto
  obtain s1 where f: "ski_loop_print_reset_all s' = Inr (clear_log s1)" "ski_loop_log s1 = ski_loop_log s'"
      "length (ski_loop_log s') = 10" "trace_fd s1" "opt_trace_instructions s1"
      "decompress (trace_out s1) = (executed evs, None)" "trace_nr_entries s1 \<le> int (length (executed evs))"
    by (rule flush_ok[OF run(2) assms(4)])
  then have "ski_exec_trace_stop s' = Inr ((clear_log s1)\<lparr>trace_fd := False\<rparr>)"
    using run(2) by (simp add: ski_exec_trace_stop_def ski_loop_finish_def ski_loop_flush_def loop_ok_def)
  then show ?thesis using start run(1) f(6) by simp
qed

definition sample_regs :: loop_regs where
  "sample_regs = \<lparr>lr_eax = 0, lr_ebx = 0, lr_ecx = 0, lr_edx = 0, lr_esp = 0, lr_ebp = 0, lr_esi = 0,
     lr_edi = 0, lr_cs = 0, lr_ss = 0, lr_ds = 0, lr_cr3 = 0, lr_gdt = 0\<rparr>"

definition sample_trace :: loop_trace where
  "sample_trace = \<lparr>ski_loop_log = replicate 10 \<lparr>lc_count = 0, lc_vcpu = 0, lc_eip = 0, lc_regs = sample_regs\<rparr>,
     ski_loop_log_head = -1, trace_fd = False, trace_out = [], trace_nr_entries = 0, opt_trace_instructions = True\<rparr>"

definition sample_events :: "trace_event list" where
  "sample_events = Exec 0 5 sample_regs # replicate 12 (Exec 0 7 sample_regs) @ [Flush, Exec 1 7 sample_regs]"

theorem loop_compression_lossless_witness:
  "executed sample_events = (0, 5) # replicate 12 (0, 7) @ [(1, 7)] \<and>
   (\<exists>s'. bind_res (ski_exec_trace_start sample_trace)
      (\<lambda>s. bind_res (trace_run s sample_events) ski_exec_trace_stop) = Inr s' \<and>
    decompress (trace_out s') = (executed sample_events, None))"
  using loop_compression_lossless[of sample_trace sample_events]
  by (simp add: sample_events_def sample_trace_def numeral_eq_Suc)

end
