(* ===== verification/Ski_Instrument.thy ===== *)
theory Ski_Instrument
  imports Ski_Hyper Ski_Stats Ski_Loop
begin

text \<open>
  The instrumentation that translated guest code calls (\<open>vmm/target-i386/op_helper.c\<close>): for
  every instruction, every possible preemption point, every load and store, pause, halt and
  interrupt.  It joins the scheduler, the detectors, the statistics and the trace.  It is
  shown when the preemption points of the plan take effect.  The address translation of the
  emulated memory management unit is a parameter \<open>page\<close>; the lines that report memory accesses in
  the trace are left out.
\<close>

section \<open>State\<close>

record instr_state =
  i_ski :: ski_state
  i_self :: "ski_stats option"
  i_trace :: loop_trace
  opt_race_detector :: bool
  opt_instructions_detector :: bool
  ski_ipfilter_hash :: "int list"

definition ski_stats_get_self :: "instr_state \<Rightarrow> ski_stats res" where
  "ski_stats_get_self st = (case i_self st of None \<Rightarrow> Inl Assert_failed | Some ss \<Rightarrow> Inr ss)"

definition set_eip :: "env \<Rightarrow> int \<Rightarrow> instr_state \<Rightarrow> instr_state" where
  "set_eip c eip st = st\<lparr>i_ski := upd_cpu c (\<lambda>e. e\<lparr>cpu_eip := eip\<rparr>) (i_ski st)\<rparr>"

text \<open>Operations of the scheduler and of the trace on the joint state.\<close>

definition on_ski :: "instr_state \<Rightarrow> (ski_state \<Rightarrow> ski_state res) \<Rightarrow> instr_state res" where
  "on_ski st f = bind_res (f (i_ski st)) (\<lambda>s. Inr (st\<lparr>i_ski := s\<rparr>))"

definition on_trace :: "instr_state \<Rightarrow> (loop_trace \<Rightarrow> loop_trace res) \<Rightarrow> instr_state res" where
  "on_trace st f = bind_res (f (i_trace st)) (\<lambda>t. Inr (st\<lparr>i_trace := t\<rparr>))"

definition comment :: "string \<Rightarrow> instr_state \<Rightarrow> instr_state" where
  "comment str st = st\<lparr>i_trace := Ski_Loop.ski_exec_trace_print_comment (i_trace st) (Comment str)\<rparr>"

section \<open>Memory accesses\<close>

definition dump_memory_access ::
  "instr_state \<Rightarrow> env \<Rightarrow> 32 word \<Rightarrow> nat \<Rightarrow> bool \<Rightarrow> instr_state res" where
  "dump_memory_access st c mem_address n_bits is_load =
    (if trace_fd (i_trace st) \<and> trace_nr_entries (i_trace st) < SKI_EXEC_TRACE_MAX_ENTRIES
     then bind_res (c_assert (n_bits = 8 \<or> n_bits = 16 \<or> n_bits = 32)) (\<lambda>_.
       if opt_forkall_enabled (i_ski st)
       then bind_res (null_check (i_self st)) (\<lambda>ss.
            bind_res (ski_stats_add_data_access ss mem_address (word_of_int (ski_last_eip (i_ski st)))
               (n_bits div 8) (\<not> is_load) (nat (cpu_index (cpu_of (i_ski st) c)))) (\<lambda>ss.
              Inr (st\<lparr>i_self := Some ss\<rparr>)))
       else Inr st)
     else Inr st)"

definition phys_addr :: "(32 word \<Rightarrow> 32 word) \<Rightarrow> 32 word \<Rightarrow> int" where
  "phys_addr page mem_address =
    (let paddr = page mem_address
     in sint (if paddr \<noteq> -1 then or (and paddr (not 0xFFF)) (and mem_address 0xFFF) else paddr))"

definition race_detector ::
  "(32 word \<Rightarrow> 32 word) \<Rightarrow> instr_state \<Rightarrow> env \<Rightarrow> 32 word \<Rightarrow> nat \<Rightarrow> int \<Rightarrow> instr_state res" where
  "race_detector page st c mem_address n_bits is_read =
    (if opt_race_detector st
     then bind_res (ski_stats_get_self st) (\<lambda>ss.
          bind_res (ski_race_detector_new_access (ss_rd ss) (cpu_index (cpu_of (i_ski st) c))
             (phys_addr page mem_address) (ski_last_eip (i_ski st)) (int (n_bits div 8)) is_read
             (ski_exec_instruction_counter_total (i_ski st))) (\<lambda>rd.
            Inr (st\<lparr>i_self := Some (ss\<lparr>ss_rd := rd\<rparr>)\<rparr>)))
     else Inr st)"

text \<open>The count of a read set that is not initialised is not defined; the model does not wait then.\<close>

definition helper_ski_load_access ::
  "(32 word \<Rightarrow> 32 word) \<Rightarrow> instr_state \<Rightarrow> env \<Rightarrow> 32 word \<Rightarrow> 32 word \<Rightarrow> nat \<Rightarrow> instr_state res" where
  "helper_ski_load_access page st c address v n_bits =
    (if \<not> ski_active (cpu_of (i_ski st) c) then Inr st
     else bind_res (dump_memory_access st c address n_bits True) (\<lambda>st.
          bind_res (race_detector page st c address n_bits 1) (\<lambda>st.
          bind_res (ski_liveness_store (sc_cpu_rs (sc_of (i_ski st) c)) (ski_last_eip (i_ski st))
             (sint address) (sint v)) (\<lambda>(rs, count).
            let st = st\<lparr>i_ski := upd_sc c (\<lambda>sc. sc\<lparr>sc_cpu_rs := rs\<rparr>) (i_ski st)\<rparr>
            in case count of
                 None \<Rightarrow> Inr st
               | Some n \<Rightarrow>
                   if n > SKI_MAX_LIVENESS_MA_LOOP_THRESHOLD
                   then on_ski st (\<lambda>s. ski_threads_self_wait_rs s c False) else Inr st))))"

definition helper_ski_store_access ::
  "(32 word \<Rightarrow> 32 word) \<Rightarrow> instr_state \<Rightarrow> env \<Rightarrow> 32 word \<Rightarrow> nat \<Rightarrow> instr_state res" where
  "helper_ski_store_access page st c address n_bits =
    (if \<not> ski_active (cpu_of (i_ski st) c) then Inr st
     else bind_res (dump_memory_access st c address n_bits False) (\<lambda>st.
          bind_res (race_detector page st c address n_bits 0) (\<lambda>st.
          bind_res (ski_threads_all_wake_rs (i_ski st) (sint address)) (\<lambda>(s, woke).
            Inr (st\<lparr>i_ski := s\<rparr>)))))"

section \<open>Preemption points\<close>

definition ski_correct_thread :: "ski_state \<Rightarrow> env \<Rightarrow> bool" where
  "ski_correct_thread s c \<longleftrightarrow> ski_active (cpu_of s c) \<and> sc_state (sc_of s c) \<noteq> SKI_CPU_NA"

definition ski_syscall_enter :: "ski_state \<Rightarrow> env \<Rightarrow> ski_state" where
  "ski_syscall_enter s c =
    (if \<not> ski_correct_thread s c
     then if ski_active (cpu_of s c)
          then upd_sc c (\<lambda>sc. sc\<lparr>sc_nr_syscalls_other := sc_nr_syscalls_other sc + 1\<rparr>) s else s
     else upd_sc c (\<lambda>sc. sc\<lparr>sc_nr_syscalls_self := sc_nr_syscalls_self sc + 1\<rparr>) s)"

definition ski_ipfilter_check :: "instr_state \<Rightarrow> int \<Rightarrow> bool" where
  "ski_ipfilter_check st eip =
    (if ski_ipfilter_hash st = [] then True else eip \<in> set (ski_ipfilter_hash st))"

definition set_all_nr_max :: "int \<Rightarrow> ski_state \<Rightarrow> ski_state" where
  "set_all_nr_max v s = s\<lparr>cpus := map (\<lambda>e. if ski_active e
     then e\<lparr>ski_cpu := (ski_cpu e)\<lparr>sc_nr_max_instr := v\<rparr>\<rparr> else e) (cpus s)\<rparr>"

text \<open>Taking a preemption: the current thread loses, and the next point of the plan is set.\<close>

definition do_preemption :: "instr_state \<Rightarrow> env \<Rightarrow> int \<Rightarrow> (instr_state \<times> flow) res" where
  "do_preemption st c explicit_eip =
    bind_res (on_trace (set_eip c explicit_eip st) ski_loop_flush) (\<lambda>st.
    bind_res (on_ski st ski_threads_invert_priority) (\<lambda>st.
      if opt_preemption_by_eip (i_ski st) then Inr (st, Loop_exited)
      else case ski_preemption_get_and_clear_lowest (opt_preemptions (i_ski st))
                  (sc_nr_max_instr (sc_of (i_ski st) c)) of
             (next_preemption_point, ps) \<Rightarrow>
               Inr (st\<lparr>i_ski := set_all_nr_max next_preemption_point ((i_ski st)\<lparr>opt_preemptions := ps\<rparr>)\<rparr>,
                    Loop_exited)))"

definition max_instructions_reached :: "instr_state \<Rightarrow> env \<Rightarrow> int \<Rightarrow> (instr_state \<times> flow) res" where
  "max_instructions_reached st c explicit_eip =
    bind_res (on_trace st ski_loop_finish) (\<lambda>st.
      let st = set_eip c explicit_eip (comment ''Max instructions for a test reached -> Resetting ski'' st)
      in if opt_forkall_enabled (i_ski st) then Inl (Ski_exit SKI_EXIT_MAX_PREEMPTION_INST)
         else Inr (st\<lparr>i_ski := ski_reset (i_ski st)\<rparr>, Loop_exited))"

definition helper_ski_instrument_possible_inversion_point ::
  "instr_state \<Rightarrow> env \<Rightarrow> int \<Rightarrow> (instr_state \<times> flow) res" where
  "helper_ski_instrument_possible_inversion_point st c explicit_eip =
    (if \<not> ski_active (cpu_of (i_ski st) c) then Inr (st, Returned)
     else if \<not> ski_preemption_mode_matches (i_ski st) then Inr (st, Returned)
     else if \<not> ski_correct_thread (i_ski st) c
     then Inr (st\<lparr>i_ski := upd_sc c (\<lambda>sc. sc\<lparr>sc_nr_instr_executed_other := sc_nr_instr_executed_other sc + 1\<rparr>)
                   (i_ski st)\<rparr>, Returned)
     else
       let s = upd_sc c (\<lambda>sc. sc\<lparr>sc_nr_instr_executed := sc_nr_instr_executed sc + 1\<rparr>) (i_ski st);
           s = s\<lparr>ski_sched_instructions_total := ski_sched_instructions_total s + 1\<rparr>;
           st = st\<lparr>i_ski := s\<rparr>
       in if ski_sched_instructions_total s \<ge> SKI_SCHED_MAX_PREEMPTION_INSTRUCTIONS
          then max_instructions_reached st c explicit_eip
          else if opt_preemption_by_eip s
          then if explicit_eip \<in> set (ski_preemption_by_eip s)
               then do_preemption (st\<lparr>i_ski := s\<lparr>ski_preemption_by_eip :=
                      remove1 explicit_eip (ski_preemption_by_eip s)\<rparr>\<rparr>) c explicit_eip
               else Inr (st, Returned)
          else if ski_sched_instructions_total s = sc_nr_max_instr (sc_of s c)
          then do_preemption st c explicit_eip
          else Inr (st, Returned))"

section \<open>Pause, halt, interrupts\<close>

definition helper_ski_instrument_pause :: "instr_state \<Rightarrow> env \<Rightarrow> instr_state res" where
  "helper_ski_instrument_pause st c =
    (if \<not> ski_active (cpu_of (i_ski st) c) then Inr st
     else bind_res (assert_current (i_ski st)) (\<lambda>i.
       let s = i_ski st;
           close = tc_last_pause (tc_of s i) + SKI_MAX_LIVENESS_PAUSE_DISTANCE
                     \<ge> ski_exec_instruction_counter_total s;
           st = st\<lparr>i_ski := upd_tc i (\<lambda>tc. tc\<lparr>tc_last_pause := ski_exec_instruction_counter_total s\<rparr>) s\<rparr>
       in if close
          then bind_res (on_trace st ski_loop_flush) (\<lambda>st.
                 on_ski st (\<lambda>s. ski_threads_self_wait_rs s c True))
          else bind_res (ski_liveness_reset (sc_cpu_rs (sc_of s c))) (\<lambda>rs.
                 Inr (st\<lparr>i_ski := upd_sc c (\<lambda>sc. sc\<lparr>sc_cpu_rs := rs\<rparr>) (i_ski st)\<rparr>))))"

definition helper_ski_instrument_pause_pos :: "instr_state \<Rightarrow> env \<Rightarrow> int \<Rightarrow> (instr_state \<times> flow) res" where
  "helper_ski_instrument_pause_pos st c explicit_eip =
    (if \<not> ski_active (cpu_of (i_ski st) c) then Inr (st, Returned)
     else bind_res (on_trace (set_eip c (explicit_eip + 2) st) ski_loop_flush) (\<lambda>st. Inr (st, Loop_exited)))"

definition ski_do_hlt :: "instr_state \<Rightarrow> env \<Rightarrow> instr_state res" where
  "ski_do_hlt st c =
    (if \<not> ski_active (cpu_of (i_ski st) c) then Inr st
     else bind_res (on_ski st (\<lambda>s. ski_threads_self_wait_hlt s c)) (\<lambda>st. on_trace st ski_loop_flush))"

definition helper_cli :: "ski_state \<Rightarrow> env \<Rightarrow> ski_state" where
  "helper_cli s c = upd_cpu c (\<lambda>e. e\<lparr>cpu_eflags := and (cpu_eflags e) (not IF_MASK)\<rparr>) s"

definition helper_sti :: "ski_state \<Rightarrow> env \<Rightarrow> ski_state" where
  "helper_sti s c =
    (let s = upd_cpu c (\<lambda>e. e\<lparr>cpu_eflags := or (cpu_eflags e) IF_MASK\<rparr>) s
     in if ski_active (cpu_of s c) then ski_threads_reevaluate s else s)"

text \<open>
  The hooks at the begin of an interrupt, after its frame has been pushed, and at its end.
  The values printed in the comment are left out.
\<close>

definition interrupt_begin_hook :: "instr_state \<Rightarrow> env \<Rightarrow> int \<Rightarrow> int \<Rightarrow> int \<Rightarrow> instr_state res" where
  "interrupt_begin_hook st c intno is_int is_hw =
    (if ski_active (cpu_of (i_ski st) c)
     then bind_res (on_trace st ski_loop_flush) (\<lambda>st.
            on_ski (comment ''Executing interrupt handler'' st)
              (\<lambda>s. ski_handle_interrupt_begin s c intno is_int is_hw))
     else Inr st)"

definition interrupt_count_hook :: "ski_state \<Rightarrow> env \<Rightarrow> ski_state" where
  "interrupt_count_hook s c =
    (if \<not> ski_correct_thread s c
     then if ski_active (cpu_of s c)
          then upd_sc c (\<lambda>sc. sc\<lparr>sc_nr_interrupts_other := sc_nr_interrupts_other sc + 1\<rparr>) s else s
     else upd_sc c (\<lambda>sc. sc\<lparr>sc_nr_interrupts_self := sc_nr_interrupts_self sc + 1\<rparr>) s)"

definition interrupt_end_hook :: "instr_state \<Rightarrow> env \<Rightarrow> (instr_state \<times> flow) res" where
  "interrupt_end_hook st c =
    (if ski_active (cpu_of (i_ski st) c)
     then bind_res (on_trace st ski_loop_flush) (\<lambda>st.
          bind_res (on_ski (comment ''Returning from interrupt handler'' st) (\<lambda>s. ski_handle_interrupt_end s c)) (\<lambda>st.
            Inr (st, Loop_exited)))
     else Inr (st, Returned))"

section \<open>Every instruction\<close>

definition helper_ski_instrument_all ::
  "instr_state \<Rightarrow> env \<Rightarrow> int \<Rightarrow> loop_regs \<Rightarrow> (instr_state \<times> flow) res" where
  "helper_ski_instrument_all st c explicit_eip regs =
    (let st = st\<lparr>i_ski := (i_ski st)\<lparr>ski_last_eip := explicit_eip\<rparr>\<rparr>
     in if \<not> ski_active (cpu_of (i_ski st) c) then Inr (st, Returned)
        else
          let s = i_ski st;
              s = s\<lparr>ski_exec_instruction_counter_total := ski_exec_instruction_counter_total s + 1,
                    ski_exec_instruction_counter_per_cycle := ski_exec_instruction_counter_per_cycle s + 1,
                    ski_sched_instructions_current := ski_sched_instructions_current s + 1\<rparr>
          in bind_res (ski_stats_get_self st) (\<lambda>ss.
             let st = st\<lparr>i_ski := s, i_self := Some (ss\<lparr>ss_id := ski_instruction_detector_new_access
                   (opt_instructions_detector st \<and> opt_forkall_enabled s) (ss_id ss) (word_of_int explicit_eip)\<rparr>)\<rparr>
             in bind_res (ski_threads_adjust_priority_current s) (\<lambda>(s, adjusted).
                let st = st\<lparr>i_ski := s\<rparr>
                in if adjusted
                   then bind_res (on_trace (set_eip c explicit_eip st) ski_loop_flush) (\<lambda>st.
                          Inr (comment ''Adjusted priorities'' st, Loop_exited))
                   else bind_res
                     (if trace_fd (i_trace st) \<and> trace_nr_entries (i_trace st) < SKI_EXEC_TRACE_MAX_ENTRIES \<and>
                         opt_forkall_enabled s
                      then bind_res (null_check (i_self st)) (\<lambda>ss.
                           bind_res (ski_stats_add_instruction_access ss (word_of_int explicit_eip)) (\<lambda>ss.
                             Inr (st\<lparr>i_self := Some ss\<rparr>)))
                      else Inr st) (\<lambda>st.
                   bind_res (on_trace st (\<lambda>t. trace_instruction t (cpu_index (cpu_of s c)) explicit_eip regs)) (\<lambda>st.
                     Inr (st, Returned))))))"

section \<open>The preemption plan\<close>

text \<open>What the plan depends on: pending points, counter, mode and per CPU activity and next point.\<close>

definition plan_view :: "ski_state \<Rightarrow> int list \<times> int \<times> bool \<times> (bool \<times> int) list" where
  "plan_view s = (opt_preemptions s, ski_sched_instructions_total s, opt_preemption_by_eip s,
     map (\<lambda>e. (ski_active e, sc_nr_max_instr (ski_cpu e))) (cpus s))"

text \<open>CPU \<open>c\<close> is at a preemption point of the test.\<close>

definition at_point :: "instr_state \<Rightarrow> env \<Rightarrow> bool" where
  "at_point st c \<longleftrightarrow> c < length (cpus (i_ski st)) \<and> ski_correct_thread (i_ski st) c \<and>
    ski_preemption_mode_matches (i_ski st) \<and> threads_wf (i_ski st) \<and> ski_threads_current (i_ski st) \<noteq> None \<and>
    (\<exists>t. ski_loop_flush (i_trace st) = Inr t)"

text \<open>
  A run of preemption points; between two points anything may happen that leaves the plan alone.
  The list says which points preempted.
\<close>

inductive preemption_run :: "instr_state \<Rightarrow> bool list \<Rightarrow> instr_state \<Rightarrow> bool" where
  run_nil: "preemption_run st [] st"
| run_step: "plan_view (i_ski st1) = plan_view (i_ski st) \<Longrightarrow> at_point st1 c \<Longrightarrow>
    helper_ski_instrument_possible_inversion_point st1 c eip = Inr (st2, fl) \<Longrightarrow>
    preemption_run st2 bs st3 \<Longrightarrow> preemption_run st ((fl = Loop_exited) # bs) st3"

text \<open>A point takes effect if it is in the plan and no earlier point is there twice.\<close>

definition planned :: "int list \<Rightarrow> int \<Rightarrow> bool" where
  "planned ps k \<longleftrightarrow> k \<in> set ps \<and> (\<forall>q\<in>set ps. q < k \<longrightarrow> count_list ps q = 1)"

definition plan_at :: "int list \<Rightarrow> int list \<Rightarrow> int \<Rightarrow> int \<Rightarrow> bool" where
  "plan_at ps R t m =
    (if \<exists>k>t. planned ps k
     then t < m \<and> m \<in> set ps \<and> (\<forall>p\<in>set ps. t < p \<longrightarrow> m \<le> p) \<and>
       add_mset m (mset (filter ((<) 0) R)) = filter_mset ((<) t) (mset ps)
     else m \<le> t)"

definition all_next :: "(bool \<times> int) list \<Rightarrow> int \<Rightarrow> bool" where
  "all_next cs m \<longleftrightarrow> (\<forall>a\<in>set cs. fst a \<longrightarrow> snd a = m)"

definition plan_ok :: "int list \<Rightarrow> int list \<times> int \<times> bool \<times> (bool \<times> int) list \<Rightarrow> bool" where
  "plan_ok ps v = (case v of (R, t, by_eip, cs) \<Rightarrow>
     \<not> by_eip \<and> 0 \<le> t \<and> (\<exists>m. all_next cs m \<and> plan_at ps R t m))"

lemma plan_okD:
  assumes "plan_ok ps (R, t, b, cs)" "(True, m) \<in> set cs"
  shows "\<not> b" "0 \<le> t" "all_next cs m" "plan_at ps R t m"
proof -
  obtain m' where m': "\<not> b" "0 \<le> t" "all_next cs m'" "plan_at ps R t m'" using assms(1) by (auto simp: plan_ok_def)
  moreover have "m = m'" using m'(3) assms(2) by (force simp: all_next_def)
  ultimately show "\<not> b" "0 \<le> t" "all_next cs m" "plan_at ps R t m" by simp_all
qed

lemma plan_atE:
  assumes "plan_at ps R t m" "planned ps k" "t < k"
  shows "t < m" "m \<in> set ps" "\<forall>p\<in>set ps. t < p \<longrightarrow> m \<le> p"
    "add_mset m (mset (filter ((<) 0) R)) = filter_mset ((<) t) (mset ps)"
proof -
  have "\<exists>k>t. planned ps k" using assms(2,3) by blast
  then show "t < m" "m \<in> set ps" "\<forall>p\<in>set ps. t < p \<longrightarrow> m \<le> p"
    "add_mset m (mset (filter ((<) 0) R)) = filter_mset ((<) t) (mset ps)"
    using assms(1) unfolding plan_at_def by simp_all
qed

lemma plan_at_done: "\<not> (\<exists>k>t. planned ps k) \<Longrightarrow> plan_at ps R t m \<longleftrightarrow> m \<le> t"
  unfolding plan_at_def by (simp only: if_False)

lemma mset_cleared:
  assumes "i < length R" "0 < R ! i"
  shows "add_mset (R ! i) (mset (filter ((<) 0) (R[i := -1]))) = mset (filter ((<) (0::int)) R)"
proof -
  have "R ! i \<in># filter_mset ((<) 0) (mset R)" using assms by simp
  then show ?thesis using assms by (simp add: mset_update)
qed

lemma planned_min:
  assumes "planned ps k" "t < k" "m \<in> set ps" "t < m" "\<forall>p\<in>set ps. t < p \<longrightarrow> m \<le> p"
  shows "planned ps m" "m \<le> k"
proof -
  show "m \<le> k" using assms by (auto simp: planned_def)
  then show "planned ps m" using assms(1,3) by (auto simp: planned_def)
qed

lemma plan_advance:
  assumes at: "plan_at ps R t m" and m: "t + 1 \<noteq> m"
  shows "plan_at ps R (t + 1) m" "\<not> planned ps (t + 1)"
proof -
  show np: "\<not> planned ps (t + 1)"
  proof
    assume p: "planned ps (t + 1)"
    note E = plan_atE[OF at p]
    have "t + 1 \<in> set ps" using p by (simp add: planned_def)
    then have "m \<le> t + 1" using E(3) by simp
    then show False using E(1) m by simp
  qed
  show "plan_at ps R (t + 1) m"
  proof (cases "\<exists>k>t + 1. planned ps k")
    case True
    then obtain k where "planned ps k" "t < k" by force
    note E = plan_atE[OF at this]
    have "t + 1 < m" using m E(1) by simp
    then have "filter_mset ((<) (t + 1)) (mset ps) = filter_mset ((<) t) (mset ps)"
      using E(3) by (intro filter_mset_cong) force+
    then show ?thesis using True E \<open>t + 1 < m\<close> by (simp add: plan_at_def)
  next
    case False
    then have "\<not> (\<exists>k>t. planned ps k)" using np by (metis add1_zle_eq order_le_less)
    then show ?thesis using plan_at_done[OF False] plan_at_done[of t ps R m] at by simp
  qed
qed

lemma plan_preempt:
  assumes at: "plan_at ps R t (t + 1)" and t: "0 \<le> t"
    and g: "ski_preemption_get_and_clear_lowest R (t + 1) = (v, R')"
  shows "plan_at ps R' (t + 1) v" "planned ps (t + 1)"
proof -
  have "\<exists>k>t. planned ps k" using at by (auto simp: plan_at_def split: if_splits)
  then obtain k where k: "planned ps k" "t < k" by blast
  note E = plan_atE[OF at k]
  show pm: "planned ps (t + 1)" by (rule planned_min(1)[OF k E(2,1,3)])
  have R: "p \<in> set R \<longleftrightarrow> t + 1 < p \<and> p \<in> set ps \<or> p = t + 1 \<and> 1 < count_list ps p" if "t + 1 \<le> p" for p
  proof -
    have "count (add_mset (t + 1) (mset (filter ((<) 0) R))) p = count (filter_mset ((<) t) (mset ps)) p"
      using E(4) by simp
    then have "(if p = t + 1 then 1 else 0) + count_list R p = count_list ps p"
      using that t by (cases "p = t + 1") (auto simp: count_mset)
    moreover have "p \<in> set R \<longleftrightarrow> 0 < count_list R p" "p \<in> set ps \<longleftrightarrow> 0 < count_list ps p"
      by (simp_all add: count_list_0_iff flip: neq0_conv)
    ultimately show ?thesis using that by (auto split: if_splits)
  qed
  show "plan_at ps R' (t + 1) v"
  proof (cases "\<exists>k>t + 1. planned ps k")
    case True
    then obtain k' where k': "planned ps k'" "t + 1 < k'" by blast
    have one: "count_list ps (t + 1) = 1" using k' pm by (auto simp: planned_def)
    show ?thesis
    proof (cases rule: get_and_clear_cases[of R "t + 1"])
      case none
      have "k' \<in> set R" using R[of k'] k' by (simp add: planned_def)
      then show ?thesis using none(1) k'(2) by force
    next
      case (some i)
      have v: "v = R ! i" "R' = R[i := -1]" using some(5) g by simp_all
      have "v \<in> set R" "t + 1 \<le> v" using some(1,2) v by auto
      then have "t + 1 < v" "v \<in> set ps" using R[of v] one by auto
      moreover have "\<forall>p\<in>set ps. t + 1 < p \<longrightarrow> v \<le> p" using R some(3) v by auto
      moreover have "add_mset v (mset (filter ((<) 0) R')) = mset (filter ((<) 0) R)"
        using mset_cleared[OF some(1)] v \<open>t + 1 < v\<close> t by simp
      moreover have "mset (filter ((<) 0) R) = filter_mset ((<) (t + 1)) (mset ps)"
      proof (rule multiset_eqI)
        fix p
        have "count (add_mset (t + 1) (mset (filter ((<) 0) R))) p = count (filter_mset ((<) t) (mset ps)) p"
          using E(4) by simp
        then show "count (mset (filter ((<) 0) R)) p = count (filter_mset ((<) (t + 1)) (mset ps)) p"
          using one by (cases "p = t + 1") (auto simp: count_mset split: if_splits)
      qed
      ultimately show ?thesis using True by (simp add: plan_at_def)
    qed
  next
    case False
    have "v \<le> t + 1"
    proof (rule ccontr)
      assume "\<not> v \<le> t + 1"
      then show False
      proof (cases rule: get_and_clear_cases[of R "t + 1"])
        case none
        then show ?thesis using g t \<open>\<not> v \<le> t + 1\<close> by simp
      next
        case (some i)
        have v: "v = R ! i" "v \<in> set R" "t + 1 < v" using some(1,5) g \<open>\<not> v \<le> t + 1\<close> by auto
        have "t + 1 \<notin> set R" using some(3) v by force
        then have "\<not> 1 < count_list ps (t + 1)" using R[of "t + 1"] by simp
        moreover have "q \<notin> set ps" if "t + 1 < q" "q < v" for q using R[of q] some(3) v that by force
        moreover have "v \<in> set ps" using R[of v] v by simp
        moreover have "0 < count_list ps (t + 1)" using E(2) by (simp add: count_list_0_iff flip: neq0_conv)
        ultimately have "planned ps v" using pm unfolding planned_def
          by (metis One_nat_def Suc_lessI linorder_cases)
        then show ?thesis using False v(3) by blast
      qed
    qed
    then show ?thesis using plan_at_done[OF False] by simp
  qed
qed

section \<open>One preemption point\<close>

lemma threads_wf_cong:
  assumes "ski_threads s' = ski_threads s" "ski_threads_no s' = ski_threads_no s"
    "map cpu_index (cpus s') = map cpu_index (cpus s)"
  shows "threads_wf s' = threads_wf s"
proof -
  have "tc_of s' = tc_of s" using assms(1) by (simp add: tc_of_def fun_eq_iff)
  then show ?thesis unfolding threads_wf_def cpu_nos_def assms by simp
qed

lemma map_update_same:
  assumes "\<And>e. g (f e) = g e"
  shows "map g (es[c := f (es ! c)]) = map g es"
  using assms by (cases "c < length es") (simp_all add: map_update list_update_same_conv list_update_beyond)

lemma plan_view_upd_cpu:
  assumes "\<And>e. (ski_active (f e), sc_nr_max_instr (ski_cpu (f e))) = (ski_active e, sc_nr_max_instr (ski_cpu e))"
  shows "plan_view (upd_cpu c f s) = plan_view s"
  using map_update_same[of "\<lambda>e. (ski_active e, sc_nr_max_instr (ski_cpu e))" f, OF assms]
  by (simp add: plan_view_def upd_cpu_def)

lemma preemption_taken:
  assumes wf: "threads_wf (i_ski st)" and cur: "ski_threads_current (i_ski st) \<noteq> None"
    and tr: "ski_loop_flush (i_trace st) = Inr t" and c: "c < length (cpus (i_ski st))"
    and v: "plan_view (i_ski st) = (R, n, False, cs)"
    and g: "ski_preemption_get_and_clear_lowest R (sc_nr_max_instr (sc_of (i_ski st) c)) = (m, R')"
  shows "\<exists>st'. do_preemption st c eip = Inr (st', Loop_exited) \<and>
    plan_view (i_ski st') = (R', n, False, map (\<lambda>(a, k). (a, if a then m else k)) cs)"
proof -
  obtain i where i: "ski_threads_current (i_ski st) = Some i" using cur by auto
  let ?s = "upd_cpu c (\<lambda>e. e\<lparr>cpu_eip := eip\<rparr>) (i_ski st)"
  let ?s2 = "(upd_tc i (\<lambda>tc. tc\<lparr>tc_priority := lowest_of ?s + 1\<rparr>) ?s)\<lparr>ski_threads_need_reevaluate := 1\<rparr>"
  have "threads_wf ?s = threads_wf (i_ski st)"
    by (rule threads_wf_cong) (simp_all add: upd_cpu_def map_update_same)
  then have inv: "ski_threads_invert_priority ?s = Inr ?s2"
    using wf i by (intro invert_priority_eq) simp_all
  have "plan_view ?s = plan_view (i_ski st)" by (rule plan_view_upd_cpu) simp
  then have v2: "plan_view ?s2 = (R, n, False, cs)" using v by (simp add: plan_view_def upd_tc_def)
  have n2: "sc_nr_max_instr (sc_of ?s2 c) = sc_nr_max_instr (sc_of (i_ski st) c)"
    using c by (simp add: sc_of_def upd_tc_def upd_cpu_def)
  let ?st' = "set_eip c eip st\<lparr>i_trace := t, i_ski := set_all_nr_max m (?s2\<lparr>opt_preemptions := R'\<rparr>)\<rparr>"
  have "do_preemption st c eip = Inr (?st', Loop_exited)"
    using tr inv v2 n2 g by (simp add: do_preemption_def on_trace_def on_ski_def set_eip_def plan_view_def)
  moreover have "plan_view (i_ski ?st') = (R', n, False, map (\<lambda>(a, k). (a, if a then m else k)) cs)"
    using v2 by (auto simp: plan_view_def set_all_nr_max_def)
  ultimately show ?thesis by blast
qed

lemma point_step:
  assumes at: "at_point st c" and v: "plan_view (i_ski st) = (R, n, False, cs)"
    and n: "n + 1 < SKI_SCHED_MAX_PREEMPTION_INSTRUCTIONS"
    and k: "k = sc_nr_max_instr (sc_of (i_ski st) c)"
    and g: "ski_preemption_get_and_clear_lowest R k = (m, R')"
  shows "\<exists>st'. helper_ski_instrument_possible_inversion_point st c eip =
      Inr (st', if n + 1 = k then Loop_exited else Returned) \<and>
    plan_view (i_ski st') = (if n + 1 = k then (R', n + 1, False, map (\<lambda>(a, k). (a, if a then m else k)) cs)
      else (R, n + 1, False, cs))"
proof -
  let ?s = "upd_sc c (\<lambda>sc. sc\<lparr>sc_nr_instr_executed := sc_nr_instr_executed sc + 1\<rparr>) (i_ski st)"
  let ?st = "st\<lparr>i_ski := ?s\<lparr>ski_sched_instructions_total := n + 1\<rparr>\<rparr>"
  have A: "c < length (cpus (i_ski st))" "ski_correct_thread (i_ski st) c" "ski_preemption_mode_matches (i_ski st)"
      "threads_wf (i_ski st)" "ski_threads_current (i_ski st) \<noteq> None"
    and "\<exists>t. ski_loop_flush (i_trace st) = Inr t" using at by (auto simp: at_point_def)
  then obtain t where t: "ski_loop_flush (i_trace st) = Inr t" by blast
  have "plan_view ?s = plan_view (i_ski st)" unfolding upd_sc_def by (rule plan_view_upd_cpu) simp
  then have v': "plan_view (i_ski ?st) = (R, n + 1, False, cs)" using v by (simp add: plan_view_def)
  have tot: "ski_sched_instructions_total (i_ski st) = n" "ski_sched_instructions_total ?s = n"
    "\<not> opt_preemption_by_eip (i_ski ?st)"
    using v v' by (auto simp: plan_view_def upd_sc_def upd_cpu_def)
  have k': "sc_nr_max_instr (sc_of (i_ski ?st) c) = k" using A(1) k by (simp add: sc_of_def upd_sc_def upd_cpu_def)
  have H: "helper_ski_instrument_possible_inversion_point st c eip =
      (if n + 1 = k then do_preemption ?st c eip else Inr (?st, Returned))"
    using A(2,3) tot n k' unfolding helper_ski_instrument_possible_inversion_point_def
    by (simp add: ski_correct_thread_def Let_def)
  show ?thesis
  proof (cases "n + 1 = k")
    case True
    have "threads_wf (i_ski ?st) = threads_wf ?s" by (rule threads_wf_cong) simp_all
    then have "threads_wf (i_ski ?st)" "ski_threads_current (i_ski ?st) \<noteq> None" "c < length (cpus (i_ski ?st))"
      using A by simp_all
    from preemption_taken[OF this(1,2) _ this(3) v', of t m R' eip] show ?thesis
      using H True t k' g by simp
  next
    case False
    then show ?thesis using H v' by simp
  qed
qed

section \<open>Runs\<close>

lemma at_point_next:
  assumes "at_point st c" "plan_view (i_ski st) = (R, n, b, cs)"
  shows "(True, sc_nr_max_instr (sc_of (i_ski st) c)) \<in> set cs"
proof -
  have "cs ! c = (True, sc_nr_max_instr (sc_of (i_ski st) c))" "c < length cs"
    using assms by (auto simp: at_point_def plan_view_def ski_correct_thread_def cpu_of_def sc_of_def)
  then show ?thesis by (metis nth_mem)
qed

lemma plan_step:
  assumes ok: "plan_ok ps (plan_view (i_ski st))" and at: "at_point st c"
    and n: "ski_sched_instructions_total (i_ski st) + 1 < SKI_SCHED_MAX_PREEMPTION_INSTRUCTIONS"
  shows "\<exists>st'. helper_ski_instrument_possible_inversion_point st c eip =
      Inr (st', if planned ps (ski_sched_instructions_total (i_ski st) + 1) then Loop_exited else Returned) \<and>
    plan_ok ps (plan_view (i_ski st')) \<and>
    ski_sched_instructions_total (i_ski st') = ski_sched_instructions_total (i_ski st) + 1"
proof -
  obtain R t b cs where v: "plan_view (i_ski st) = (R, t, b, cs)" by (cases "plan_view (i_ski st)") auto
  have t: "t = ski_sched_instructions_total (i_ski st)" using v by (simp add: plan_view_def)
  define k where "k = sc_nr_max_instr (sc_of (i_ski st) c)"
  note D = plan_okD[OF ok[unfolded v] at_point_next[OF at v, folded k_def]]
  obtain m R' where g: "ski_preemption_get_and_clear_lowest R k = (m, R')" by force
  obtain st' where st': "helper_ski_instrument_possible_inversion_point st c eip =
      Inr (st', if t + 1 = k then Loop_exited else Returned)"
    "plan_view (i_ski st') = (if t + 1 = k then (R', t + 1, False, map (\<lambda>(a, k). (a, if a then m else k)) cs)
      else (R, t + 1, False, cs))"
    using point_step[OF at v[unfolded eq_False[THEN iffD2, OF D(1)]] _ k_def g] n t by blast
  have "(t + 1 = k) = planned ps (t + 1)" "plan_ok ps (plan_view (i_ski st'))"
  proof -
    show "(t + 1 = k) = planned ps (t + 1)"
      using plan_advance(2)[OF D(4)] plan_preempt(2)[of ps R t m R'] D(2,4) g by blast
    show "plan_ok ps (plan_view (i_ski st'))"
    proof (cases "t + 1 = k")
      case True
      have "plan_at ps R' (t + 1) m" using plan_preempt(1)[of ps R t m R'] D(2,4) g True by simp
      moreover have "all_next (map (\<lambda>(a, k). (a, if a then m else k)) cs) m" by (auto simp: all_next_def)
      ultimately show ?thesis using st'(2) True D(2) by (auto simp: plan_ok_def)
    next
      case False
      then show ?thesis using plan_advance(1)[OF D(4) False] st'(2) D(2,3) by (auto simp: plan_ok_def)
    qed
  qed
  moreover have "ski_sched_instructions_total (i_ski st') = t + 1"
    using st'(2) by (auto simp: plan_view_def split: if_splits)
  ultimately show ?thesis using st'(1) t by auto
qed

lemma plan_view_total: "plan_view s = plan_view s' \<Longrightarrow> ski_sched_instructions_total s = ski_sched_instructions_total s'"
  by (simp add: plan_view_def)

lemma preemption_run_planned:
  assumes "preemption_run st bs st'" "plan_ok ps (plan_view (i_ski st))"
    "ski_sched_instructions_total (i_ski st) + int (length bs) < SKI_SCHED_MAX_PREEMPTION_INSTRUCTIONS"
  shows "plan_ok ps (plan_view (i_ski st')) \<and>
    ski_sched_instructions_total (i_ski st') = ski_sched_instructions_total (i_ski st) + int (length bs) \<and>
    (\<forall>k<length bs. bs ! k \<longleftrightarrow> planned ps (ski_sched_instructions_total (i_ski st) + int k + 1))"
  using assms
proof induction
  case (run_step st1 st c eip st2 fl bs st3)
  let ?t = "ski_sched_instructions_total (i_ski st)"
  have t: "ski_sched_instructions_total (i_ski st1) = ?t" using plan_view_total[OF run_step.hyps(1)] .
  have "plan_ok ps (plan_view (i_ski st1))" "ski_sched_instructions_total (i_ski st1) + 1 < SKI_SCHED_MAX_PREEMPTION_INSTRUCTIONS"
    using run_step t by simp_all
  then have s2: "fl = (if planned ps (?t + 1) then Loop_exited else Returned)"
      "plan_ok ps (plan_view (i_ski st2))" "ski_sched_instructions_total (i_ski st2) = ?t + 1"
    using plan_step[OF _ run_step.hyps(2), of ps eip] run_step.hyps(3) t by auto
  then have IH: "plan_ok ps (plan_view (i_ski st3))"
      "ski_sched_instructions_total (i_ski st3) = ?t + 1 + int (length bs)"
      "\<forall>k<length bs. bs ! k \<longleftrightarrow> planned ps (?t + 1 + int k + 1)"
    using run_step.IH run_step.prems(2) by auto
  have "((fl = Loop_exited) # bs) ! k \<longleftrightarrow> planned ps (?t + int k + 1)" if "k < Suc (length bs)" for k
  proof (cases k)
    case (Suc j)
    have "?t + 1 + int j + 1 = ?t + int k + 1" using Suc by simp
    moreover have "bs ! j \<longleftrightarrow> planned ps (?t + 1 + int j + 1)" using IH(3) that Suc by simp
    ultimately show ?thesis using Suc by simp
  qed (use s2(1) in simp)
  then show ?case using IH(1,2) by simp
qed simp

lemma plan_start:
  assumes pos: "\<forall>p\<in>set ps. 0 < p" and g: "ski_preemption_get_and_clear_lowest ps (-1) = (m, R)"
  shows "plan_at ps R 0 m"
proof (cases rule: get_and_clear_cases[of ps "-1"])
  case none
  then have "ps = []" using pos by (cases ps) force+
  then have "\<not> (\<exists>k>0. planned ps k)" by (simp add: planned_def)
  then show ?thesis using plan_at_done none(2) g by simp
next
  case (some i)
  have m: "m = ps ! i" "R = ps[i := -1]" "0 < m" using some(1,5) g pos by simp_all
  have min: "m \<in> set ps" "\<forall>p\<in>set ps. m \<le> p" using some(1,3) m pos by force+
  then have "planned ps m" by (force simp: planned_def)
  moreover have "add_mset m (mset (filter ((<) 0) R)) = filter_mset ((<) 0) (mset ps)"
    using mset_cleared[OF some(1)] m by simp
  ultimately show ?thesis unfolding plan_at_def using m(3) min by auto
qed

text \<open>
  C11: the preemption plan.  Start a test with counter 0 and the least point of the plan \<open>ps\<close> as
  the next point of all active CPUs, as the snapshot resume does.  Then the \<open>k\<close>-th instruction
  that can be preempted is preempted exactly if \<open>k\<close> is in the plan and no earlier point is in the
  plan twice, whatever happens between the points as long as it leaves the plan alone; and
  every further call below the limit of instructions returns.  A plan of distinct points is
  therefore executed completely and in order, while after a point that occurs twice
  no preemption happens any more.
\<close>

theorem preemption_schedule:
  assumes run: "preemption_run st bs st'"
    and plan: "\<forall>p\<in>set ps. 0 < p" "\<not> opt_preemption_by_eip (i_ski st)"
    and start: "ski_sched_instructions_total (i_ski st) = 0"
      "ski_preemption_get_and_clear_lowest ps (-1) = (m, opt_preemptions (i_ski st))"
      "\<forall>e\<in>set (cpus (i_ski st)). ski_active e \<longrightarrow> sc_nr_max_instr (ski_cpu e) = m"
    and len: "int (length bs) + 1 < SKI_SCHED_MAX_PREEMPTION_INSTRUCTIONS"
  shows "(\<forall>k<length bs. bs ! k \<longleftrightarrow>
      int k + 1 \<in> set ps \<and> (\<forall>q\<in>set ps. q < int k + 1 \<longrightarrow> count_list ps q = 1)) \<and>
    (\<forall>st1 c eip. plan_view (i_ski st1) = plan_view (i_ski st') \<and> at_point st1 c \<longrightarrow>
      (\<exists>r. helper_ski_instrument_possible_inversion_point st1 c eip = Inr r))"
proof (rule conjI)
  have "plan_ok ps (plan_view (i_ski st))"
    using plan_start[OF plan(1) start(2)] plan(2) start(1,3) by (auto simp: plan_ok_def plan_view_def all_next_def)
  then have R: "plan_ok ps (plan_view (i_ski st'))" "ski_sched_instructions_total (i_ski st') = int (length bs)"
      "\<forall>k<length bs. bs ! k \<longleftrightarrow> planned ps (int k + 1)"
    using preemption_run_planned[OF run, of ps] start(1) len by auto
  show "\<forall>k<length bs. bs ! k \<longleftrightarrow>
      int k + 1 \<in> set ps \<and> (\<forall>q\<in>set ps. q < int k + 1 \<longrightarrow> count_list ps q = 1)"
    using R(3) by (simp add: planned_def)
  show "\<forall>st1 c eip. plan_view (i_ski st1) = plan_view (i_ski st') \<and> at_point st1 c \<longrightarrow>
      (\<exists>r. helper_ski_instrument_possible_inversion_point st1 c eip = Inr r)"
  proof (intro allI impI, elim conjE)
    fix st1 c eip
    assume v: "plan_view (i_ski st1) = plan_view (i_ski st')" and at: "at_point st1 c"
    show "\<exists>r. helper_ski_instrument_possible_inversion_point st1 c eip = Inr r"
      using plan_step[OF _ at, of ps eip] R(1,2) v plan_view_total[OF v] len by auto
  qed
qed

definition sample_point :: "int list \<Rightarrow> int \<Rightarrow> int \<Rightarrow> instr_state" where
  "sample_point R t m = \<lparr>i_ski = sample_state\<lparr>ski_threads_current := Some 0, opt_preemptions := R,
      ski_sched_instructions_total := t,
      cpus := map (\<lambda>i. (blank_cpu i)\<lparr>ski_cpu := blank_sc\<lparr>sc_nr_max_instr := m\<rparr>\<rparr>) [0, 1]\<rparr>,
    i_self = None, i_trace = sample_trace, opt_race_detector = False, opt_instructions_detector = False,
    ski_ipfilter_hash = []\<rparr>"

lemma sample_point_view [simp]: "plan_view (i_ski (sample_point R t m)) = (R, t, False, [(True, m), (True, m)])"
  by (simp add: plan_view_def sample_point_def blank_cpu_def sample_state_def blank_state_def)

lemma sample_point_at: "at_point (sample_point R t m) 0"
proof -
  have "threads_wf (i_ski (sample_point R t m)) = threads_wf sample_state"
    by (rule threads_wf_cong) (simp_all add: sample_point_def blank_cpu_def)
  moreover have "ski_loop_flush sample_trace = Inr (clear_log sample_trace)"
    using scan_counts_dead[of sample_trace 0] by (simp add: ski_loop_flush_def ski_loop_print_reset_all_def
        sample_trace_def live_def)
  ultimately show ?thesis using sample_state_wf
    by (auto simp: at_point_def sample_point_def ski_correct_thread_def cpu_of_def sc_of_def blank_cpu_def
        blank_sc_def ski_preemption_mode_matches_def Let_def sample_state_def blank_state_def)
qed

lemma sample_run:
  "plan_view (i_ski st) = (R, t, False, [(True, m), (True, m)]) \<Longrightarrow>
    t + int n < SKI_SCHED_MAX_PREEMPTION_INSTRUCTIONS \<Longrightarrow> \<exists>bs st'. preemption_run st bs st' \<and> length bs = n"
proof (induction n arbitrary: st R t m)
  case 0
  then show ?case using run_nil by auto
next
  case (Suc n)
  have nr: "sc_nr_max_instr (sc_of (i_ski (sample_point R t m)) 0) = m" by (simp add: sample_point_def sc_of_def)
  obtain v R' where g: "ski_preemption_get_and_clear_lowest R m = (v, R')" by force
  obtain st2 fl where s2: "helper_ski_instrument_possible_inversion_point (sample_point R t m) 0 0 = Inr (st2, fl)"
    "\<exists>R'' m'. plan_view (i_ski st2) = (R'', t + 1, False, [(True, m'), (True, m')])"
    using point_step[OF sample_point_at sample_point_view _ nr[symmetric] g, of 0] Suc.prems(2)
    by (cases "t + 1 = m") auto
  then obtain R'' m' where "plan_view (i_ski st2) = (R'', t + 1, False, [(True, m'), (True, m')])" by blast
  then obtain bs st' where "preemption_run st2 bs st'" "length bs = n"
    using Suc.IH[of st2 R'' "t + 1" m'] Suc.prems(2) by auto
  then have "preemption_run st ((fl = Loop_exited) # bs) st'"
    using run_step[OF _ sample_point_at s2(1)] Suc.prems(1) by simp
  then show ?case using \<open>length bs = n\<close> by (intro exI[of _ "(fl = Loop_exited) # bs"]) auto
qed

theorem preemption_schedule_witness:
  "\<exists>bs st'. preemption_run (sample_point [3, -1] 0 1) bs st' \<and> bs = [True, False, True, False]"
proof -
  obtain bs st' where r: "preemption_run (sample_point [3, -1] 0 1) bs st'" "length bs = 4"
    using sample_run[OF sample_point_view, of 0 4 "[3, -1]" 1] by auto
  have "ski_preemption_get_and_clear_lowest [3, 1] (-1) = (1, opt_preemptions (i_ski (sample_point [3, -1] 0 1)))"
    by (simp add: ski_preemption_get_and_clear_lowest_def sample_point_def numeral_eq_Suc)
  moreover have "\<not> opt_preemption_by_eip (i_ski (sample_point [3, -1] 0 1))"
      "ski_sched_instructions_total (i_ski (sample_point [3, -1] 0 1)) = 0"
      "\<forall>e\<in>set (cpus (i_ski (sample_point [3, -1] 0 1))). ski_active e \<longrightarrow> sc_nr_max_instr (ski_cpu e) = 1"
    by (simp_all add: sample_point_def sample_state_def blank_state_def)
  moreover have "int (length bs) + 1 < SKI_SCHED_MAX_PREEMPTION_INSTRUCTIONS" using r(2) by simp
  ultimately have S: "bs ! k \<longleftrightarrow> int k + 1 \<in> set [3, 1] \<and>
      (\<forall>q\<in>set [3, 1]. q < int k + 1 \<longrightarrow> count_list [3, 1] q = 1)" if "k < 4" for k
    using preemption_schedule[OF r(1), of "[3, 1]" 1] r(2) that by simp
  have "bs ! k = [True, False, True, False] ! k" if "k < 4" for k
    using S[OF that] that by (auto simp: less_Suc_eq eval_nat_numeral)
  then have "bs = [True, False, True, False]" using r(2) by (intro nth_equalityI) simp_all
  then show ?thesis using r(1) by blast
qed

end
