(* ===== verification/Ski_Input.thy ===== *)
theory Ski_Input
  imports Ski_Priorities
begin

text \<open>
  The space of tests (\<open>vmm/ski-input.c\<close>): the environment variables that describe it, the
  parser of ranges, the input files, and the step to the next test before every fork.  It is
  shown that printed ranges are parsed back and that the tests are enumerated completely, in
  order and without repetition.  The environment and the files are functions from names to
  contents; directories and time stamps are output.
\<close>

section \<open>Data\<close>

abbreviation (input) MAX_SKI_INTPUT_INT_RANGE :: int where "MAX_SKI_INTPUT_INT_RANGE \<equiv> 262144"
abbreviation (input) SKI_INPUT_FILE_MAX :: nat where "SKI_INPUT_FILE_MAX \<equiv> 262144"
abbreviation (input) SKI_INPUT_PAIRS_FILE_MAX :: nat where "SKI_INPUT_PAIRS_FILE_MAX \<equiv> 5242880"

text \<open>The array \<open>range\<close> with its fill count is the list of its values.\<close>

record ski_input_int_range =
  ir_range :: "int list"
  ir_iterator :: nat
  ir_relative :: bool
  ir_from_file_single :: bool
  ir_from_file_pairs :: bool

record input_state =
  input1_range :: ski_input_int_range
  input2_range :: ski_input_int_range
  interleaving_range :: ski_input_int_range
  ski_input_file :: "int list"
  ski_input_pairs_file :: "(int \<times> int) list"
  options_input_number :: "int \<times> int"
  options_seed :: int

record input_options =
  io_destination_dir :: string
  io_dir_per_input :: int
  io_watchdog_seconds :: int
  io_race_detector :: int
  io_instructions_detector_filename :: string
  io_selective_trace_filename :: string
  io_heuristics_statistics :: int
  io_input_filename :: string
  io_input_pairs_filename :: string
  io_only_aggregate_output :: int
  io_child_wait_start_seconds :: int
  io_parent_executes :: int
  io_exit_after_hypercall :: int
  io_ipfilter_filename :: string
  io_priorities_filename :: string
  io_forkall_enabled :: int
  io_forkall_concurrency :: int
  io_forkall_preemption_points :: int
  io_forkall_k_initial :: int
  io_quit_hypercall_threshold :: int
  io_assert_trap :: int
  io_trace_instructions :: int
  io_trace_memory_accesses :: int

section \<open>Reading values\<close>

text \<open>\<open>strtoll\<close> in base 10, saturating, with the rest of the text; \<open>None\<close> if there is no number.\<close>

definition strtoll :: "string \<Rightarrow> (int \<times> string) option" where
  "strtoll s =
    (case scan_sign (dropWhile is_space s) of (neg, u) \<Rightarrow>
       let ds = takeWhile is_digit u; v = (if neg then - digits_val ds else digits_val ds)
       in if ds = [] then None
          else Some (max (- (2 ^ 63)) (min (2 ^ 63 - 1) v), dropWhile is_digit u))"

definition ski_input_env_load_int :: "(string \<Rightarrow> string option) \<Rightarrow> string \<Rightarrow> int res" where
  "ski_input_env_load_int getenv env_name =
    (case getenv env_name of
       None \<Rightarrow> Inr 0
     | Some env_str \<Rightarrow>
         if length env_str > 0
         then case scan_int env_str of None \<Rightarrow> Inl Assert_failed | Some v \<Rightarrow> Inr v
         else Inr 0)"

definition ski_input_env_load_str :: "(string \<Rightarrow> string option) \<Rightarrow> string \<Rightarrow> string res" where
  "ski_input_env_load_str getenv env_name =
    (case getenv env_name of
       None \<Rightarrow> Inr []
     | Some env_str \<Rightarrow>
         if length env_str > 0
         then bind_res (c_assert (length env_str < 512)) (\<lambda>_. Inr env_str)
         else Inr [])"

lemma scan_sign_length: "scan_sign t = (neg, u) \<Longrightarrow> length u \<le> length t"
  by (cases t) (auto simp: scan_sign_def split: if_splits)

lemma strtoll_shorter: "strtoll s = Some (v, r) \<Longrightarrow> length r < length s"
proof -
  assume a: "strtoll s = Some (v, r)"
  obtain neg u where u: "scan_sign (dropWhile is_space s) = (neg, u)" by force
  have "length u \<le> length (dropWhile is_space s)"
    by (rule scan_sign_length[OF u])
  then have "length u \<le> length s" using length_dropWhile_le[of is_space s] by simp
  moreover have "r = dropWhile is_digit u" "takeWhile is_digit u \<noteq> []"
    using a u by (auto simp: strtoll_def Let_def split: if_splits)
  moreover have "length (takeWhile is_digit u) + length (dropWhile is_digit u) = length u"
    by (metis length_append takeWhile_dropWhile_id)
  ultimately show ?thesis by (cases "takeWhile is_digit u") auto
qed

text \<open>One field of a range, \<open><int>\<close> or \<open><int>-<int>\<close>: the extended range and the rest.\<close>

definition parse_field :: "string \<Rightarrow> int list \<Rightarrow> (int list \<times> string) res" where
  "parse_field env_str rng =
    (case strtoll env_str of
       None \<Rightarrow> Inl Assert_failed
     | Some (d1, env_str) \<Rightarrow>
         if env_str \<noteq> [] \<and> hd env_str = CHR ''-''
         then (case strtoll (tl env_str) of
                 None \<Rightarrow> Inl Assert_failed
               | Some (d2, env_str) \<Rightarrow>
                   bind_res (c_assert (d2 \<ge> d1)) (\<lambda>_.
                   bind_res (c_assert (int (length rng) + (d2 - d1 + 1) < MAX_SKI_INTPUT_INT_RANGE)) (\<lambda>_.
                     Inr (rng @ map (\<lambda>i. d1 + int i) [0..<nat (d2 - d1 + 1)], env_str))))
         else if env_str = [] \<or> hd env_str = CHR '',''
         then bind_res (c_assert (int (length rng) < MAX_SKI_INTPUT_INT_RANGE)) (\<lambda>_. Inr (rng @ [d1], env_str))
         else Inl Assert_failed)"

lemma parse_field_shorter: "parse_field s rng = Inr (rng', r) \<Longrightarrow> length r < length s"
  by (auto simp: parse_field_def bind_res_eq_Inr dest!: strtoll_shorter split: option.splits if_splits)

function parse_fields :: "string \<Rightarrow> int list \<Rightarrow> int list res" where
  "parse_fields env_str rng =
    (case parse_field env_str rng of
       Inl e \<Rightarrow> Inl e
     | Inr (rng, env_str) \<Rightarrow>
         if env_str = [] then Inr rng
         else if hd env_str = CHR '','' then parse_fields (tl env_str) rng
         else Inl Assert_failed)"
  by pat_completeness auto
termination
  by (relation "measure (\<lambda>(s, _). length s)") (auto dest!: parse_field_shorter)

text \<open>
  \<open>memset(variable, 0, sizeof(variable))\<close> clears the size of a pointer, which is the first
  value of the range.
\<close>

definition clear_first :: "ski_input_int_range \<Rightarrow> ski_input_int_range" where
  "clear_first r = r\<lparr>ir_range := (case ir_range r of [] \<Rightarrow> [] | _ # vs \<Rightarrow> 0 # vs)\<rparr>"

definition ski_input_env_load_int_range ::
  "(string \<Rightarrow> string option) \<Rightarrow> string \<Rightarrow> ski_input_int_range \<Rightarrow> ski_input_int_range res" where
  "ski_input_env_load_int_range getenv env_name r =
    (let r = clear_first r
     in case getenv env_name of
       None \<Rightarrow> Inl Assert_failed
     | Some s \<Rightarrow>
         if s = [] then Inl Assert_failed
         else
           let (r, s) = (if hd s = CHR ''@''
                         then if tl s \<noteq> [] \<and> hd (tl s) = CHR ''@''
                              then (r\<lparr>ir_from_file_pairs := True\<rparr>, tl (tl s))
                              else (r\<lparr>ir_from_file_single := True\<rparr>, tl s)
                         else (r, s));
               (r, s) = (if s \<noteq> [] \<and> hd s = CHR ''+'' then (r\<lparr>ir_relative := True\<rparr>, tl s) else (r, s))
           in bind_res (parse_fields s (ir_range r)) (\<lambda>vs. Inr (r\<lparr>ir_range := vs\<rparr>)))"

section \<open>Input files\<close>

fun load_numbers :: "string list \<Rightarrow> int list \<Rightarrow> int list res" where
  "load_numbers [] ns = Inr ns"
| "load_numbers (l # ls) ns =
    (case scan_int l of
       None \<Rightarrow> Inr ns
     | Some v \<Rightarrow> bind_res (c_assert (length (ns @ [v]) < SKI_INPUT_FILE_MAX)) (\<lambda>_. load_numbers ls (ns @ [v])))"

definition ski_input_load_input_file :: "(string \<Rightarrow> string option) \<Rightarrow> string \<Rightarrow> int list res" where
  "ski_input_load_input_file files filename =
    (if filename = [] then Inr []
     else case files filename of
            None \<Rightarrow> Inl Assert_failed
          | Some txt \<Rightarrow> bind_res (load_numbers (fgets_lines txt) []) (\<lambda>ns.
              bind_res (c_assert (ns \<noteq> [])) (\<lambda>_. Inr ns)))"

text \<open>\<open>sscanf\<close> with two numbers.\<close>

definition scan_two :: "string \<Rightarrow> (int \<times> int) option" where
  "scan_two s = (case (scan_int s, strtoll s) of
     (Some a, Some (_, r)) \<Rightarrow> (case scan_int r of Some b \<Rightarrow> Some (a, b) | None \<Rightarrow> None)
   | _ \<Rightarrow> None)"

fun load_pairs :: "string list \<Rightarrow> (int \<times> int) list \<Rightarrow> (int \<times> int) list res" where
  "load_pairs [] ps = Inr ps"
| "load_pairs (l # ls) ps =
    (case scan_two l of
       None \<Rightarrow> Inr ps
     | Some v \<Rightarrow> bind_res (c_assert (length (ps @ [v]) < SKI_INPUT_PAIRS_FILE_MAX)) (\<lambda>_. load_pairs ls (ps @ [v])))"

definition ski_input_load_input_pairs_file :: "(string \<Rightarrow> string option) \<Rightarrow> string \<Rightarrow> (int \<times> int) list res" where
  "ski_input_load_input_pairs_file files filename =
    (if filename = [] then Inr []
     else case files filename of
            None \<Rightarrow> Inl Assert_failed
          | Some txt \<Rightarrow> bind_res (load_pairs (fgets_lines txt) []) (\<lambda>ps.
              bind_res (c_assert (ps \<noteq> [])) (\<lambda>_. Inr ps)))"

section \<open>Initialisation\<close>

definition zero_range :: ski_input_int_range where
  "zero_range = \<lparr>ir_range = [], ir_iterator = 0, ir_relative = False, ir_from_file_single = False,
     ir_from_file_pairs = False\<rparr>"

definition ranges_ok :: "ski_input_int_range \<Rightarrow> ski_input_int_range \<Rightarrow> ski_input_int_range \<Rightarrow> bool" where
  "ranges_ok r1 r2 r3 \<longleftrightarrow>
    ir_range r1 \<noteq> [] \<and> ir_range r2 \<noteq> [] \<and> ir_range r3 \<noteq> [] \<and> \<not> ir_relative r1 \<and> \<not> ir_relative r3 \<and>
    (\<not> ir_from_file_single r1 \<longrightarrow> \<not> ir_from_file_single r2) \<and>
    ir_from_file_pairs r1 = ir_from_file_pairs r2 \<and> \<not> ir_from_file_single r3 \<and> \<not> ir_from_file_pairs r3"

text \<open>The product is computed in \<open>int\<close> and then widened.\<close>

definition total_tests :: "ski_input_int_range \<Rightarrow> ski_input_int_range \<Rightarrow> ski_input_int_range \<Rightarrow> int" where
  "total_tests r1 r2 r3 =
    int32 (int (length (ir_range r1)) * int (length (ir_range r2)) * int (length (ir_range r3)))"

text \<open>All variables, in the order of the code; the creation of the output directory is left out.\<close>

definition ski_input_init ::
  "(string \<Rightarrow> string option) \<Rightarrow> (string \<Rightarrow> string option) \<Rightarrow> input_state \<Rightarrow> (int \<times> input_state \<times> input_options) res" where
  "ski_input_init getenv files st =
    bind_res (ski_input_env_load_int_range getenv ''SKI_INPUT1_RANGE'' (input1_range st)) (\<lambda>r1.
    bind_res (ski_input_env_load_int_range getenv ''SKI_INPUT2_RANGE'' (input2_range st)) (\<lambda>r2.
    bind_res (ski_input_env_load_int_range getenv ''SKI_INTERLEAVING_RANGE'' (interleaving_range st)) (\<lambda>r3.
    bind_res (c_assert (ranges_ok r1 r2 r3)) (\<lambda>_.
    bind_res (ski_input_env_load_str getenv ''SKI_OUTPUT_DIR'') (\<lambda>destination_dir.
    bind_res (c_assert (length destination_dir > 0)) (\<lambda>_.
    bind_res (ski_input_env_load_int getenv ''SKI_OUTPUT_DIR_PER_INPUT_ENABLED'') (\<lambda>dir_per_input.
    bind_res (c_assert (dir_per_input \<ge> 0)) (\<lambda>_.
    bind_res (ski_input_env_load_int getenv ''SKI_WATCHDOG_SECONDS'') (\<lambda>watchdog_seconds.
    bind_res (c_assert (watchdog_seconds \<ge> 0)) (\<lambda>_.
    bind_res (ski_input_env_load_int getenv ''SKI_RACE_DETECTOR_ENABLED'') (\<lambda>race_detector.
    bind_res (c_assert (race_detector \<ge> 0)) (\<lambda>_.
    bind_res (ski_input_env_load_str getenv ''SKI_INSTRUCTIONS_DETECTOR_FILENAME'') (\<lambda>instructions_detector_filename.
    bind_res (ski_input_env_load_str getenv ''SKI_SELECTIVE_TRACE_FILENAME'') (\<lambda>selective_trace_filename.
    bind_res (ski_input_env_load_int getenv ''SKI_HEURISTICS_STATISTICS_ENABLED'') (\<lambda>heuristics_statistics.
    bind_res (ski_input_env_load_str getenv ''SKI_INPUT_FILENAME'') (\<lambda>input_filename.
    bind_res (c_assert (\<not> ir_from_file_single r1 \<or> length input_filename > 0)) (\<lambda>_.
    bind_res (ski_input_load_input_file files input_filename) (\<lambda>numbers.
    bind_res (ski_input_env_load_str getenv ''SKI_INPUT_PAIRS_FILENAME'') (\<lambda>input_pairs_filename.
    bind_res (c_assert (\<not> ir_from_file_pairs r1 \<or> length input_pairs_filename > 0)) (\<lambda>_.
    bind_res (c_assert (input_filename = [] \<or> input_pairs_filename = [])) (\<lambda>_.
    bind_res (ski_input_load_input_pairs_file files input_pairs_filename) (\<lambda>pairs.
    bind_res (ski_input_env_load_int getenv ''SKI_DEBUG_ONLY_AGGREGATE_OUTPUT_ENABLED'') (\<lambda>only_aggregate_output.
    bind_res (ski_input_env_load_int getenv ''SKI_DEBUG_CHILD_WAIT_START_SECONDS'') (\<lambda>child_wait_start_seconds.
    bind_res (c_assert (child_wait_start_seconds \<ge> 0)) (\<lambda>_.
    bind_res (ski_input_env_load_int getenv ''SKI_DEBUG_PARENT_EXECUTES_ENABLED'') (\<lambda>parent_executes.
    bind_res (c_assert (parent_executes = 0 \<or> parent_executes = 1)) (\<lambda>_.
    bind_res (ski_input_env_load_int getenv ''SKI_DEBUG_EXIT_AFTER_HYPERCALL_ENABLED'') (\<lambda>exit_after_hypercall.
    bind_res (c_assert (exit_after_hypercall = 0 \<or> exit_after_hypercall = 1)) (\<lambda>_.
    bind_res (ski_input_env_load_str getenv ''SKI_IPFILTER_FILENAME'') (\<lambda>ipfilter_filename.
    bind_res (ski_input_env_load_str getenv ''SKI_PRIORITIES_FILENAME'') (\<lambda>priorities_filename.
    bind_res (ski_input_env_load_int getenv ''SKI_FORKALL_ENABLED'') (\<lambda>forkall_enabled.
    bind_res (ski_input_env_load_int getenv ''SKI_FORKALL_CONCURRENCY'') (\<lambda>forkall_concurrency.
    bind_res (c_assert (forkall_concurrency > 0)) (\<lambda>_.
    bind_res (c_assert (forkall_concurrency < 50)) (\<lambda>_.
    bind_res (ski_input_env_load_int getenv ''SKI_RESCHEDULE_POINTS'') (\<lambda>preemption_points.
    bind_res (ski_input_env_load_int getenv ''SKI_RESCHEDULE_K'') (\<lambda>k_initial.
    bind_res (ski_input_env_load_int getenv ''SKI_QUIT_HYPERCALL_THRESHOLD'') (\<lambda>quit_hypercall_threshold.
    bind_res (ski_input_env_load_int getenv ''SKI_DEBUG_ASSERT_TRAP_ENABLED'') (\<lambda>assert_trap.
    bind_res (ski_input_env_load_int getenv ''SKI_TRACE_INSTRUCTIONS_ENABLED'') (\<lambda>trace_instructions.
    bind_res (ski_input_env_load_int getenv ''SKI_TRACE_MEMORY_ACCESSES_ENABLED'') (\<lambda>trace_memory_accesses.
      Inr (total_tests r1 r2 r3,
        st\<lparr>input1_range := r1, input2_range := r2, interleaving_range := r3,
           ski_input_file := numbers, ski_input_pairs_file := pairs\<rparr>,
        \<lparr>io_destination_dir = destination_dir, io_dir_per_input = dir_per_input,
         io_watchdog_seconds = watchdog_seconds, io_race_detector = race_detector,
         io_instructions_detector_filename = instructions_detector_filename,
         io_selective_trace_filename = selective_trace_filename,
         io_heuristics_statistics = heuristics_statistics, io_input_filename = input_filename,
         io_input_pairs_filename = input_pairs_filename, io_only_aggregate_output = only_aggregate_output,
         io_child_wait_start_seconds = child_wait_start_seconds, io_parent_executes = parent_executes,
         io_exit_after_hypercall = exit_after_hypercall, io_ipfilter_filename = ipfilter_filename,
         io_priorities_filename = priorities_filename, io_forkall_enabled = forkall_enabled,
         io_forkall_concurrency = forkall_concurrency, io_forkall_preemption_points = preemption_points,
         io_forkall_k_initial = k_initial, io_quit_hypercall_threshold = quit_hypercall_threshold,
         io_assert_trap = assert_trap, io_trace_instructions = trace_instructions,
         io_trace_memory_accesses = trace_memory_accesses\<rparr>))))))))))))))))))))))))))))))))))))))))))"

section \<open>The next test\<close>

text \<open>The array has static storage: past the values it holds 0.\<close>

definition range_at :: "ski_input_int_range \<Rightarrow> int" where
  "range_at r = (if ir_iterator r < length (ir_range r) then ir_range r ! ir_iterator r else 0)"

definition at_index :: "'a list \<Rightarrow> int \<Rightarrow> 'a res" where
  "at_index xs i = (if 0 \<le> i \<and> nat i < length xs then Inr (xs ! nat i) else Inl Out_of_bounds)"

definition ski_input_get_current :: "input_state \<Rightarrow> ski_input_int_range \<Rightarrow> int \<Rightarrow> int res" where
  "ski_input_get_current st r input_no =
    bind_res (c_assert (input_no = 0 \<or> input_no = 1)) (\<lambda>_.
      let range_value = range_at r
      in if ir_from_file_single r
         then bind_res (c_assert (length (ski_input_file st) > 0)) (\<lambda>_.
           at_index (ski_input_file st)
             (if range_value \<ge> int (length (ski_input_file st)) then int (length (ski_input_file st)) - 1
              else range_value))
         else if ir_from_file_pairs r
         then bind_res (c_assert (length (ski_input_pairs_file st) > 0)) (\<lambda>_.
           bind_res (at_index (ski_input_pairs_file st)
             (if range_value \<ge> int (length (ski_input_pairs_file st))
              then int (length (ski_input_pairs_file st)) - 1 else range_value)) (\<lambda>p.
             Inr (if input_no = 0 then fst p else snd p)))
         else Inr range_value)"

text \<open>The remainder of C, which takes the sign of the dividend.\<close>

definition c_rem :: "int \<Rightarrow> int \<Rightarrow> int" where
  "c_rem a b = (if a \<ge> 0 then a mod b else - ((- a) mod b))"

definition ski_input_get_current_relative ::
  "input_state \<Rightarrow> ski_input_int_range \<Rightarrow> ski_input_int_range \<Rightarrow> int res" where
  "ski_input_get_current_relative st r1 r2 =
    bind_res (c_assert (ir_relative r2)) (\<lambda>_.
    bind_res (c_assert (\<not> ir_relative r1)) (\<lambda>_.
      if ir_from_file_single r1
      then bind_res (c_assert (length (ski_input_file st) > 0)) (\<lambda>_.
        let n = int (length (ski_input_file st))
        in if \<not> ir_from_file_single r2
           then bind_res (at_index (ski_input_file st) (c_rem (range_at r1) n)) (\<lambda>v. Inr (v + range_at r2))
           else at_index (ski_input_file st) (c_rem (range_at r1 + range_at r2) n))
      else Inr (range_at r1 + range_at r2)))"

text \<open>The input numbers of the next child.\<close>

definition next_inputs :: "input_state \<Rightarrow> (int \<times> int) res" where
  "next_inputs st =
    bind_res (ski_input_get_current st (input1_range st) 0) (\<lambda>a.
    bind_res
      (if \<not> ir_relative (input2_range st)
       then if ir_from_file_pairs (input1_range st)
            then ski_input_get_current st (input1_range st) 1
            else ski_input_get_current st (input2_range st) 1
       else ski_input_get_current_relative st (input1_range st) (input2_range st)) (\<lambda>b.
      Inr (int32 a, int32 b)))"

text \<open>The step of the three nested loops.\<close>

definition advance :: "input_state \<Rightarrow> input_state" where
  "advance st =
    (let i3 = ir_iterator (interleaving_range st) + 1; n3 = length (ir_range (interleaving_range st));
         i2 = ir_iterator (input2_range st) + 1; n2 = length (ir_range (input2_range st));
         i1 = ir_iterator (input1_range st) + 1
     in if i3 \<ge> n3
        then let st = st\<lparr>interleaving_range := (interleaving_range st)\<lparr>ir_iterator := i3 mod n3\<rparr>\<rparr>
             in if i2 \<ge> n2 \<or> ir_from_file_pairs (input1_range st)
                then st\<lparr>input2_range := (input2_range st)\<lparr>ir_iterator := i2 mod n2\<rparr>,
                        input1_range := (input1_range st)\<lparr>ir_iterator := i1\<rparr>\<rparr>
                else st\<lparr>input2_range := (input2_range st)\<lparr>ir_iterator := i2\<rparr>\<rparr>
        else st\<lparr>interleaving_range := (interleaving_range st)\<lparr>ir_iterator := i3\<rparr>\<rparr>)"

definition ski_input_fork_init :: "input_state \<Rightarrow> (input_state \<times> bool) res" where
  "ski_input_fork_init st =
    (if ir_iterator (input1_range st) \<ge> length (ir_range (input1_range st)) then Inr (st, False)
     else bind_res (next_inputs st) (\<lambda>inputs.
       Inr (advance (st\<lparr>options_input_number := inputs,
               options_seed := int32 (range_at (interleaving_range st))\<rparr>),
            ir_iterator (interleaving_range st) = 0)))"

section \<open>Printing a range\<close>

datatype range_item = Single int | Span int int

fun print_item :: "range_item \<Rightarrow> string" where
  "print_item (Single a) = show_int a"
| "print_item (Span a b) = show_int a @ CHR ''-'' # show_int b"

fun item_values :: "range_item \<Rightarrow> int list" where
  "item_values (Single a) = [a]"
| "item_values (Span a b) = map (\<lambda>i. a + int i) [0..<nat (b - a + 1)]"

definition ll_int :: "int \<Rightarrow> bool" where
  "ll_int v \<longleftrightarrow> - (2 ^ 63) \<le> v \<and> v < 2 ^ 63"

fun item_ok :: "range_item \<Rightarrow> bool" where
  "item_ok (Single a) = ll_int a"
| "item_ok (Span a b) \<longleftrightarrow> ll_int a \<and> ll_int b \<and> a \<le> b"

definition all_values :: "range_item list \<Rightarrow> int list" where
  "all_values is = concat (map item_values is)"

datatype source = Literal | From_file | From_pairs

definition print_range :: "source \<Rightarrow> bool \<Rightarrow> range_item list \<Rightarrow> string" where
  "print_range src rel is =
    (case src of Literal \<Rightarrow> [] | From_file \<Rightarrow> ''@'' | From_pairs \<Rightarrow> ''@@'') @
    (if rel then ''+'' else []) @ join CHR '','' (map print_item is)"

lemma dropWhile_show_nat:
  "not_digit_hd rest \<Longrightarrow> dropWhile is_digit (show_nat n @ rest) = rest"
  using show_nat_digits[of _ n]
  by (subst dropWhile_append2) (auto simp: not_digit_hd_def split: list.splits)

lemma show_nat_Cons: "\<exists>c cs. show_nat n = c # cs \<and> is_digit c"
  using show_nat_digits[of "hd (show_nat n)" n] by (cases "show_nat n") auto

lemma strtoll_show:
  assumes "ll_int v" "not_digit_hd rest"
  shows "strtoll (show_int v @ rest) = Some (v, rest)"
proof (cases "v < 0")
  case True
  then have "scan_sign (dropWhile is_space (show_int v @ rest)) = (True, show_nat (nat (- v)) @ rest)"
    by (simp add: show_int_def scan_sign_def is_digit_facts)
  with True assms show ?thesis
    by (simp add: strtoll_def takeWhile_show_nat dropWhile_show_nat ll_int_def Let_def)
next
  case False
  obtain c cs where c: "show_nat (nat v) = c # cs" "is_digit c" using show_nat_Cons by blast
  then have "scan_sign (dropWhile is_space (show_int v @ rest)) = (False, show_nat (nat v) @ rest)"
    using False by (simp add: show_int_def scan_sign_def is_digit_facts)
  with False assms show ?thesis
    by (simp add: strtoll_def takeWhile_show_nat dropWhile_show_nat ll_int_def Let_def)
qed

lemma parse_item:
  assumes "item_ok i" "rest = [] \<or> hd rest = CHR '',''"
    "int (length rng + length (item_values i)) < MAX_SKI_INTPUT_INT_RANGE"
  shows "parse_field (print_item i @ rest) rng = Inr (rng @ item_values i, rest)"
proof -
  have nd: "not_digit_hd rest" using assms(2) by (cases rest) (auto simp: not_digit_hd_def is_digit_facts)
  show ?thesis
  proof (cases i)
    case (Single a)
    have "rest \<noteq> [] \<Longrightarrow> hd rest \<noteq> CHR ''-''" using assms(2) by auto
    then show ?thesis using assms Single nd by (auto simp: parse_field_def strtoll_show)
  next
    case (Span a b)
    have "not_digit_hd (CHR ''-'' # t)" for t by (simp add: not_digit_hd_def is_digit_def)
    then show ?thesis using assms Span nd by (simp add: parse_field_def strtoll_show)
  qed
qed

lemma parse_items:
  assumes "is \<noteq> []" "list_all item_ok is"
    "int (length rng + length (all_values is)) < MAX_SKI_INTPUT_INT_RANGE"
  shows "parse_fields (join CHR '','' (map print_item is)) rng = Inr (rng @ all_values is)"
  using assms
proof (induction "is" arbitrary: rng)
  case (Cons i js)
  let ?rest = "if js = [] then [] else CHR '','' # join CHR '','' (map print_item js)"
  have je: "join CHR '','' (map print_item (i # js)) = print_item i @ ?rest" by (cases js) simp_all
  have "parse_field (print_item i @ ?rest) rng = Inr (rng @ item_values i, ?rest)"
    using Cons.prems by (intro parse_item) (simp_all add: all_values_def)
  moreover have "js \<noteq> [] \<Longrightarrow> parse_fields (join CHR '','' (map print_item js)) (rng @ item_values i) =
      Inr (rng @ item_values i @ all_values js)"
    using Cons.IH[of "rng @ item_values i"] Cons.prems by (simp add: all_values_def)
  ultimately show ?case
    unfolding je by (subst parse_fields.simps) (simp add: all_values_def)
qed simp

lemma print_item_hd:
  "print_item i @ t \<noteq> [] \<and> hd (print_item i @ t) \<noteq> CHR ''@'' \<and> hd (print_item i @ t) \<noteq> CHR ''+''"
proof -
  have d: "hd (show_int v @ t) \<noteq> CHR ''@'' \<and> hd (show_int v @ t) \<noteq> CHR ''+'' \<and> show_int v \<noteq> []" for v t
    using show_nat_Cons[of "nat v"] by (auto simp: show_int_def is_digit_def)
  show ?thesis using d by (cases i) (simp_all add: hd_append split: if_splits)
qed

text \<open>
  C27: a printed range is read back.  Every nonempty list of values and intervals that fits the
  table, printed with the prefixes for input files and relative values, is parsed to exactly
  these values, in order, with the flags of the prefixes.
\<close>

theorem range_round_trip:
  assumes "is \<noteq> []" "list_all item_ok is" "int (length (all_values is)) < MAX_SKI_INTPUT_INT_RANGE"
    "getenv name = Some (print_range src rel is)"
  shows "ski_input_env_load_int_range getenv name zero_range =
    Inr \<lparr>ir_range = all_values is, ir_iterator = 0, ir_relative = rel,
         ir_from_file_single = (src = From_file), ir_from_file_pairs = (src = From_pairs)\<rparr>"
proof -
  let ?t = "join CHR '','' (map print_item is)"
  obtain i js where i: "is = i # js" using assms(1) by (cases "is") auto
  have t: "?t \<noteq> []" "hd ?t \<noteq> CHR ''@''" "hd ?t \<noteq> CHR ''+''"
  proof -
    obtain rest where "?t = print_item i @ rest" using i by (cases js) auto
    then show "?t \<noteq> []" "hd ?t \<noteq> CHR ''@''" "hd ?t \<noteq> CHR ''+''" using print_item_hd[of i rest] by simp_all
  qed
  have "parse_fields ?t [] = Inr (all_values is)" using parse_items[of "is" "[]"] assms by simp
  then show ?thesis using t assms(4)
    by (cases src; cases rel)
      (simp_all add: ski_input_env_load_int_range_def print_range_def clear_first_def zero_range_def Let_def hd_append)
qed

theorem range_round_trip_witness:
  "ski_input_env_load_int_range (\<lambda>n. Some ''@+2,5-7'') ''SKI_INPUT2_RANGE'' zero_range =
    Inr \<lparr>ir_range = [2, 5, 6, 7], ir_iterator = 0, ir_relative = True, ir_from_file_single = True,
         ir_from_file_pairs = False\<rparr>"
proof -
  have "print_range From_file True [Single 2, Span 5 7] = ''@+2,5-7''"
    by (simp add: print_range_def show_int_def show_nat.simps char_of_def bit_iff_odd)
  moreover have "all_values [Single 2, Span 5 7] = [2, 5, 6, 7]" by (simp add: all_values_def upt_rec)
  ultimately show ?thesis
    using range_round_trip[of "[Single 2, Span 5 7]" "\<lambda>n. Some ''@+2,5-7''" "''SKI_INPUT2_RANGE''" From_file True]
    by (simp add: ll_int_def)
qed

section \<open>Enumeration of the tests\<close>

text \<open>The tests that successive calls set up: inputs, seed and whether the inputs are new.\<close>

fun fork_inits :: "nat \<Rightarrow> input_state \<Rightarrow> (((int \<times> int) \<times> int \<times> bool) list \<times> input_state) res" where
  "fork_inits 0 st = Inr ([], st)"
| "fork_inits (Suc n) st =
    bind_res (ski_input_fork_init st) (\<lambda>(st, new_input).
    bind_res (fork_inits n st) (\<lambda>(ts, st').
      Inr ((options_input_number st, options_seed st, new_input) # ts, st')))"

lemma fork_inits_add:
  "fork_inits (m + n) st =
    bind_res (fork_inits m st) (\<lambda>(ts, st). bind_res (fork_inits n st) (\<lambda>(us, st'). Inr (ts @ us, st')))"
proof (induction m arbitrary: st)
  case 0
  show ?case by (cases "fork_inits n st") auto
next
  case (Suc m)
  show ?case
  proof (cases "ski_input_fork_init st")
    case (Inr r)
    obtain st1 b where "r = (st1, b)" by force
    then show ?thesis using Inr Suc[of st1]
      by (cases "fork_inits m st1") (auto split: prod.splits simp: bind_res_split)
  qed simp
qed

definition pos_at :: "input_state \<Rightarrow> nat \<Rightarrow> nat \<Rightarrow> nat \<Rightarrow> int \<times> int \<Rightarrow> int \<Rightarrow> input_state" where
  "pos_at st i1 i2 i3 inp sd = st\<lparr>input1_range := (input1_range st)\<lparr>ir_iterator := i1\<rparr>,
     input2_range := (input2_range st)\<lparr>ir_iterator := i2\<rparr>,
     interleaving_range := (interleaving_range st)\<lparr>ir_iterator := i3\<rparr>,
     options_input_number := inp, options_seed := sd\<rparr>"

lemma pos_at_opts [simp]:
  "options_input_number (pos_at st i1 i2 i3 inp sd) = inp" "options_seed (pos_at st i1 i2 i3 inp sd) = sd"
  by (simp_all add: pos_at_def)

lemma get_current_cong:
  assumes "ski_input_file st' = ski_input_file st" "ski_input_pairs_file st' = ski_input_pairs_file st"
  shows "ski_input_get_current st' = ski_input_get_current st"
    "ski_input_get_current_relative st' = ski_input_get_current_relative st"
  unfolding fun_eq_iff ski_input_get_current_def ski_input_get_current_relative_def assms by simp_all

lemma next_inputs_pos: "next_inputs (pos_at st i1 i2 i3 inp sd) = next_inputs (pos_at st i1 i2 0 (0, 0) 0)"
proof -
  let ?a = "pos_at st i1 i2 i3 inp sd" and ?b = "pos_at st i1 i2 0 (0, 0) 0"
  have e: "ski_input_file ?a = ski_input_file ?b" "ski_input_pairs_file ?a = ski_input_pairs_file ?b"
    "input1_range ?a = input1_range ?b" "input2_range ?a = input2_range ?b" by (simp_all add: pos_at_def)
  show ?thesis unfolding next_inputs_def get_current_cong[OF e(1,2)] e(3,4) ..
qed

definition seed_at :: "input_state \<Rightarrow> nat \<Rightarrow> int" where
  "seed_at st i3 = int32 (ir_range (interleaving_range st) ! i3)"

lemma fork_init_pos:
  assumes np: "\<not> ir_from_file_pairs (input1_range st)"
    and i: "i1 < length (ir_range (input1_range st))" "i2 < length (ir_range (input2_range st))"
      "i3 < length (ir_range (interleaving_range st))"
    and v: "next_inputs (pos_at st i1 i2 0 (0, 0) 0) = Inr v"
  shows "ski_input_fork_init (pos_at st i1 i2 i3 inp sd) =
    Inr (if i3 + 1 < length (ir_range (interleaving_range st)) then pos_at st i1 i2 (i3 + 1) v (seed_at st i3)
         else if i2 + 1 < length (ir_range (input2_range st)) then pos_at st i1 (i2 + 1) 0 v (seed_at st i3)
         else pos_at st (i1 + 1) 0 0 v (seed_at st i3), i3 = 0)"
proof -
  have "i3 + 1 = length (ir_range (interleaving_range st))" if "\<not> i3 + 1 < length (ir_range (interleaving_range st))"
    using i(3) that by simp
  moreover have "i2 + 1 = length (ir_range (input2_range st))" if "\<not> i2 + 1 < length (ir_range (input2_range st))"
    using i(2) that by simp
  moreover have "ski_input_fork_init (pos_at st i1 i2 i3 inp sd) =
      Inr (advance (pos_at st i1 i2 i3 v (seed_at st i3)), i3 = 0)"
    using i v next_inputs_pos[of st i1 i2 i3 inp sd]
    by (simp add: ski_input_fork_init_def pos_at_def range_at_def seed_at_def)
  ultimately show ?thesis using np by (auto simp: advance_def pos_at_def Let_def)
qed

lemma enumerate_interleavings:
  assumes np: "\<not> ir_from_file_pairs (input1_range st)"
    and i: "i1 < length (ir_range (input1_range st))" "i2 < length (ir_range (input2_range st))"
    and v: "next_inputs (pos_at st i1 i2 0 (0, 0) 0) = Inr v"
    and d: "i3 + Suc d = length (ir_range (interleaving_range st))"
  shows "\<exists>inp' sd'. fork_inits (Suc d) (pos_at st i1 i2 i3 inp sd) =
    Inr (map (\<lambda>k. (v, seed_at st k, k = 0)) [i3..<i3 + Suc d],
      if i2 + 1 < length (ir_range (input2_range st)) then pos_at st i1 (i2 + 1) 0 inp' sd'
      else pos_at st (i1 + 1) 0 0 inp' sd')"
  using d
proof (induction d arbitrary: i3 inp sd)
  case 0
  have "fork_inits (Suc 0) (pos_at st i1 i2 i3 inp sd) = Inr ([(v, seed_at st i3, i3 = 0)],
      if i2 + 1 < length (ir_range (input2_range st)) then pos_at st i1 (i2 + 1) 0 v (seed_at st i3)
      else pos_at st (i1 + 1) 0 0 v (seed_at st i3))"
    using fork_init_pos[OF np i _ v, of i3 inp sd] 0 by auto
  then show ?case by (intro exI[of _ v] exI[of _ "seed_at st i3"]) simp
next
  case (Suc d)
  obtain inp' sd' where "fork_inits (Suc d) (pos_at st i1 i2 (i3 + 1) v (seed_at st i3)) =
    Inr (map (\<lambda>k. (v, seed_at st k, k = 0)) [i3 + 1..<i3 + 1 + Suc d],
      if i2 + 1 < length (ir_range (input2_range st)) then pos_at st i1 (i2 + 1) 0 inp' sd'
      else pos_at st (i1 + 1) 0 0 inp' sd')"
    using Suc.IH[of "i3 + 1" v "seed_at st i3"] Suc.prems by auto
  moreover have "ski_input_fork_init (pos_at st i1 i2 i3 inp sd) = Inr (pos_at st i1 i2 (i3 + 1) v (seed_at st i3), i3 = 0)"
    using fork_init_pos[OF np i _ v, of i3 inp sd] Suc.prems by simp
  moreover have "[i3..<i3 + Suc (Suc d)] = i3 # [i3 + 1..<i3 + 1 + Suc d]" by (simp add: upt_rec del: upt_Suc)
  ultimately show ?case
    by (simp only: fork_inits.simps(2)[of "Suc d"] bind_res.simps split_conv list.map pos_at_opts) blast
qed

abbreviation n1_of :: "input_state \<Rightarrow> nat" where "n1_of st \<equiv> length (ir_range (input1_range st))"
abbreviation n2_of :: "input_state \<Rightarrow> nat" where "n2_of st \<equiv> length (ir_range (input2_range st))"
abbreviation n3_of :: "input_state \<Rightarrow> nat" where "n3_of st \<equiv> length (ir_range (interleaving_range st))"

definition tests_of :: "input_state \<Rightarrow> (nat \<Rightarrow> nat \<Rightarrow> int \<times> int) \<Rightarrow> nat \<Rightarrow> nat \<Rightarrow> ((int \<times> int) \<times> int \<times> bool) list" where
  "tests_of st v i1 i2 = map (\<lambda>k. (v i1 i2, seed_at st k, k = 0)) [0..<n3_of st]"

lemma enumerate_second:
  assumes np: "\<not> ir_from_file_pairs (input1_range st)" and i1: "i1 < n1_of st" and n3: "0 < n3_of st"
    and v: "\<And>i2. i2 < n2_of st \<Longrightarrow> next_inputs (pos_at st i1 i2 0 (0, 0) 0) = Inr (v i1 i2)"
    and d: "i2 + Suc d = n2_of st"
  shows "\<exists>inp' sd'. fork_inits (Suc d * n3_of st) (pos_at st i1 i2 0 inp sd) =
    Inr (concat (map (tests_of st v i1) [i2..<i2 + Suc d]), pos_at st (i1 + 1) 0 0 inp' sd')"
  using d
proof (induction d arbitrary: i2 inp sd)
  case 0
  obtain d3 where d3: "n3_of st = Suc d3" using n3 by (cases "n3_of st") auto
  show ?case using enumerate_interleavings[OF np i1 _ v, of i2 0 d3 inp sd] d3 0
    by (simp add: tests_of_def upt_conv_Cons flip: 0 del: fork_inits.simps upt_Suc)
next
  case (Suc d)
  obtain d3 where d3: "n3_of st = Suc d3" using n3 by (cases "n3_of st") auto
  obtain inp1 sd1 where first: "fork_inits (n3_of st) (pos_at st i1 i2 0 inp sd) =
      Inr (tests_of st v i1 i2, pos_at st i1 (i2 + 1) 0 inp1 sd1)"
    using enumerate_interleavings[OF np i1 _ v, of i2 0 d3 inp sd] d3 Suc.prems
    by (auto simp: tests_of_def simp del: fork_inits.simps upt_Suc)
  obtain inp2 sd2 where "fork_inits (Suc d * n3_of st) (pos_at st i1 (i2 + 1) 0 inp1 sd1) =
      Inr (concat (map (tests_of st v i1) [i2 + 1..<i2 + 1 + Suc d]), pos_at st (i1 + 1) 0 0 inp2 sd2)"
    using Suc.IH[of "i2 + 1" inp1 sd1] Suc.prems by auto
  moreover have "Suc (Suc d) * n3_of st = n3_of st + Suc d * n3_of st" by simp
  moreover have "[i2..<i2 + Suc (Suc d)] = i2 # [i2 + 1..<i2 + 1 + Suc d]" by (simp add: upt_rec del: upt_Suc)
  ultimately show ?case using first
    by (simp only: fork_inits_add bind_res.simps split_conv list.map concat.simps) blast
qed

lemma enumerate_first:
  assumes np: "\<not> ir_from_file_pairs (input1_range st)" and n: "0 < n2_of st" "0 < n3_of st"
    and v: "\<And>i1 i2. i1 < n1_of st \<Longrightarrow> i2 < n2_of st \<Longrightarrow>
      next_inputs (pos_at st i1 i2 0 (0, 0) 0) = Inr (v i1 i2)"
    and d: "i1 + d = n1_of st"
  shows "\<exists>inp' sd'. fork_inits (d * (n2_of st * n3_of st)) (pos_at st i1 0 0 inp sd) =
    Inr (concat (map (\<lambda>i1. concat (map (tests_of st v i1) [0..<n2_of st])) [i1..<i1 + d]), pos_at st (i1 + d) 0 0 inp' sd')"
  using d
proof (induction d arbitrary: i1 inp sd)
  case 0
  show ?case by (intro exI[of _ inp], intro exI[of _ sd]) simp
next
  case (Suc d)
  obtain d2 where d2: "n2_of st = Suc d2" using n by (cases "n2_of st") auto
  obtain inp1 sd1 where first: "fork_inits (n2_of st * n3_of st) (pos_at st i1 0 0 inp sd) =
      Inr (concat (map (tests_of st v i1) [0..<n2_of st]), pos_at st (i1 + 1) 0 0 inp1 sd1)"
    using enumerate_second[of st i1 v 0 d2 inp sd] np n v d2 Suc.prems by (auto simp del: fork_inits.simps upt_Suc)
  obtain inp2 sd2 where "fork_inits (d * (n2_of st * n3_of st)) (pos_at st (i1 + 1) 0 0 inp1 sd1) =
      Inr (concat (map (\<lambda>i1. concat (map (tests_of st v i1) [0..<n2_of st])) [i1 + 1..<i1 + 1 + d]),
        pos_at st (i1 + 1 + d) 0 0 inp2 sd2)"
    using Suc.IH[of "i1 + 1" inp1 sd1] Suc.prems by auto
  moreover have "Suc d * (n2_of st * n3_of st) = n2_of st * n3_of st + d * (n2_of st * n3_of st)" by simp
  moreover have "[i1..<i1 + Suc d] = i1 # [i1 + 1..<i1 + 1 + d]" by (simp add: upt_rec del: upt_Suc)
  moreover have "i1 + Suc d = i1 + 1 + d" by simp
  ultimately show ?case using first
    by (simp only: fork_inits_add bind_res.simps split_conv list.map concat.simps) blast
qed

lemma fork_inits_length: "fork_inits n st = Inr (ts, st') \<Longrightarrow> length ts = n"
  by (induction n arbitrary: st ts) (auto simp: bind_res_eq_Inr split: prod.splits)

lemma fork_inits_last:
  "fork_inits (Suc n) st = Inr (ts, st') \<Longrightarrow>
    options_input_number st' = fst (last ts) \<and> options_seed st' = fst (snd (last ts))"
proof (induction n arbitrary: st ts)
  case 0
  then show ?case by (auto simp: bind_res_eq_Inr split: prod.splits)
next
  case (Suc n)
  then obtain st1 new us where s: "ski_input_fork_init st = Inr (st1, new)" "fork_inits (Suc n) st1 = Inr (us, st')"
    "ts = (options_input_number st1, options_seed st1, new) # us"
    by (subst (asm) fork_inits.simps(2)) (auto simp: bind_res_eq_Inr simp del: fork_inits.simps)
  then show ?case using Suc.IH[OF s(2)] fork_inits_length[OF s(2)] by auto
qed

lemma fork_inits_prefix:
  assumes "fork_inits n st = Inr (ts, st1)" "fork_inits (n + m) st = Inr (us, st2)"
  shows "ts = take n us"
  using assms fork_inits_length[OF assms(1)] by (auto simp: fork_inits_add bind_res_eq_Inr)

lemma fork_inits_still:
  "ski_input_fork_init st = Inr (st, False) \<Longrightarrow>
    fork_inits n st = Inr (replicate n (options_input_number st, options_seed st, False), st)"
  by (induction n) auto

definition all_tests :: "input_state \<Rightarrow> (nat \<Rightarrow> nat \<Rightarrow> int \<times> int) \<Rightarrow> ((int \<times> int) \<times> int \<times> bool) list" where
  "all_tests st v = concat (map (\<lambda>i1. concat (map (tests_of st v i1) [0..<n2_of st])) [0..<n1_of st])"

lemma fork_inits_all:
  assumes "\<not> ir_from_file_pairs (input1_range st)" "ir_range (input2_range st) \<noteq> []" "ir_range (interleaving_range st) \<noteq> []"
    and "ir_iterator (input1_range st) = 0" "ir_iterator (input2_range st) = 0" "ir_iterator (interleaving_range st) = 0"
    and v: "\<And>i1 i2. i1 < n1_of st \<Longrightarrow> i2 < n2_of st \<Longrightarrow>
      next_inputs (pos_at st i1 i2 0 (0, 0) 0) = Inr (v i1 i2)"
  shows "\<exists>st'. fork_inits (n1_of st * (n2_of st * n3_of st)) st = Inr (all_tests st v, st') \<and>
    ski_input_fork_init st' = Inr (st', False)"
proof -
  have "pos_at st 0 0 0 (options_input_number st) (options_seed st) = st"
    using assms(4-6) by (simp add: pos_at_def)
  then obtain inp sd where "fork_inits (n1_of st * (n2_of st * n3_of st)) st =
      Inr (all_tests st v, pos_at st (n1_of st) 0 0 inp sd)"
    using enumerate_first[of st v 0 "n1_of st" "options_input_number st" "options_seed st"] assms by (auto simp: all_tests_def)
  moreover have "ski_input_fork_init (pos_at st (n1_of st) 0 0 inp sd) = Inr (pos_at st (n1_of st) 0 0 inp sd, False)"
    by (simp add: ski_input_fork_init_def pos_at_def)
  ultimately show ?thesis by blast
qed

text \<open>The last test of the product.\<close>

lemma last_test:
  assumes "0 < n1_of st" "0 < n2_of st" "0 < n3_of st"
  shows "all_tests st v \<noteq> []" "fst (last (all_tests st v)) = v (n1_of st - 1) (n2_of st - 1)"
    "fst (snd (last (all_tests st v))) = seed_at st (n3_of st - 1)"
proof -
  obtain a b c where n: "n1_of st = Suc a" "n2_of st = Suc b" "n3_of st = Suc c"
    using assms by (metis gr0_implies_Suc)
  have "\<exists>us. all_tests st v = us @ [(v a b, seed_at st c, c = 0)]"
    by (simp add: all_tests_def tests_of_def n)
  then show "all_tests st v \<noteq> []" "fst (last (all_tests st v)) = v (n1_of st - 1) (n2_of st - 1)"
    "fst (snd (last (all_tests st v))) = seed_at st (n3_of st - 1)" by (auto simp: n)
qed

text \<open>
  C13: the tests are enumerated.  Let no pair file be used and let \<open>v i1 i2\<close> be the inputs that
  the \<open>i1\<close>-th value of the first and the \<open>i2\<close>-th value of the second range select, directly, from
  the input file or relative to the first input.  From the initial position the calls before
  the forks set up exactly the product of the ranges, the interleavings innermost and the
  first input outermost, and report new inputs exactly at the first interleaving; any
  further call changes nothing.
\<close>

theorem fork_init_enumerates:
  assumes "\<not> ir_from_file_pairs (input1_range st)" "ir_range (input2_range st) \<noteq> []" "ir_range (interleaving_range st) \<noteq> []"
    and "ir_iterator (input1_range st) = 0" "ir_iterator (input2_range st) = 0" "ir_iterator (interleaving_range st) = 0"
    and v: "\<And>i1 i2. i1 < n1_of st \<Longrightarrow> i2 < n2_of st \<Longrightarrow>
      next_inputs (pos_at st i1 i2 0 (0, 0) 0) = Inr (v i1 i2)"
  shows "\<exists>st'. fork_inits (n1_of st * (n2_of st * n3_of st)) st =
      Inr (concat (map (\<lambda>i1. concat (map (\<lambda>i2. map (\<lambda>i3. (v i1 i2, seed_at st i3, i3 = 0)) [0..<n3_of st])
        [0..<n2_of st])) [0..<n1_of st]), st') \<and>
    ski_input_fork_init st' = Inr (st', False)"
  using fork_inits_all[OF assms] unfolding all_tests_def tests_of_def .

definition sample_input :: input_state where
  "sample_input = \<lparr>input1_range = zero_range\<lparr>ir_range := [4, 6]\<rparr>,
     input2_range = zero_range\<lparr>ir_range := [1], ir_relative := True\<rparr>,
     interleaving_range = zero_range\<lparr>ir_range := [7, 8]\<rparr>, ski_input_file = [], ski_input_pairs_file = [],
     options_input_number = (-1, -1), options_seed = 0\<rparr>"

theorem fork_init_enumerates_witness:
  "\<exists>st'. fork_inits 4 sample_input =
    Inr ([((4, 5), 7, True), ((4, 5), 8, False), ((6, 7), 7, True), ((6, 7), 8, False)], st')"
proof -
  define v :: "nat \<Rightarrow> nat \<Rightarrow> int \<times> int" where "v i1 i2 = (if i1 = 0 then (4, 5) else (6, 7))" for i1 i2
  have i32: "int32 4 = 4" "int32 5 = 5" "int32 6 = 6" "int32 7 = 7" "int32 8 = 8" by (simp_all add: c_int_def)
  have "next_inputs (pos_at sample_input i1 i2 0 (0, 0) 0) = Inr (v i1 i2)" if "i1 < 2" "i2 < 1" for i1 i2
    using that i32 by (auto simp: less_2_cases_iff next_inputs_def pos_at_def sample_input_def zero_range_def
        ski_input_get_current_def ski_input_get_current_relative_def range_at_def v_def)
  then obtain st' where "fork_inits (2 * (1 * 2)) sample_input =
      Inr (concat (map (\<lambda>i1. concat (map (\<lambda>i2. map (\<lambda>i3. (v i1 i2, seed_at sample_input i3, i3 = 0)) [0..<2])
        [0..<1])) [0..<2]), st')"
    using fork_init_enumerates[of sample_input v] by (auto simp: sample_input_def zero_range_def numeral_2_eq_2)
  then show ?thesis using i32 by (auto simp: v_def seed_at_def sample_input_def zero_range_def upt_rec)
qed

end
