(* ===== verification/Ski_Pic.thy ===== *)
theory Ski_Pic
  imports Ski_Prelude
begin

text \<open>
  The registers of the two 8259 interrupt controllers (\<open>vmm/hw/i8259.c\<close>) and the choice of
  the line that a controller wants serviced.  The choice follows the rotating priority of the
  device; the operations that change the registers drive the interrupt output and are in
  \<open>Ski_Irq\<close>.
\<close>

unbundle bit_operations_syntax

record PicState =
  pic_last_irr :: "8 word"
  pic_irr :: "8 word"
  pic_imr :: "8 word"
  pic_isr :: "8 word"
  pic_priority_add :: "8 word"
  pic_irq_base :: "8 word"
  pic_read_reg_select :: "8 word"
  pic_poll :: "8 word"
  pic_special_mask :: "8 word"
  pic_init_state :: "8 word"
  pic_auto_eoi :: "8 word"
  pic_rotate_on_auto_eoi :: "8 word"
  pic_special_fully_nested_mode :: "8 word"
  pic_init4 :: "8 word"
  pic_single_mode :: "8 word"
  pic_elcr :: "8 word"
  pic_elcr_mask :: "8 word"
  pic_master :: bool

text \<open>
  The loop of \<open>get_priority\<close> looks for the next set bit of the mask, starting at the line of
  highest priority and wrapping around; the guard on an empty mask precedes the loop.
\<close>

lemma and7_nat: "(n::nat) AND 7 = n mod 8"
  using take_bit_eq_mask[of 3 n] take_bit_eq_mod[of 3 n] by (simp add: mask_eq_exp_minus_1)

lemma word8_zero_iff: "(v :: 8 word) = 0 \<longleftrightarrow> (\<forall>m<8. \<not> bit v m)"
  by (auto intro: bit_word_eqI)

lemma next_bit_ex:
  assumes "(msk :: 8 word) \<noteq> 0"
  shows "\<exists>d. bit msk ((priority + d + add) AND 7)"
proof -
  obtain k where "k < 8" "bit msk k" using assms by (auto simp: word8_zero_iff)
  moreover from this have "(priority + (k + 7 * (priority + add)) + add) mod 8 = k" by simp
  ultimately show ?thesis by (intro exI[of _ "k + 7 * (priority + add)"]) (simp add: and7_nat)
qed

function get_priority_from :: "8 word \<Rightarrow> nat \<Rightarrow> nat \<Rightarrow> nat" where
  "get_priority_from msk add priority =
    (if msk = 0 then 8
     else if bit msk ((priority + add) AND 7) then priority
     else get_priority_from msk add (priority + 1))"
  by auto
termination
proof (relation "measure (\<lambda>(msk, add, priority). LEAST d. bit msk ((priority + d + add) AND 7))")
  fix msk :: "8 word" and add priority :: nat
  assume nz: "msk \<noteq> 0" and no: "\<not> bit msk ((priority + add) AND 7)"
  let ?P = "\<lambda>d. bit msk ((priority + d + add) AND 7)"
  obtain d where "?P d" using next_bit_ex[OF nz] by blast
  then have least: "?P (LEAST d. ?P d)" by (rule LeastI)
  then obtain e where e: "(LEAST d. ?P d) = Suc e" using no by (cases "LEAST d. ?P d") auto
  then have "bit msk ((priority + 1 + e + add) AND 7)" using least by simp
  then have "(LEAST d. bit msk ((priority + 1 + d + add) AND 7)) \<le> e" by (rule Least_le)
  then show "((msk, add, priority + 1), (msk, add, priority)) \<in>
      measure (\<lambda>(msk, add, priority). LEAST d. bit msk ((priority + d + add) AND 7))"
    using e by simp
qed simp

declare get_priority_from.simps [simp del]

definition get_priority :: "PicState \<Rightarrow> 8 word \<Rightarrow> nat" where
  "get_priority s msk = get_priority_from msk (unat (pic_priority_add s)) 0"

definition pic_get_irq :: "PicState \<Rightarrow> int" where
  "pic_get_irq s =
    (let msk = pic_irr s AND NOT (pic_imr s);
         priority = get_priority s msk
     in if priority = 8 then -1
        else let msk = pic_isr s;
                 msk = (if pic_special_mask s \<noteq> 0 then msk AND NOT (pic_imr s) else msk);
                 msk = (if pic_special_fully_nested_mode s \<noteq> 0 \<and> pic_master s
                         then msk AND NOT (push_bit 2 1) else msk);
                 cur_priority = get_priority s msk
             in if priority < cur_priority
                then int ((priority + unat (pic_priority_add s)) AND 7) else -1)"

definition pic_get_output :: "PicState \<Rightarrow> bool" where
  "pic_get_output s \<longleftrightarrow> pic_get_irq s \<ge> 0"

section \<open>The priority search\<close>

lemma get_priority_from_spec:
  assumes "msk \<noteq> 0"
  shows "priority \<le> get_priority_from msk add priority \<and>
    bit msk ((get_priority_from msk add priority + add) mod 8) \<and>
    (\<forall>q. priority \<le> q \<longrightarrow> q < get_priority_from msk add priority \<longrightarrow> \<not> bit msk ((q + add) mod 8))"
  using assms
proof (induction msk add priority rule: get_priority_from.induct)
  case (1 msk add priority)
  show ?case
  proof (cases "bit msk ((priority + add) mod 8)")
    case True
    then show ?thesis using 1 by (simp add: get_priority_from.simps[of msk add priority] and7_nat)
  next
    case False
    then have "get_priority_from msk add priority = get_priority_from msk add (priority + 1)"
      using 1 by (simp add: get_priority_from.simps[of msk add priority] and7_nat)
    moreover have "q = priority \<or> priority + 1 \<le> q" if "priority \<le> q" for q using that by arith
    ultimately show ?thesis using 1 False by (fastforce simp: and7_nat)
  qed
qed

text \<open>The position of line \<open>i\<close> in the order of priority, 0 for the highest.\<close>

definition pic_rank :: "PicState \<Rightarrow> nat \<Rightarrow> nat" where
  "pic_rank s i = (i + 7 * unat (pic_priority_add s)) mod 8"

lemma pic_rank_less [simp]: "pic_rank s i < 8"
  by (simp add: pic_rank_def)

lemma rank_cancel: "((q::nat) + a + 7 * a) mod 8 = q mod 8"
  by (simp add: add.assoc)

lemma pic_rank_line: "q < 8 \<Longrightarrow> pic_rank s ((q + unat (pic_priority_add s)) mod 8) = q"
  by (simp add: pic_rank_def mod_add_left_eq rank_cancel)

lemma pic_line_rank: "i < 8 \<Longrightarrow> (pic_rank s i + unat (pic_priority_add s)) mod 8 = i"
  by (simp add: pic_rank_def mod_add_left_eq)

lemma get_priority_spec:
  assumes "msk \<noteq> 0"
  shows "\<exists>i<8. get_priority s msk = pic_rank s i \<and> bit msk i \<and>
    (\<forall>j<8. bit msk j \<longrightarrow> pic_rank s i \<le> pic_rank s j)"
proof -
  let ?a = "unat (pic_priority_add s)" and ?p = "get_priority s msk"
  have p: "bit msk ((?p + ?a) mod 8)" "\<forall>q<?p. \<not> bit msk ((q + ?a) mod 8)"
    using get_priority_from_spec[OF assms, of 0 ?a] by (simp_all add: get_priority_def)
  have le: "?p \<le> pic_rank s j" if "j < 8" "bit msk j" for j
    using p(2) that pic_line_rank[of j s] by (metis not_le)
  obtain k where "k < 8" "bit msk k" using assms by (auto simp: word8_zero_iff)
  then have "?p < 8" using le[of k] by (meson le_less_trans pic_rank_less)
  then have "get_priority s msk = pic_rank s ((?p + ?a) mod 8)" by (simp add: pic_rank_line)
  then show ?thesis using p(1) le by (intro exI[of _ "(?p + ?a) mod 8"]) simp
qed

lemma get_priority_zero [simp]: "get_priority s 0 = 8"
  by (simp add: get_priority_def get_priority_from.simps)

lemma get_priority_8: "get_priority s msk = 8 \<longleftrightarrow> msk = 0"
proof
  assume *: "get_priority s msk = 8"
  show "msk = 0"
  proof (rule ccontr)
    assume "msk \<noteq> 0"
    from get_priority_spec[OF this, of s] obtain i where "get_priority s msk = pic_rank s i" by blast
    with * pic_rank_less[of s i] show False by simp
  qed
qed simp

section \<open>The choice of a line\<close>

definition pic_requested :: "PicState \<Rightarrow> nat \<Rightarrow> bool" where
  "pic_requested s i \<longleftrightarrow> bit (pic_irr s) i \<and> \<not> bit (pic_imr s) i"

definition pic_serviced :: "PicState \<Rightarrow> nat \<Rightarrow> bool" where
  "pic_serviced s i \<longleftrightarrow> bit (pic_isr s) i \<and> \<not> (pic_special_mask s \<noteq> 0 \<and> bit (pic_imr s) i) \<and>
    \<not> (pic_special_fully_nested_mode s \<noteq> 0 \<and> pic_master s \<and> i = 2)"

definition service_mask :: "PicState \<Rightarrow> 8 word" where
  "service_mask s =
    (let msk = (if pic_special_mask s \<noteq> 0 then pic_isr s AND NOT (pic_imr s) else pic_isr s)
     in if pic_special_fully_nested_mode s \<noteq> 0 \<and> pic_master s then msk AND NOT (push_bit 2 1) else msk)"

lemma bit_requested: "i < 8 \<Longrightarrow> bit (pic_irr s AND NOT (pic_imr s)) i \<longleftrightarrow> pic_requested s i"
  by (simp add: pic_requested_def bit_and_iff bit_not_iff)

lemma bit_not_cascade: "bit (- 5 :: int) i \<longleftrightarrow> i \<noteq> 2"
proof -
  have "(- 5 :: int) = NOT (2 ^ 2)" by (simp add: not_int_def)
  then show ?thesis by (simp only: bit_not_iff bit_exp_iff) auto
qed

lemma bit_service_mask: "i < 8 \<Longrightarrow> bit (service_mask s) i \<longleftrightarrow> pic_serviced s i"
  by (auto simp: service_mask_def pic_serviced_def bit_and_iff bit_not_iff bit_not_cascade Let_def)

lemma pic_get_irq_eq:
  "pic_get_irq s =
    (let p = get_priority s (pic_irr s AND NOT (pic_imr s))
     in if p \<noteq> 8 \<and> p < get_priority s (service_mask s)
        then int ((p + unat (pic_priority_add s)) mod 8) else -1)"
  by (simp add: pic_get_irq_def service_mask_def Let_def and7_nat)

text \<open>
  C35: the line an 8259 wants serviced.  It is the requested, unmasked line of highest rotating
  priority, provided that its priority is strictly above every line in service that counts (in
  special mask mode masked lines do not, in special fully nested mode the cascade line of the
  master does not); the result is -1 exactly if every such request is at or below a line in
  service.
\<close>

theorem pic_get_irq_exact:
  "(\<exists>i<8. pic_get_irq s = int i \<and> pic_requested s i \<and>
      (\<forall>j<8. pic_requested s j \<longrightarrow> pic_rank s i \<le> pic_rank s j) \<and>
      (\<forall>j<8. pic_serviced s j \<longrightarrow> pic_rank s i < pic_rank s j)) \<or>
   (pic_get_irq s = -1 \<and>
      (\<forall>i<8. pic_requested s i \<longrightarrow> (\<exists>j<8. pic_serviced s j \<and> pic_rank s j \<le> pic_rank s i)))"
proof (cases "pic_irr s AND NOT (pic_imr s) = 0")
  case True
  then have "\<not> pic_requested s i" if "i < 8" for i using bit_requested[OF that, of s] by simp
  then show ?thesis using True by (simp add: pic_get_irq_eq)
next
  case False
  from get_priority_spec[OF this, of s] obtain i where i: "i < 8"
    "get_priority s (pic_irr s AND NOT (pic_imr s)) = pic_rank s i" "pic_requested s i"
    "\<forall>j<8. pic_requested s j \<longrightarrow> pic_rank s i \<le> pic_rank s j"
    using bit_requested by metis
  have irq: "pic_get_irq s = (if pic_rank s i < get_priority s (service_mask s) then int i else -1)"
    using i(1,2) less_imp_neq[OF pic_rank_less[of s i]] by (simp add: pic_get_irq_eq pic_line_rank Let_def)
  show ?thesis
  proof (cases "service_mask s = 0")
    case True
    then have "\<not> pic_serviced s j" if "j < 8" for j using bit_service_mask[OF that, of s] by simp
    then show ?thesis using True irq i by auto
  next
    case False
    from get_priority_spec[OF this, of s] obtain k where k: "k < 8"
      "get_priority s (service_mask s) = pic_rank s k" "pic_serviced s k"
      "\<forall>j<8. pic_serviced s j \<longrightarrow> pic_rank s k \<le> pic_rank s j"
      using bit_service_mask by metis
    show ?thesis
    proof (cases "pic_rank s i < pic_rank s k")
      case True
      then show ?thesis using irq i k by (metis order_less_le_trans)
    next
      case False
      then show ?thesis using irq i k by (metis not_less order_trans)
    qed
  qed
qed

definition sample_pic :: PicState where
  "sample_pic = \<lparr>pic_last_irr = 0, pic_irr = 0x0a, pic_imr = 0, pic_isr = 0x20, pic_priority_add = 2,
     pic_irq_base = 0x20, pic_read_reg_select = 0, pic_poll = 0, pic_special_mask = 0, pic_init_state = 0,
     pic_auto_eoi = 0, pic_rotate_on_auto_eoi = 0, pic_special_fully_nested_mode = 0, pic_init4 = 1,
     pic_single_mode = 0, pic_elcr = 0, pic_elcr_mask = 0xf8, pic_master = True\<rparr>"

theorem pic_get_irq_exact_witness:
  "pic_get_irq sample_pic = 3 \<and> pic_requested sample_pic 3 \<and> pic_rank sample_pic 3 < pic_rank sample_pic 1 \<and>
    pic_rank sample_pic 3 < pic_rank sample_pic 5"
proof -
  have lines: "pic_requested sample_pic 3" "pic_requested sample_pic 1" "pic_serviced sample_pic 5"
    by (simp_all add: pic_requested_def pic_serviced_def sample_pic_def)
  have "pic_get_irq sample_pic = 3"
    by (simp add: pic_get_irq_def get_priority_def get_priority_from.simps sample_pic_def and7_nat Let_def)
  then have "\<forall>j<8. pic_requested sample_pic j \<longrightarrow> pic_rank sample_pic 3 \<le> pic_rank sample_pic j"
    "\<forall>j<8. pic_serviced sample_pic j \<longrightarrow> pic_rank sample_pic 3 < pic_rank sample_pic j"
    using pic_get_irq_exact[of sample_pic] by auto
  then show ?thesis using lines \<open>pic_get_irq sample_pic = 3\<close>
    by (auto simp: pic_rank_def sample_pic_def)
qed

end
