(* ===== verification/Ski_Apic.thy ===== *)
theory Ski_Apic
  imports Ski_Interrupts Ski_Pic
begin

text \<open>
  The local interrupt controllers (\<open>vmm/hw/apic.c\<close>) with the hooks of SKI: raising a vector
  reports it to the scheduler, and during a test the scheduler decides which vector is
  acknowledged.  The machine joins the CPUs and threads of the scheduler with the other
  interrupt controllers.  Every CPU has a local controller, and the entry of \<open>local_apics\<close>
  with index \<open>i\<close> belongs to the \<open>i\<close>-th CPU, as \<open>apic_init1\<close> sets them up.

  \<open>apic_update_irq\<close> and \<open>apic_set_irq\<close> call each other.  The recursion is bounded by the
  number of stack frames left, and running out of them is the error \<open>Stack_overflow\<close>.
\<close>

section \<open>The machine\<close>

record IOAPICState =
  ioapic_id :: "8 word"
  ioapic_ioregsel :: "8 word"
  ioapic_irr :: "32 word"
  ioapic_ioredtbl :: "64 word list"

record machine =
  mc_ski :: ski_state
  mc_isa_pic :: PicState
  mc_slave_pic :: PicState
  mc_ioapic :: IOAPICState
  mc_apic_irq_delivered :: int
  mc_apic_timers :: "int option list"
  mc_vm_clock :: int

abbreviation (input) APIC_LVT_TIMER :: nat where "APIC_LVT_TIMER \<equiv> 0"
abbreviation (input) APIC_LVT_LINT0 :: nat where "APIC_LVT_LINT0 \<equiv> 3"
abbreviation (input) APIC_LVT_LINT1 :: nat where "APIC_LVT_LINT1 \<equiv> 4"
abbreviation (input) APIC_LVT_NB :: nat where "APIC_LVT_NB \<equiv> 6"
abbreviation (input) APIC_DM_FIXED :: nat where "APIC_DM_FIXED \<equiv> 0"
abbreviation (input) APIC_DM_LOWPRI :: nat where "APIC_DM_LOWPRI \<equiv> 1"
abbreviation (input) APIC_DM_SMI :: nat where "APIC_DM_SMI \<equiv> 2"
abbreviation (input) APIC_DM_NMI :: nat where "APIC_DM_NMI \<equiv> 4"
abbreviation (input) APIC_DM_INIT :: nat where "APIC_DM_INIT \<equiv> 5"
abbreviation (input) APIC_DM_SIPI :: nat where "APIC_DM_SIPI \<equiv> 6"
abbreviation (input) APIC_DM_EXTINT :: nat where "APIC_DM_EXTINT \<equiv> 7"
abbreviation (input) APIC_TRIGGER_EDGE :: nat where "APIC_TRIGGER_EDGE \<equiv> 0"
abbreviation (input) APIC_TRIGGER_LEVEL :: nat where "APIC_TRIGGER_LEVEL \<equiv> 1"
abbreviation (input) APIC_LVT_TIMER_PERIODIC :: "32 word" where "APIC_LVT_TIMER_PERIODIC \<equiv> 0x20000"
abbreviation (input) APIC_LVT_MASKED :: "32 word" where "APIC_LVT_MASKED \<equiv> 0x10000"
abbreviation (input) APIC_LVT_LEVEL_TRIGGER :: "32 word" where "APIC_LVT_LEVEL_TRIGGER \<equiv> 0x8000"
abbreviation (input) APIC_SV_DIRECTED_IO :: "32 word" where "APIC_SV_DIRECTED_IO \<equiv> 0x1000"
abbreviation (input) APIC_SV_ENABLE :: "32 word" where "APIC_SV_ENABLE \<equiv> 0x100"
abbreviation (input) ESR_ILLEGAL_ADDRESS :: "32 word" where "ESR_ILLEGAL_ADDRESS \<equiv> 0x80"
abbreviation (input) MSR_IA32_APICBASE_BSP :: "32 word" where "MSR_IA32_APICBASE_BSP \<equiv> 0x100"
abbreviation (input) MSR_IA32_APICBASE_ENABLE :: "32 word" where "MSR_IA32_APICBASE_ENABLE \<equiv> 0x800"
abbreviation (input) CPU_INTERRUPT_SMI :: "32 word" where "CPU_INTERRUPT_SMI \<equiv> 0x40"
abbreviation (input) CPU_INTERRUPT_NMI :: "32 word" where "CPU_INTERRUPT_NMI \<equiv> 0x200"
abbreviation (input) CPU_INTERRUPT_INIT :: "32 word" where "CPU_INTERRUPT_INIT \<equiv> 0x400"
abbreviation (input) CPU_INTERRUPT_SIPI :: "32 word" where "CPU_INTERRUPT_SIPI \<equiv> 0x800"
abbreviation (input) MAX_APICS :: nat where "MAX_APICS \<equiv> 255"
abbreviation (input) MAX_APIC_WORDS :: nat where "MAX_APIC_WORDS \<equiv> 8"

definition m_cpus :: "machine \<Rightarrow> CPUState list" where
  "m_cpus m = cpus (mc_ski m)"

definition apic_at :: "machine \<Rightarrow> env \<Rightarrow> APICState" where
  "apic_at m c = cpu_apic (cpu_of (mc_ski m) c)"

definition upd_env :: "env \<Rightarrow> (CPUState \<Rightarrow> CPUState) \<Rightarrow> machine \<Rightarrow> machine" where
  "upd_env c f m = m\<lparr>mc_ski := upd_cpu c f (mc_ski m)\<rparr>"

definition upd_apic :: "env \<Rightarrow> (APICState \<Rightarrow> APICState) \<Rightarrow> machine \<Rightarrow> machine" where
  "upd_apic c f m = upd_env c (\<lambda>e. e\<lparr>cpu_apic := f (cpu_apic e)\<rparr>) m"

definition cpu_interrupt :: "machine \<Rightarrow> env \<Rightarrow> 32 word \<Rightarrow> machine" where
  "cpu_interrupt m c msk = upd_env c (\<lambda>e. e\<lparr>cpu_interrupt_request := cpu_interrupt_request e OR msk\<rparr>) m"

definition cpu_reset_interrupt :: "machine \<Rightarrow> env \<Rightarrow> 32 word \<Rightarrow> machine" where
  "cpu_reset_interrupt m c msk =
    upd_env c (\<lambda>e. e\<lparr>cpu_interrupt_request := cpu_interrupt_request e AND NOT msk\<rparr>) m"

definition local_apics :: "machine \<Rightarrow> nat \<Rightarrow> env option" where
  "local_apics m i = (if i < length (m_cpus m) then Some i else None)"

section \<open>Pending vectors\<close>

definition apic_get_ppr :: "APICState \<Rightarrow> int" where
  "apic_get_ppr a =
    (let tpr = drop_bit 4 (uint (apic_tpr a));
         isrv = get_highest_priority_int (apic_isr a);
         isrv = (if isrv < 0 then 0 else isrv);
         isrv = drop_bit 4 isrv
     in if tpr \<ge> isrv then uint (apic_tpr a) else push_bit 4 isrv)"

definition apic_irq_pending :: "APICState \<Rightarrow> int" where
  "apic_irq_pending a =
    (let irrv = get_highest_priority_int (apic_irr a)
     in if irrv < 0 then 0
        else let ppr = apic_get_ppr a
             in if ppr \<noteq> 0 \<and> irrv AND 0xf0 \<le> ppr AND 0xf0 then -1 else irrv)"

definition ski_apic_process_incoming_interrupts :: "CPUState \<Rightarrow> bool" where
  "ski_apic_process_incoming_interrupts e \<longleftrightarrow> ski_active e \<and>
    (sc_state (ski_cpu e) = SKI_CPU_RUNNING_TEST \<or> sc_state (ski_cpu e) = SKI_CPU_BLOCKED_ON_EXIT)"

definition ski_apic_get_highest_priority_int :: "ski_state \<Rightarrow> env \<Rightarrow> bitmap \<Rightarrow> int res" where
  "ski_apic_get_highest_priority_int s c tab =
    (if ski_apic_process_incoming_interrupts (cpu_of s c)
     then let highest_int = ski_threads_find_next_runnable_int s c
          in if highest_int \<ge> 0
             then if highest_int > 255 then Inl Out_of_bounds
                  else bind_res (SKI_ASSERT s (apic_get_bit tab (nat highest_int))) (\<lambda>_. Inr highest_int)
             else Inr (-1)
     else Inr (get_highest_priority_int tab))"

definition ski_apic_irq_pending :: "machine \<Rightarrow> env \<Rightarrow> int res" where
  "ski_apic_irq_pending m c =
    bind_res (ski_apic_get_highest_priority_int (mc_ski m) c (apic_irr (apic_at m c))) (\<lambda>irrv.
      if irrv < 0 then Inr 0
      else let ppr = apic_get_ppr (apic_at m c)
           in if ppr \<noteq> 0 \<and> irrv AND 0xf0 \<le> ppr AND 0xf0 then Inr (-1) else Inr irrv)"

definition apic_accept_pic_intr :: "APICState \<Rightarrow> bool" where
  "apic_accept_pic_intr a \<longleftrightarrow> apic_apicbase a AND MSR_IA32_APICBASE_ENABLE = 0 \<or>
    apic_lvt a ! APIC_LVT_LINT0 AND APIC_LVT_MASKED = 0"

section \<open>Raising a vector\<close>

type_synonym raiser = "machine \<Rightarrow> env \<Rightarrow> nat \<Rightarrow> nat \<Rightarrow> machine res"

definition apic_local_deliver_with :: "raiser \<Rightarrow> machine \<Rightarrow> env \<Rightarrow> nat \<Rightarrow> machine res" where
  "apic_local_deliver_with set_irq m c vector =
    (let lvt = apic_lvt (apic_at m c) ! vector; dm = unat (drop_bit 8 lvt AND 7)
     in if lvt AND APIC_LVT_MASKED \<noteq> 0 then Inr m
        else if dm = APIC_DM_SMI then Inr (cpu_interrupt m c CPU_INTERRUPT_SMI)
        else if dm = APIC_DM_NMI then Inr (cpu_interrupt m c CPU_INTERRUPT_NMI)
        else if dm = APIC_DM_EXTINT then Inr (cpu_interrupt m c CPU_INTERRUPT_HARD)
        else if dm = APIC_DM_FIXED
        then set_irq m c (unat (lvt AND 0xff))
               (if (vector = APIC_LVT_LINT0 \<or> vector = APIC_LVT_LINT1) \<and> lvt AND APIC_LVT_LEVEL_TRIGGER \<noteq> 0
                then APIC_TRIGGER_LEVEL else APIC_TRIGGER_EDGE)
        else Inr m)"

definition apic_deliver_pic_intr_with :: "raiser \<Rightarrow> machine \<Rightarrow> env \<Rightarrow> bool \<Rightarrow> machine res" where
  "apic_deliver_pic_intr_with set_irq m c level =
    (if level then apic_local_deliver_with set_irq m c APIC_LVT_LINT0
     else let lvt = apic_lvt (apic_at m c) ! APIC_LVT_LINT0; dm = unat (drop_bit 8 lvt AND 7)
       in if dm = APIC_DM_FIXED
          then if lvt AND APIC_LVT_LEVEL_TRIGGER = 0 then Inr m
               else let m = upd_apic c (\<lambda>a. a\<lparr>apic_irr := apic_reset_bit (apic_irr a) (unat (lvt AND 0xff))\<rparr>) m
                    in Inr (cpu_reset_interrupt m c CPU_INTERRUPT_HARD)
          else if dm = APIC_DM_EXTINT then Inr (cpu_reset_interrupt m c CPU_INTERRUPT_HARD)
          else Inr m)"

definition apic_update_irq_with :: "raiser \<Rightarrow> machine \<Rightarrow> env \<Rightarrow> machine res" where
  "apic_update_irq_with set_irq m c =
    (if apic_spurious_vec (apic_at m c) AND APIC_SV_ENABLE = 0 then Inr m
     else if apic_irq_pending (apic_at m c) > 0 then Inr (cpu_interrupt m c CPU_INTERRUPT_HARD)
     else if apic_accept_pic_intr (apic_at m c) \<and> pic_get_output (mc_isa_pic m)
     then apic_deliver_pic_intr_with set_irq m c True
     else Inr m)"

text \<open>The registers that \<open>apic_set_irq\<close> changes before it signals the CPU.\<close>

definition raise_vector :: "machine \<Rightarrow> env \<Rightarrow> nat \<Rightarrow> nat \<Rightarrow> machine" where
  "raise_vector m c vector_num trigger_mode =
    upd_apic c (\<lambda>a. a\<lparr>apic_irr := apic_set_bit (apic_irr a) vector_num,
        apic_tmr := (if trigger_mode \<noteq> 0 then apic_set_bit (apic_tmr a) vector_num
                     else apic_reset_bit (apic_tmr a) vector_num)\<rparr>)
      (m\<lparr>mc_apic_irq_delivered := mc_apic_irq_delivered m +
          (if apic_get_bit (apic_irr (apic_at m c)) vector_num then 0 else 1)\<rparr>)"

fun apic_set_irq :: "nat \<Rightarrow> raiser" where
  "apic_set_irq 0 m c vector_num trigger_mode = Inl Stack_overflow"
| "apic_set_irq (Suc depth) m c vector_num trigger_mode =
    bind_res (apic_update_irq_with (apic_set_irq depth) (raise_vector m c vector_num trigger_mode) c) (\<lambda>m.
    bind_res (ski_handle_new_irq_set (mc_ski m) c (int vector_num)) (\<lambda>s.
      Inr (m\<lparr>mc_ski := s\<rparr>)))"

definition apic_reset_irq_delivered :: "machine \<Rightarrow> machine" where
  "apic_reset_irq_delivered m = m\<lparr>mc_apic_irq_delivered := 0\<rparr>"

definition apic_get_irq_delivered :: "machine \<Rightarrow> int" where
  "apic_get_irq_delivered m = mc_apic_irq_delivered m"

definition apic_local_deliver :: "nat \<Rightarrow> machine \<Rightarrow> env \<Rightarrow> nat \<Rightarrow> machine res" where
  "apic_local_deliver depth = apic_local_deliver_with (apic_set_irq depth)"

definition apic_deliver_pic_intr :: "nat \<Rightarrow> machine \<Rightarrow> env \<Rightarrow> bool \<Rightarrow> machine res" where
  "apic_deliver_pic_intr depth = apic_deliver_pic_intr_with (apic_set_irq depth)"

definition apic_update_irq :: "nat \<Rightarrow> machine \<Rightarrow> env \<Rightarrow> machine res" where
  "apic_update_irq depth = apic_update_irq_with (apic_set_irq depth)"

section \<open>Destinations and the bus\<close>

definition foreach_apic :: "bitmap \<Rightarrow> (machine \<Rightarrow> env \<Rightarrow> machine res) \<Rightarrow> machine \<Rightarrow> machine res" where
  "foreach_apic deliver_bitmask code m =
    fold_res (\<lambda>m i. if apic_get_bit deliver_bitmask i
                    then case local_apics m i of None \<Rightarrow> Inr m | Some c \<Rightarrow> code m c
                    else Inr m) m [0..<MAX_APIC_WORDS * 32]"

definition lowest_dest :: "bitmap \<Rightarrow> int" where
  "lowest_dest deliver_bitmask =
    (case find (\<lambda>i. deliver_bitmask ! i \<noteq> 0) [0..<MAX_APIC_WORDS] of
       None \<Rightarrow> -1
     | Some i \<Rightarrow> int i * 32 + ffs_bit (deliver_bitmask ! i))"

definition apic_bus_deliver :: "nat \<Rightarrow> machine \<Rightarrow> bitmap \<Rightarrow> nat \<Rightarrow> nat \<Rightarrow> nat \<Rightarrow> machine res" where
  "apic_bus_deliver depth m deliver_bitmask delivery_mode vector_num trigger_mode =
    (if delivery_mode = APIC_DM_LOWPRI
     then let d = lowest_dest deliver_bitmask
          in if d \<ge> 0
             then case local_apics m (nat d) of
                    None \<Rightarrow> Inr m
                  | Some c \<Rightarrow> apic_set_irq depth m c vector_num trigger_mode
             else Inr m
     else if delivery_mode = APIC_DM_SMI
     then foreach_apic deliver_bitmask (\<lambda>m c. Inr (cpu_interrupt m c CPU_INTERRUPT_SMI)) m
     else if delivery_mode = APIC_DM_NMI
     then foreach_apic deliver_bitmask (\<lambda>m c. Inr (cpu_interrupt m c CPU_INTERRUPT_NMI)) m
     else if delivery_mode = APIC_DM_INIT
     then foreach_apic deliver_bitmask (\<lambda>m c. Inr (cpu_interrupt m c CPU_INTERRUPT_INIT)) m
     else if delivery_mode = APIC_DM_FIXED \<or> delivery_mode = APIC_DM_EXTINT
     then foreach_apic deliver_bitmask (\<lambda>m c. apic_set_irq depth m c vector_num trigger_mode) m
     else Inr m)"

definition apic_find_dest :: "machine \<Rightarrow> 8 word \<Rightarrow> int" where
  "apic_find_dest m dest =
    (if (case local_apics m (unat dest) of None \<Rightarrow> False | Some c \<Rightarrow> apic_id (apic_at m c) = dest)
     then int (unat dest)
     else case find (\<lambda>i. case local_apics m i of None \<Rightarrow> True | Some c \<Rightarrow> apic_id (apic_at m c) = dest)
                 [0..<MAX_APICS] of
            None \<Rightarrow> -1
          | Some i \<Rightarrow> if local_apics m i = None then -1 else int i)"

definition logical_match :: "8 word \<Rightarrow> APICState \<Rightarrow> bool" where
  "logical_match dest a \<longleftrightarrow>
    (if apic_dest_mode a = 0xf then dest AND apic_log_dest a \<noteq> 0
     else if apic_dest_mode a = 0 then dest AND 0xf0 = apic_log_dest a AND 0xf0 \<and>
       dest AND apic_log_dest a AND 0x0f \<noteq> 0
     else False)"

definition ones_bitmap :: bitmap where
  "ones_bitmap = replicate 8 0xffffffff"

definition apic_get_delivery_bitmask :: "machine \<Rightarrow> 8 word \<Rightarrow> nat \<Rightarrow> bitmap" where
  "apic_get_delivery_bitmask m dest dest_mode =
    (if dest_mode = 0
     then if dest = 0xff then ones_bitmap
          else let idx = apic_find_dest m dest
               in if idx \<ge> 0 then apic_set_bit zero_bitmap (nat idx) else zero_bitmap
     else foldl (\<lambda>b i. if logical_match dest (apic_at m i) then apic_set_bit b i else b) zero_bitmap
            (takeWhile (\<lambda>i. local_apics m i \<noteq> None) [0..<MAX_APICS]))"

definition apic_deliver_irq :: "nat \<Rightarrow> machine \<Rightarrow> 8 word \<Rightarrow> nat \<Rightarrow> nat \<Rightarrow> nat \<Rightarrow> nat \<Rightarrow> machine res" where
  "apic_deliver_irq depth m dest dest_mode delivery_mode vector_num trigger_mode =
    apic_bus_deliver depth m (apic_get_delivery_bitmask m dest dest_mode) delivery_mode vector_num trigger_mode"

text \<open>The CPUID flag that is cleared with the controller is not part of the model.\<close>

definition cpu_set_apic_base :: "machine \<Rightarrow> env \<Rightarrow> 64 word \<Rightarrow> machine" where
  "cpu_set_apic_base m c val =
    (let m = upd_apic c (\<lambda>a. a\<lparr>apic_apicbase := (ucast val AND 0xfffff000) OR
               (apic_apicbase a AND (MSR_IA32_APICBASE_BSP OR MSR_IA32_APICBASE_ENABLE))\<rparr>) m
     in if val AND ucast MSR_IA32_APICBASE_ENABLE = 0
        then upd_apic c (\<lambda>a. a\<lparr>apic_apicbase := apic_apicbase a AND NOT MSR_IA32_APICBASE_ENABLE,
               apic_spurious_vec := apic_spurious_vec a AND NOT APIC_SV_ENABLE\<rparr>) m
        else m)"

definition cpu_get_apic_base :: "machine \<Rightarrow> env \<Rightarrow> 64 word" where
  "cpu_get_apic_base m c = ucast (apic_apicbase (apic_at m c))"

definition cpu_set_apic_tpr :: "nat \<Rightarrow> machine \<Rightarrow> env \<Rightarrow> 8 word \<Rightarrow> machine res" where
  "cpu_set_apic_tpr depth m c val =
    apic_update_irq depth (upd_apic c (\<lambda>a. a\<lparr>apic_tpr := push_bit 4 (val AND 0x0f)\<rparr>) m) c"

definition cpu_get_apic_tpr :: "machine \<Rightarrow> env \<Rightarrow> 8 word" where
  "cpu_get_apic_tpr m c = drop_bit 4 (apic_tpr (apic_at m c))"

definition apic_init_reset :: "machine \<Rightarrow> env \<Rightarrow> machine" where
  "apic_init_reset m c =
    upd_apic c (\<lambda>a. a\<lparr>apic_tpr := 0, apic_spurious_vec := 0xff, apic_log_dest := 0, apic_dest_mode := 0xf,
      apic_isr := zero_bitmap, apic_tmr := zero_bitmap, apic_irr := zero_bitmap,
      apic_lvt := replicate APIC_LVT_NB (push_bit 16 1), apic_esr := 0, apic_icr := [0, 0],
      apic_divide_conf := 0, apic_count_shift := 0, apic_initial_count := 0,
      apic_initial_count_load_time := 0, apic_next_time := 0, apic_wait_for_sipi := 1\<rparr>) m"

definition apic_startup :: "machine \<Rightarrow> env \<Rightarrow> nat \<Rightarrow> machine" where
  "apic_startup m c vector_num =
    cpu_interrupt (upd_apic c (\<lambda>a. a\<lparr>apic_sipi_vector := int vector_num\<rparr>) m) c CPU_INTERRUPT_SIPI"

text \<open>Of the CPU state that the start-up vector sets the model has the instruction pointer.\<close>

definition apic_sipi :: "machine \<Rightarrow> env \<Rightarrow> machine" where
  "apic_sipi m c =
    (let m = cpu_reset_interrupt m c CPU_INTERRUPT_SIPI
     in if apic_wait_for_sipi (apic_at m c) = 0 then m
        else upd_apic c (\<lambda>a. a\<lparr>apic_wait_for_sipi := 0\<rparr>) (upd_env c (\<lambda>e. e\<lparr>cpu_eip := 0\<rparr>) m))"

definition apic_reset :: "machine \<Rightarrow> env \<Rightarrow> machine" where
  "apic_reset m c =
    (let bsp = (cpu_index (cpu_of (mc_ski m) c) = 0);
         m = upd_apic c (\<lambda>a. a\<lparr>apic_apicbase := 0xfee00000 OR (if bsp then MSR_IA32_APICBASE_BSP else 0)
               OR MSR_IA32_APICBASE_ENABLE\<rparr>) m;
         m = apic_init_reset m c
     in if bsp then upd_apic c (\<lambda>a. a\<lparr>apic_lvt := (apic_lvt a)[APIC_LVT_LINT0 := 0x700]\<rparr>) m else m)"

definition apic_deliver :: "nat \<Rightarrow> machine \<Rightarrow> env \<Rightarrow> 8 word \<Rightarrow> nat \<Rightarrow> nat \<Rightarrow> nat \<Rightarrow> nat \<Rightarrow> machine res" where
  "apic_deliver depth m c dest dest_mode delivery_mode vector_num trigger_mode =
    (let icr0 = apic_icr (apic_at m c) ! 0;
         dest_shorthand = unat (drop_bit 18 icr0 AND 3);
         deliver_bitmask =
           (if dest_shorthand = 0 then apic_get_delivery_bitmask m dest dest_mode
            else if dest_shorthand = 1 then apic_set_bit zero_bitmap (apic_idx (apic_at m c))
            else if dest_shorthand = 2 then ones_bitmap
            else apic_reset_bit ones_bitmap (apic_idx (apic_at m c)));
         trig_mode = drop_bit 15 icr0 AND 1; level = drop_bit 14 icr0 AND 1
     in if delivery_mode = APIC_DM_INIT \<and> level = 0 \<and> trig_mode = 1
        then foreach_apic deliver_bitmask (\<lambda>m c. Inr (upd_apic c (\<lambda>a. a\<lparr>apic_arb_id := apic_id a\<rparr>) m)) m
        else if delivery_mode = APIC_DM_SIPI
        then foreach_apic deliver_bitmask (\<lambda>m c. Inr (apic_startup m c vector_num)) m
        else apic_bus_deliver depth m deliver_bitmask delivery_mode vector_num trigger_mode)"

section \<open>Acknowledging a vector\<close>

text \<open>The move of the vector from the request to the service register, common to both paths.\<close>

definition apic_ack :: "nat \<Rightarrow> machine \<Rightarrow> env \<Rightarrow> int \<Rightarrow> (machine \<times> int) res" where
  "apic_ack depth m c intno =
    (if intno = 0 then Inr (m, -1)
     else if intno < 0 then Inr (m, uint (apic_spurious_vec (apic_at m c) AND 0xff))
     else bind_res (apic_update_irq depth (upd_apic c (\<lambda>a. a\<lparr>
            apic_irr := apic_reset_bit (apic_irr a) (nat intno),
            apic_isr := apic_set_bit (apic_isr a) (nat intno)\<rparr>) m) c) (\<lambda>m. Inr (m, intno)))"

definition original_apic_get_interrupt :: "nat \<Rightarrow> machine \<Rightarrow> env \<Rightarrow> (machine \<times> int) res" where
  "original_apic_get_interrupt depth m c =
    (if apic_spurious_vec (apic_at m c) AND APIC_SV_ENABLE = 0 then Inr (m, -1)
     else apic_ack depth m c (apic_irq_pending (apic_at m c)))"

definition ski_apic_get_interrupt :: "nat \<Rightarrow> machine \<Rightarrow> env \<Rightarrow> (machine \<times> int) res" where
  "ski_apic_get_interrupt depth m c =
    (if apic_spurious_vec (apic_at m c) AND APIC_SV_ENABLE = 0 then Inr (m, -1)
     else bind_res (ski_apic_irq_pending m c) (apic_ack depth m c))"

section \<open>The timer\<close>

text \<open>\<open>int64\<close> is the value of an expression stored into an \<open>int64_t\<close>.\<close>

definition int64 :: "int \<Rightarrow> int" where
  "int64 v = sint (word_of_int v :: 64 word)"

definition set_timer :: "env \<Rightarrow> int option \<Rightarrow> machine \<Rightarrow> machine" where
  "set_timer c expiry m = m\<lparr>mc_apic_timers := (mc_apic_timers m)[c := expiry]\<rparr>"

definition apic_get_current_count :: "machine \<Rightarrow> env \<Rightarrow> 32 word" where
  "apic_get_current_count m c =
    (let a = apic_at m c;
         d = drop_bit (apic_count_shift a) (int64 (mc_vm_clock m - apic_initial_count_load_time a));
         ic = uint (apic_initial_count a)
     in if apic_lvt a ! APIC_LVT_TIMER AND APIC_LVT_TIMER_PERIODIC \<noteq> 0
        then word_of_int (ic - (d mod 2 ^ 64) mod (ic + 1))
        else if d \<ge> ic then 0 else word_of_int (ic - d))"

text \<open>The expiry that \<open>apic_timer_update\<close> programs, or \<open>None\<close> where it jumps to \<open>no_timer\<close>.\<close>

definition timer_expiry :: "APICState \<Rightarrow> int \<Rightarrow> int option" where
  "timer_expiry a current_time =
    (let d = drop_bit (apic_count_shift a) (int64 (current_time - apic_initial_count_load_time a));
         ic = uint (apic_initial_count a);
         expiry = (\<lambda>d. int64 (apic_initial_count_load_time a + int64 (push_bit (apic_count_shift a) d)))
     in if apic_lvt a ! APIC_LVT_TIMER AND APIC_LVT_MASKED \<noteq> 0 then None
        else if apic_lvt a ! APIC_LVT_TIMER AND APIC_LVT_TIMER_PERIODIC \<noteq> 0
        then if ic = 0 then None else Some (expiry (int64 (((d mod 2 ^ 64) div (ic + 1) + 1) * (ic + 1))))
        else if d \<ge> ic then None else Some (expiry (ic + 1)))"

definition apic_timer_update :: "machine \<Rightarrow> env \<Rightarrow> int \<Rightarrow> machine" where
  "apic_timer_update m c current_time =
    (case timer_expiry (apic_at m c) current_time of
       None \<Rightarrow> set_timer c None m
     | Some next_time \<Rightarrow>
         upd_apic c (\<lambda>a. a\<lparr>apic_next_time := next_time\<rparr>) (set_timer c (Some next_time) m))"

definition apic_timer :: "nat \<Rightarrow> machine \<Rightarrow> env \<Rightarrow> machine res" where
  "apic_timer depth m c =
    bind_res (apic_local_deliver depth m c APIC_LVT_TIMER) (\<lambda>m.
      Inr (apic_timer_update m c (apic_next_time (apic_at m c))))"

section \<open>Laws of the updates\<close>

lemma upd_env_fields [simp]:
  "length (m_cpus (upd_env c f m)) = length (m_cpus m)"
  "mc_isa_pic (upd_env c f m) = mc_isa_pic m" "mc_slave_pic (upd_env c f m) = mc_slave_pic m"
  "mc_ioapic (upd_env c f m) = mc_ioapic m" "mc_apic_timers (upd_env c f m) = mc_apic_timers m"
  "mc_apic_irq_delivered (upd_env c f m) = mc_apic_irq_delivered m" "mc_vm_clock (upd_env c f m) = mc_vm_clock m"
  by (simp_all add: upd_env_def m_cpus_def)

lemma upd_apic_fields [simp]:
  "length (m_cpus (upd_apic c f m)) = length (m_cpus m)"
  "mc_isa_pic (upd_apic c f m) = mc_isa_pic m" "mc_slave_pic (upd_apic c f m) = mc_slave_pic m"
  "mc_ioapic (upd_apic c f m) = mc_ioapic m" "mc_apic_timers (upd_apic c f m) = mc_apic_timers m"
  "mc_apic_irq_delivered (upd_apic c f m) = mc_apic_irq_delivered m" "mc_vm_clock (upd_apic c f m) = mc_vm_clock m"
  by (simp_all add: upd_apic_def)

lemma cpu_interrupt_fields [simp]:
  "length (m_cpus (cpu_interrupt m c k)) = length (m_cpus m)"
  "mc_isa_pic (cpu_interrupt m c k) = mc_isa_pic m" "mc_slave_pic (cpu_interrupt m c k) = mc_slave_pic m"
  "mc_ioapic (cpu_interrupt m c k) = mc_ioapic m" "mc_apic_timers (cpu_interrupt m c k) = mc_apic_timers m"
  by (simp_all add: cpu_interrupt_def)

lemma cpu_reset_interrupt_fields [simp]:
  "length (m_cpus (cpu_reset_interrupt m c k)) = length (m_cpus m)"
  "mc_isa_pic (cpu_reset_interrupt m c k) = mc_isa_pic m" "mc_slave_pic (cpu_reset_interrupt m c k) = mc_slave_pic m"
  "mc_ioapic (cpu_reset_interrupt m c k) = mc_ioapic m" "mc_apic_timers (cpu_reset_interrupt m c k) = mc_apic_timers m"
  by (simp_all add: cpu_reset_interrupt_def)

lemma apic_at_upd_apic [simp]:
  "c < length (m_cpus m) \<Longrightarrow> apic_at (upd_apic c f m) d = (if d = c then f (apic_at m c) else apic_at m d)"
  by (simp add: apic_at_def upd_apic_def upd_env_def m_cpus_def)

lemma apic_at_upd_env:
  assumes "\<And>e. cpu_apic (f e) = cpu_apic e"
  shows "apic_at (upd_env c f m) d = apic_at m d"
proof (cases "c < length (cpus (mc_ski m))")
  case True
  then show ?thesis using assms by (simp add: apic_at_def upd_env_def)
next
  case False
  then show ?thesis by (simp add: apic_at_def upd_env_def upd_cpu_def cpu_of_def list_update_beyond)
qed

lemma apic_at_interrupt [simp]:
  "apic_at (cpu_interrupt m c k) d = apic_at m d" "apic_at (cpu_reset_interrupt m c k) d = apic_at m d"
  by (simp_all add: cpu_interrupt_def cpu_reset_interrupt_def apic_at_upd_env)

lemma apic_at_fields [simp]:
  "apic_at (m\<lparr>mc_apic_irq_delivered := n\<rparr>) d = apic_at m d" "m_cpus (m\<lparr>mc_apic_irq_delivered := n\<rparr>) = m_cpus m"
  "apic_at (m\<lparr>mc_isa_pic := p\<rparr>) d = apic_at m d" "m_cpus (m\<lparr>mc_isa_pic := p\<rparr>) = m_cpus m"
  "apic_at (m\<lparr>mc_slave_pic := p\<rparr>) d = apic_at m d" "m_cpus (m\<lparr>mc_slave_pic := p\<rparr>) = m_cpus m"
  "apic_at (m\<lparr>mc_ioapic := x\<rparr>) d = apic_at m d" "m_cpus (m\<lparr>mc_ioapic := x\<rparr>) = m_cpus m"
  "apic_at (m\<lparr>mc_vm_clock := n\<rparr>) d = apic_at m d" "m_cpus (m\<lparr>mc_vm_clock := n\<rparr>) = m_cpus m"
  "apic_at (set_timer c t m) d = apic_at m d" "m_cpus (set_timer c t m) = m_cpus m"
  by (simp_all add: apic_at_def m_cpus_def set_timer_def)

lemma local_apics_cong: "length (m_cpus m') = length (m_cpus m) \<Longrightarrow> local_apics m' = local_apics m"
  by (simp add: local_apics_def fun_eq_iff)

section \<open>Priorities of vectors\<close>

lemma and_f0_int:
  assumes "0 \<le> x" "x < 256"
  shows "(x::int) AND 0xf0 = 16 * (x div 16)"
proof -
  have "(0xf0 :: int) = push_bit 4 (mask 4)" by (simp add: mask_eq_exp_minus_1 push_bit_eq_mult)
  then have "x AND 0xf0 = push_bit 4 (take_bit 4 (drop_bit 4 x))"
    by (simp only: bit_eq_iff bit_and_iff bit_push_bit_iff bit_mask_iff bit_take_bit_iff bit_drop_bit_eq comp_def) auto
  also have "\<dots> = 16 * (x div 16)"
    using assms by (simp add: push_bit_eq_mult take_bit_eq_mod drop_bit_eq_div)
  finally show ?thesis .
qed

lemma and_f0_mono: "0 \<le> (x::int) \<Longrightarrow> x \<le> y \<Longrightarrow> y < 256 \<Longrightarrow> x AND 0xf0 \<le> y AND 0xf0"
  by (simp add: and_f0_int zdiv_mono1)

definition apic_wf :: "APICState \<Rightarrow> bool" where
  "apic_wf a \<longleftrightarrow> bitmap_wf (apic_isr a) \<and> bitmap_wf (apic_irr a) \<and> bitmap_wf (apic_tmr a) \<and>
    length (apic_lvt a) = APIC_LVT_NB \<and> length (apic_icr a) = 2 \<and> apic_idx a < 256"

lemma highest_bounds:
  "bitmap_wf tab \<Longrightarrow> get_highest_priority_int tab < 256" "bitmap_wf tab \<Longrightarrow> -1 \<le> get_highest_priority_int tab"
  by (auto simp: get_highest_priority_int_eq bitmap_set_def Max_less_iff dest: order_less_imp_le)

lemma highest_zero [simp]: "get_highest_priority_int zero_bitmap = -1"
  by (simp add: get_highest_priority_int_eq)

lemma highest_set_bit:
  assumes "bitmap_wf tab" "w < 256"
  shows "get_highest_priority_int (apic_set_bit tab w) = max (get_highest_priority_int tab) (int w)"
  using assms by (auto simp: get_highest_priority_int_eq apic_bits.wf_set)

text \<open>A vector is pending for the CPU if it beats the priority of the task and of the service.\<close>

definition beats :: "APICState \<Rightarrow> int \<Rightarrow> bool" where
  "beats a v \<longleftrightarrow> 0 < v \<and> (apic_get_ppr a = 0 \<or> apic_get_ppr a AND 0xf0 < v AND 0xf0)"

lemma pending_pos:
  assumes "bitmap_wf (apic_irr a)"
  shows "0 < apic_irq_pending a \<longleftrightarrow> beats a (get_highest_priority_int (apic_irr a))"
  by (auto simp: apic_irq_pending_def beats_def Let_def)

lemma beats_mono: "beats a v \<Longrightarrow> v \<le> w \<Longrightarrow> w < 256 \<Longrightarrow> beats a w"
  using and_f0_mono[of v w] by (auto simp: beats_def)

definition with_request :: "APICState \<Rightarrow> nat \<Rightarrow> APICState" where
  "with_request a v = a\<lparr>apic_irr := apic_set_bit (apic_irr a) v\<rparr>"

lemma ppr_irr [simp]:
  "apic_get_ppr (a\<lparr>apic_irr := x\<rparr>) = apic_get_ppr a" "apic_get_ppr (a\<lparr>apic_tmr := y\<rparr>) = apic_get_ppr a"
  by (simp_all add: apic_get_ppr_def Let_def)

lemma beats_irr [simp]:
  "beats (a\<lparr>apic_irr := x\<rparr>) v = beats a v" "beats (a\<lparr>apic_tmr := x\<rparr>) v = beats a v"
  by (simp_all add: beats_def)

lemma pending_with_request:
  assumes "bitmap_wf (apic_irr a)" "w < 256"
  shows "0 < apic_irq_pending (with_request a w) \<longleftrightarrow>
    beats a (max (get_highest_priority_int (apic_irr a)) (int w))"
  using assms by (simp add: with_request_def pending_pos apic_bits.wf_set highest_set_bit)

lemma pending_mono:
  assumes "bitmap_wf (apic_irr a)" "w < 256" "0 < apic_irq_pending a"
  shows "0 < apic_irq_pending (with_request a w)"
  using assms beats_mono[of a "get_highest_priority_int (apic_irr a)" "max (get_highest_priority_int (apic_irr a)) (int w)"]
    highest_bounds(1)[of "apic_irr a"]
  by (simp add: pending_with_request pending_pos)

section \<open>The recursion of raising a vector\<close>

definition lint0_fixed :: "APICState \<Rightarrow> bool" where
  "lint0_fixed a \<longleftrightarrow> apic_lvt a ! APIC_LVT_LINT0 AND APIC_LVT_MASKED = 0 \<and>
    unat (drop_bit 8 (apic_lvt a ! APIC_LVT_LINT0) AND 7) = APIC_DM_FIXED"

definition lint0_vector :: "APICState \<Rightarrow> nat" where
  "lint0_vector a = unat (apic_lvt a ! APIC_LVT_LINT0 AND 0xff)"

definition lint0_trigger :: "APICState \<Rightarrow> nat" where
  "lint0_trigger a = (if apic_lvt a ! APIC_LVT_LINT0 AND APIC_LVT_LEVEL_TRIGGER \<noteq> 0
    then APIC_TRIGGER_LEVEL else APIC_TRIGGER_EDGE)"

definition apic_enabled :: "APICState \<Rightarrow> bool" where
  "apic_enabled a \<longleftrightarrow> apic_spurious_vec a AND APIC_SV_ENABLE \<noteq> 0"

text \<open>What an update does if it does not raise another vector.\<close>

definition update_flat :: "machine \<Rightarrow> env \<Rightarrow> machine" where
  "update_flat m c =
    (case apic_update_irq_with (\<lambda>m c v t. Inr m) m c of Inr m' \<Rightarrow> m' | Inl e \<Rightarrow> m)"

definition update_recurses :: "machine \<Rightarrow> env \<Rightarrow> bool" where
  "update_recurses m c \<longleftrightarrow> apic_enabled (apic_at m c) \<and> \<not> 0 < apic_irq_pending (apic_at m c) \<and>
    lint0_fixed (apic_at m c) \<and> pic_get_output (mc_isa_pic m)"

lemma update_irq_eq:
  "apic_update_irq_with f m c =
    (if update_recurses m c then f m c (lint0_vector (apic_at m c)) (lint0_trigger (apic_at m c))
     else Inr (update_flat m c))"
  by (auto simp: apic_update_irq_with_def update_recurses_def update_flat_def apic_enabled_def
      lint0_fixed_def lint0_vector_def lint0_trigger_def apic_accept_pic_intr_def
      apic_deliver_pic_intr_with_def apic_local_deliver_with_def Let_def)

lemma word32_and_ff: "unat ((w :: 32 word) AND 0xff) < 256"
proof -
  have "w AND 0xff \<le> 0xff" by (simp add: word_and_le1 word_and_le2)
  then have "unat (w AND 0xff) \<le> unat (0xff :: 32 word)" by (simp only: word_le_nat_alt)
  then show ?thesis by simp
qed

lemma lint0_vector_less [simp]: "lint0_vector a < 256"
  by (simp add: lint0_vector_def word32_and_ff)

lemma lint0_irr [simp]:
  "lint0_vector (a\<lparr>apic_irr := x\<rparr>) = lint0_vector a" "lint0_vector (a\<lparr>apic_tmr := y\<rparr>) = lint0_vector a"
  "lint0_fixed (a\<lparr>apic_irr := x\<rparr>) = lint0_fixed a" "lint0_fixed (a\<lparr>apic_tmr := y\<rparr>) = lint0_fixed a"
  "apic_enabled (a\<lparr>apic_irr := x\<rparr>) = apic_enabled a" "apic_enabled (a\<lparr>apic_tmr := y\<rparr>) = apic_enabled a"
  by (simp_all add: lint0_vector_def lint0_fixed_def apic_enabled_def)

lemma raise_vector_fields [simp]:
  "length (m_cpus (raise_vector m c v t)) = length (m_cpus m)"
  "mc_isa_pic (raise_vector m c v t) = mc_isa_pic m" "mc_slave_pic (raise_vector m c v t) = mc_slave_pic m"
  "mc_ioapic (raise_vector m c v t) = mc_ioapic m" "mc_apic_timers (raise_vector m c v t) = mc_apic_timers m"
  by (simp_all add: raise_vector_def)

lemma apic_at_raise [simp]:
  "c < length (m_cpus m) \<Longrightarrow> apic_at (raise_vector m c v t) d =
    (if d = c then (apic_at m c)\<lparr>apic_irr := apic_set_bit (apic_irr (apic_at m c)) v,
        apic_tmr := (if t \<noteq> 0 then apic_set_bit (apic_tmr (apic_at m c)) v
                     else apic_reset_bit (apic_tmr (apic_at m c)) v)\<rparr>
     else apic_at m d)"
  by (simp add: raise_vector_def)

lemma pending_tmr [simp]:
  "apic_irq_pending (a\<lparr>apic_tmr := x\<rparr>) = apic_irq_pending a"
  "apic_irq_pending (a\<lparr>apic_tmr := x, apic_irr := y\<rparr>) = apic_irq_pending (a\<lparr>apic_irr := y\<rparr>)"
  by (simp_all add: apic_irq_pending_def Let_def)

text \<open>
  The recursion has no end if the local interrupt line 0 is an unmasked fixed vector, the
  8259 asserts its output, and neither the raised vector nor that of the line can interrupt
  the CPU.
\<close>

definition raise_diverges :: "machine \<Rightarrow> env \<Rightarrow> nat \<Rightarrow> bool" where
  "raise_diverges m c v \<longleftrightarrow>
    (let a = apic_at m c
     in apic_enabled a \<and> lint0_fixed a \<and> pic_get_output (mc_isa_pic m) \<and>
        apic_irq_pending (with_request (with_request a v) (lint0_vector a)) \<le> 0)"

lemma set_bit_idem [simp]: "apic_set_bit (apic_set_bit tab v) v = apic_set_bit tab v"
  by (cases "v div 32 < length tab") (simp_all add: apic_set_bit_eq list_update_beyond)

lemma raise_diverges_step:
  assumes "c < length (m_cpus m)" "apic_wf (apic_at m c)" "v < 256" "raise_diverges m c v"
  shows "update_recurses (raise_vector m c v t) c \<and>
    raise_diverges (raise_vector m c v t) c (lint0_vector (apic_at m c))"
proof -
  let ?a = "apic_at m c"
  have "bitmap_wf (apic_irr (with_request ?a v))"
    using assms(2) by (simp add: apic_wf_def with_request_def apic_bits.wf_set)
  then have "\<not> 0 < apic_irq_pending (with_request ?a v)"
    using pending_mono[of "with_request ?a v" "lint0_vector ?a"] assms(4) by (auto simp: raise_diverges_def Let_def)
  then show ?thesis using assms(1,4)
    by (simp add: update_recurses_def raise_diverges_def with_request_def Let_def)
qed

lemma set_irq_diverges:
  assumes "c < length (m_cpus m)" "apic_wf (apic_at m c)" "v < 256" "raise_diverges m c v"
  shows "apic_set_irq depth m c v t = Inl Stack_overflow"
  using assms
proof (induction depth arbitrary: m v t)
  case (Suc depth)
  let ?m = "raise_vector m c v t"
  have "apic_wf (apic_at ?m c)" using Suc.prems by (simp add: apic_wf_def apic_bits.wf_set apic_bits.wf_reset)
  then have "apic_set_irq depth ?m c (lint0_vector (apic_at ?m c)) t' = Inl Stack_overflow" for t'
    using Suc.IH[of ?m "lint0_vector (apic_at m c)" t'] Suc.prems raise_diverges_step[OF Suc.prems] by simp
  then show ?case using raise_diverges_step[OF Suc.prems] by (simp add: update_irq_eq)
qed simp

section \<open>The controllers and the thread table\<close>

text \<open>
  A well-formed machine: the thread table and the interrupt stacks agree, and every register
  array of the local controllers has its length.
\<close>

definition machine_ok :: "machine \<Rightarrow> bool" where
  "machine_ok m \<longleftrightarrow> int_inv (mc_ski m) \<and> (\<forall>c<length (m_cpus m). apic_wf (apic_at m c)) \<and>
    length (mc_apic_timers m) = length (m_cpus m) \<and> length (ioapic_ioredtbl (mc_ioapic m)) = 24"

lemma machine_okD:
  assumes "machine_ok m"
  shows "int_inv (mc_ski m)" "c < length (m_cpus m) \<Longrightarrow> apic_wf (apic_at m c)"
    "length (mc_apic_timers m) = length (m_cpus m)" "length (ioapic_ioredtbl (mc_ioapic m)) = 24"
  using assms by (simp_all add: machine_ok_def)

lemma upd_cpu_keeps:
  assumes "\<And>e. cpu_index (f e) = cpu_index e" "\<And>e. ski_cpu (f e) = ski_cpu e"
  shows "cpu_index (cpu_of (upd_cpu c f s) d) = cpu_index (cpu_of s d)"
    "sc_of (upd_cpu c f s) d = sc_of s d"
    "map cpu_index (cpus (upd_cpu c f s)) = map cpu_index (cpus s)"
  using assms by (cases "c < length (cpus s)"; cases "d = c";
    simp add: upd_cpu_def cpu_of_def sc_of_def map_update list_update_beyond list_update_same_conv)+

lemma int_inv_upd_cpu [simp]:
  assumes "\<And>e. cpu_index (f e) = cpu_index e" "\<And>e. ski_cpu (f e) = ski_cpu e"
  shows "int_inv (upd_cpu c f s) = int_inv s"
  using assms
  by (simp add: int_inv_def threads_wf_def cpu_nos_def running_set_def upd_cpu_keeps del: set_map list.set_map)

lemma irq_set_returns:
  assumes "int_inv s"
  shows "\<exists>s'. ski_handle_new_irq_set s c v = Inr s'"
proof (cases "ski_active (cpu_of s c)")
  case True
  note wf = int_invD(1)[OF assms]
  obtain r where r: "ski_threads_find s 0 (cpu_index (cpu_of s c)) 1 v SKI_TC_STATE_NA = Inr r"
    by (simp add: threads_find_pick[OF wf])
  show ?thesis
  proof (cases r)
    case None
    then show ?thesis using True r by (simp add: ski_handle_new_irq_set_def threads_find_pick[OF wf])
  next
    case (Some i)
    note find = threads_find_Some[OF wf r[unfolded Some]]
    then have "0 < tc_count (tc_of s i)" using tc_matches_na[OF int_invD(3)[OF assms, of i]] by simp
    then show ?thesis using True r Some by (simp add: ski_handle_new_irq_set_def)
  qed
qed (simp add: ski_handle_new_irq_set_def)

lemma update_flat_cases: "update_flat m c = m \<or> (\<exists>k. update_flat m c = cpu_interrupt m c k)"
  by (auto simp: update_flat_def apic_update_irq_with_def apic_deliver_pic_intr_with_def
      apic_local_deliver_with_def Let_def)

lemma int_inv_upd_apic [simp]: "int_inv (mc_ski (upd_apic c f m)) = int_inv (mc_ski m)"
  by (simp add: upd_apic_def upd_env_def)

lemma int_inv_interrupt [simp]:
  "int_inv (mc_ski (cpu_interrupt m c k)) = int_inv (mc_ski m)"
  "int_inv (mc_ski (cpu_reset_interrupt m c k)) = int_inv (mc_ski m)"
  by (simp_all add: cpu_interrupt_def cpu_reset_interrupt_def upd_env_def)

lemma int_inv_raise [simp]: "int_inv (mc_ski (raise_vector m c v t)) = int_inv (mc_ski m)"
  by (simp add: raise_vector_def)

lemma int_inv_update_flat [simp]: "int_inv (mc_ski (update_flat m c)) = int_inv (mc_ski m)"
  using update_flat_cases[of m c] by auto

lemma update_flat_fields [simp]:
  "length (m_cpus (update_flat m c)) = length (m_cpus m)"
  "mc_isa_pic (update_flat m c) = mc_isa_pic m" "mc_slave_pic (update_flat m c) = mc_slave_pic m"
  "mc_ioapic (update_flat m c) = mc_ioapic m" "mc_apic_timers (update_flat m c) = mc_apic_timers m"
  "apic_at (update_flat m c) d = apic_at m d"
  using update_flat_cases[of m c] by auto

lemma set_irq_flat:
  assumes "int_inv (mc_ski m)" "c < length (m_cpus m)" "\<not> update_recurses (raise_vector m c v t) c"
  shows "\<exists>m'. int_inv (mc_ski m') \<and> (\<forall>depth. apic_set_irq (Suc depth) m c v t = Inr m')"
proof -
  let ?m = "update_flat (raise_vector m c v t) c"
  have inv: "int_inv (mc_ski ?m)" using assms(1) by simp
  then obtain s' where s': "ski_handle_new_irq_set (mc_ski ?m) c (int v) = Inr s'" using irq_set_returns by blast
  have "length (m_cpus ?m) = length (m_cpus m)" by simp
  then have "int_inv s'" using int_inv_irq[OF inv _ s'] assms(2) by (simp add: m_cpus_def)
  then show ?thesis using s' assms(3) by (intro exI[of _ "?m\<lparr>mc_ski := s'\<rparr>"]) (simp add: update_irq_eq)
qed

lemma set_irq_twice:
  assumes ok: "machine_ok m" and c: "c < length (m_cpus m)" and v: "v < 256" and nd: "\<not> raise_diverges m c v"
    and rec: "update_recurses (raise_vector m c v t) c"
  shows "\<not> update_recurses (raise_vector (raise_vector m c v t) c (lint0_vector (apic_at m c)) t') c"
proof -
  have "0 < apic_irq_pending (with_request (with_request (apic_at m c) v) (lint0_vector (apic_at m c)))"
    using nd rec c by (simp add: raise_diverges_def update_recurses_def Let_def)
  then show ?thesis using c by (simp add: update_recurses_def with_request_def)
qed

lemma set_irq_returns:
  assumes "machine_ok m" "c < length (m_cpus m)" "v < 256" and nd: "\<not> raise_diverges m c v"
  shows "\<exists>m'. \<forall>depth\<ge>2. apic_set_irq depth m c v t = Inr m'"
proof -
  let ?m = "raise_vector m c v t" and ?a = "apic_at m c"
  have inv: "int_inv (mc_ski ?m)" using machine_okD(1)[OF assms(1)] by simp
  have suc: "\<exists>d. depth = Suc (Suc d)" if "2 \<le> depth" for depth using that by (metis Suc_le_D numeral_2_eq_2 Suc_le_mono)
  show ?thesis
  proof (cases "update_recurses ?m c")
    case True
    let ?w = "lint0_vector ?a" and ?t = "lint0_trigger (apic_at ?m c)"
    obtain m1 where m1: "int_inv (mc_ski m1)" "\<forall>depth. apic_set_irq (Suc depth) ?m c ?w ?t = Inr m1"
      using set_irq_flat[OF inv _ set_irq_twice[OF assms True]] assms(2) by auto
    then obtain s' where "ski_handle_new_irq_set (mc_ski m1) c (int v) = Inr s'" using irq_set_returns by blast
    then have "apic_set_irq (Suc (Suc d)) m c v t = Inr (m1\<lparr>mc_ski := s'\<rparr>)" for d
      using True m1(2)[rule_format, of d] assms(2) apic_set_irq.simps(2)[of "Suc d" m c v t]
      by (simp add: update_irq_eq del: apic_set_irq.simps)
    then show ?thesis using suc by (metis (full_types))
  next
    case no: False
    then obtain m' where "apic_set_irq (Suc depth) m c v t = Inr m'" for depth
      using set_irq_flat[of m c v t] machine_okD(1)[OF assms(1)] assms(2) by blast
    then show ?thesis using suc by (metis (full_types))
  qed
qed

text \<open>
  C12: raising a vector returns, or never does.  In a well-formed machine the mutual recursion
  of \<open>apic_set_irq\<close> and \<open>apic_update_irq\<close> ends within two calls and no assertion of the
  scheduler fails, whatever stack is left beyond that.  The exception is the configuration
  in which local line 0 is an unmasked fixed vector, the 8259 asserts its output and neither
  vector can interrupt the CPU: then the recursion exhausts every stack.
\<close>

theorem set_irq_terminates:
  assumes "machine_ok m" and "c < length (m_cpus m)" and "v < 256"
  shows "if raise_diverges m c v
    then \<forall>depth. apic_set_irq depth m c v t = Inl Stack_overflow
    else \<exists>m'. \<forall>depth\<ge>2. apic_set_irq depth m c v t = Inr m'"
  using set_irq_diverges[of c m v] set_irq_returns[OF assms] assms machine_okD(2)[OF assms(1,2)] by simp

definition sample_machine :: machine where
  "sample_machine = \<lparr>mc_ski = sample_current, mc_isa_pic = sample_pic, mc_slave_pic = sample_pic\<lparr>pic_master := False\<rparr>,
     mc_ioapic = \<lparr>ioapic_id = 0, ioapic_ioregsel = 0, ioapic_irr = 0, ioapic_ioredtbl = replicate 24 0x10000\<rparr>,
     mc_apic_irq_delivered = 0, mc_apic_timers = replicate (length (cpus sample_current)) None, mc_vm_clock = 0\<rparr>"

definition looping_machine :: machine where
  "looping_machine = upd_apic 0 (\<lambda>a. a\<lparr>apic_tpr := 0xff, apic_lvt := (apic_lvt a)[APIC_LVT_LINT0 := 0x10]\<rparr>) sample_machine"

lemma sample_machine_cpus [simp]: "length (m_cpus sample_machine) = 2"
  by (simp add: sample_machine_def m_cpus_def)

lemma apic_at_sample [simp]: "c < 2 \<Longrightarrow> apic_at sample_machine c = blank_apic c"
  by (auto simp: apic_at_def sample_machine_def blank_cpu_def less_2_cases_iff)

lemma sample_machine_ok: "machine_ok sample_machine" "machine_ok looping_machine"
proof -
  have "apic_wf (blank_apic c)" if "c < 2" for c using that by (simp add: apic_wf_def blank_apic_def)
  then show ok: "machine_ok sample_machine"
    using sample_inv by (simp add: machine_ok_def) (simp add: sample_machine_def m_cpus_def)
  then show "machine_ok looping_machine"
    by (auto simp: machine_ok_def looping_machine_def apic_wf_def)
qed

theorem set_irq_terminates_witness:
  "(\<exists>m'. \<forall>depth\<ge>2. apic_set_irq depth sample_machine 0 33 0 = Inr m') \<and>
    (\<forall>depth. apic_set_irq depth looping_machine 0 33 0 = Inl Stack_overflow)"
proof
  have "\<not> raise_diverges sample_machine 0 33"
    by (simp add: raise_diverges_def lint0_fixed_def blank_apic_def)
  then show "\<exists>m'. \<forall>depth\<ge>2. apic_set_irq depth sample_machine 0 33 0 = Inr m'"
    using set_irq_terminates[OF sample_machine_ok(1), of 0 33 0] by simp
next
  have "pic_get_output (mc_isa_pic looping_machine)"
    by (simp add: looping_machine_def sample_machine_def pic_get_output_def pic_get_irq_def get_priority_def
        get_priority_from.simps sample_pic_def and7_nat Let_def)
  moreover have "apic_at looping_machine 0 = (blank_apic 0)\<lparr>apic_tpr := 0xff, apic_lvt := (replicate 6 0x10000)[3 := 0x10]\<rparr>"
    by (simp add: looping_machine_def blank_apic_def)
  ultimately have "raise_diverges looping_machine 0 33"
    by (simp add: raise_diverges_def lint0_fixed_def lint0_vector_def apic_enabled_def with_request_def
        apic_irq_pending_def apic_get_ppr_def blank_apic_def highest_set_bit apic_bits.wf_set Let_def)
  then show "\<forall>depth. apic_set_irq depth looping_machine 0 33 0 = Inl Stack_overflow"
    using set_irq_terminates[OF sample_machine_ok(2), of 0 33 0] by (simp add: looping_machine_def)
qed

section \<open>What raising a vector changes\<close>

text \<open>
  Of the machine only the request and trigger registers of the CPU, its interrupt flags and
  the thread table change.
\<close>

definition apic_rest :: "APICState \<Rightarrow> APICState" where
  "apic_rest a = a\<lparr>apic_irr := [], apic_tmr := []\<rparr>"

lemma apic_rest_simps [simp]:
  "apic_rest (a\<lparr>apic_irr := x\<rparr>) = apic_rest a" "apic_rest (a\<lparr>apic_tmr := x\<rparr>) = apic_rest a"
  by (simp_all add: apic_rest_def)

definition raise_frame :: "env \<Rightarrow> machine \<Rightarrow> machine \<Rightarrow> bool" where
  "raise_frame c m m' \<longleftrightarrow> length (m_cpus m') = length (m_cpus m) \<and> mc_isa_pic m' = mc_isa_pic m \<and>
    mc_slave_pic m' = mc_slave_pic m \<and> mc_ioapic m' = mc_ioapic m \<and> mc_apic_timers m' = mc_apic_timers m \<and>
    (\<forall>d. d \<noteq> c \<longrightarrow> apic_at m' d = apic_at m d) \<and>
    apic_rest (apic_at m' c) = apic_rest (apic_at m c)"

lemma raise_frame_refl: "raise_frame c m m"
  by (simp add: raise_frame_def)

lemma raise_frame_trans:
  assumes "raise_frame c m m'" "raise_frame c m' m''"
  shows "raise_frame c m m''"
  using assms by (simp add: raise_frame_def)

lemma raise_frame_raise: "c < length (m_cpus m) \<Longrightarrow> raise_frame c m (update_flat (raise_vector m c v t) c)"
  "c < length (m_cpus m) \<Longrightarrow> raise_frame c m (raise_vector m c v t)"
  by (simp_all add: raise_frame_def)

lemma raise_frame_irq_set:
  assumes "ski_handle_new_irq_set (mc_ski m) c v = Inr s'"
  shows "raise_frame d m (m\<lparr>mc_ski := s'\<rparr>)"
proof -
  have "apic_at (m\<lparr>mc_ski := s'\<rparr>) = apic_at m" "m_cpus (m\<lparr>mc_ski := s'\<rparr>) = m_cpus m"
    using irq_set_cpus[OF assms] by (simp_all add: apic_at_def m_cpus_def cpu_of_def fun_eq_iff)
  then show ?thesis using raise_frame_refl[of d m] by (simp add: raise_frame_def)
qed

lemma machine_ok_frame:
  assumes "machine_ok m" "raise_frame c m m'" "int_inv (mc_ski m')" "apic_wf (apic_at m' c)"
  shows "machine_ok m'"
  using assms by (auto simp: machine_ok_def raise_frame_def)

lemma set_irq_outcome:
  assumes "machine_ok m" "c < length (m_cpus m)" "v < 256" "apic_set_irq depth m c v t = Inr m'"
  shows "machine_ok m' \<and> raise_frame c m m' \<and>
    insert v (bitmap_set (apic_irr (apic_at m c))) \<subseteq> bitmap_set (apic_irr (apic_at m' c)) \<and>
    bitmap_set (apic_irr (apic_at m' c)) \<subseteq>
      insert v (bitmap_set (apic_irr (apic_at m c)) \<union>
        (if pic_get_output (mc_isa_pic m) then {lint0_vector (apic_at m c)} else {}))"
  using assms
proof (induction depth arbitrary: m v t m')
  case (Suc depth)
  let ?m = "raise_vector m c v t"
  have wf: "apic_wf (apic_at m c)" using Suc.prems by (simp add: machine_okD)
  have wf1: "apic_wf (apic_at ?m c)"
    using wf Suc.prems(2) by (simp add: apic_wf_def apic_bits.wf_set apic_bits.wf_reset)
  have ok1: "machine_ok ?m"
    using machine_ok_frame[OF Suc.prems(1) raise_frame_raise(2)[OF Suc.prems(2)] _ wf1] machine_okD(1)[OF Suc.prems(1)] by simp
  have irr1: "bitmap_set (apic_irr (apic_at ?m c)) = insert v (bitmap_set (apic_irr (apic_at m c)))"
    using Suc.prems(2,3) wf by (simp add: apic_wf_def)
  from Suc.prems(4) obtain m1 s' where m1: "apic_update_irq_with (apic_set_irq depth) ?m c = Inr m1"
    "ski_handle_new_irq_set (mc_ski m1) c (int v) = Inr s'" "m' = m1\<lparr>mc_ski := s'\<rparr>"
    by (auto simp: bind_res_eq_Inr)
  have step: "machine_ok m1 \<and> raise_frame c m m1 \<and>
    insert v (bitmap_set (apic_irr (apic_at m c))) \<subseteq> bitmap_set (apic_irr (apic_at m1 c)) \<and>
    bitmap_set (apic_irr (apic_at m1 c)) \<subseteq>
      insert v (bitmap_set (apic_irr (apic_at m c)) \<union>
        (if pic_get_output (mc_isa_pic m) then {lint0_vector (apic_at m c)} else {}))"
  proof (cases "update_recurses ?m c")
    case True
    then have "apic_set_irq depth ?m c (lint0_vector (apic_at ?m c)) (lint0_trigger (apic_at ?m c)) = Inr m1"
      using m1(1) by (simp add: update_irq_eq)
    from Suc.IH[OF ok1 _ _ this] raise_frame_raise(2)[OF Suc.prems(2)] irr1 Suc.prems(2) show ?thesis
      using True by (auto simp: update_recurses_def intro: raise_frame_trans)
  next
    case False
    then have m1': "m1 = update_flat ?m c" using m1(1) by (simp add: update_irq_eq)
    then have "machine_ok m1"
      using machine_ok_frame[OF Suc.prems(1) raise_frame_raise(1)[OF Suc.prems(2)]] wf1 machine_okD(1)[OF Suc.prems(1)] by simp
    then show ?thesis using m1' raise_frame_raise(1)[OF Suc.prems(2)] irr1 by auto
  qed
  have fr: "raise_frame c m1 m'" using raise_frame_irq_set[OF m1(2)] m1(3) by simp
  have apic: "apic_at m' = apic_at m1"
    using irq_set_cpus[OF m1(2)] m1(3) by (simp add: apic_at_def cpu_of_def fun_eq_iff)
  have len: "length (m_cpus m1) = length (m_cpus m)" using step by (simp add: raise_frame_def)
  have "machine_ok m'"
    using machine_ok_frame[of m1 c m'] step fr apic len m1 int_inv_irq[OF machine_okD(1)] Suc.prems(2)
    by (auto simp: machine_okD m_cpus_def)
  then show ?case using step fr apic raise_frame_trans by auto
qed simp

end
