(* ===== verification/Ski_Irq.thy ===== *)
theory Ski_Irq
  imports Ski_Apic
begin

text \<open>
  The interrupt lines of the machine: the output and the registers of the 8259 controllers
  (\<open>vmm/hw/i8259.c\<close>), the routing of their output to the local controllers and of the
  acknowledge cycle (\<open>vmm/hw/pc.c\<close>), the I/O controller (\<open>vmm/hw/ioapic.c\<close>) and the
  memory-mapped registers of the local controllers (\<open>vmm/hw/apic.c\<close>).  The flag that
  selects a controller is true for the master.
\<close>

section \<open>The 8259 controllers\<close>

definition pic_of :: "machine \<Rightarrow> bool \<Rightarrow> PicState" where
  "pic_of m master = (if master then mc_isa_pic m else mc_slave_pic m)"

definition upd_pic :: "bool \<Rightarrow> (PicState \<Rightarrow> PicState) \<Rightarrow> machine \<Rightarrow> machine" where
  "upd_pic master f m =
    (if master then m\<lparr>mc_isa_pic := f (mc_isa_pic m)\<rparr> else m\<lparr>mc_slave_pic := f (mc_slave_pic m)\<rparr>)"

definition pic_irq_request :: "nat \<Rightarrow> machine \<Rightarrow> bool \<Rightarrow> machine res" where
  "pic_irq_request depth m level =
    fold_res (\<lambda>m c. if apic_accept_pic_intr (apic_at m c) then apic_deliver_pic_intr depth m c level else Inr m)
      m [0..<length (m_cpus m)]"

text \<open>The registers that a change of an input line sets.\<close>

definition pic_line :: "PicState \<Rightarrow> nat \<Rightarrow> bool \<Rightarrow> PicState" where
  "pic_line s irq level =
    (let msk = push_bit irq 1
     in if pic_elcr s AND msk \<noteq> 0
        then if level then s\<lparr>pic_irr := pic_irr s OR msk, pic_last_irr := pic_last_irr s OR msk\<rparr>
             else s\<lparr>pic_irr := pic_irr s AND NOT msk, pic_last_irr := pic_last_irr s AND NOT msk\<rparr>
        else if level
        then s\<lparr>pic_irr := (if pic_last_irr s AND msk = 0 then pic_irr s OR msk else pic_irr s),
               pic_last_irr := pic_last_irr s OR msk\<rparr>
        else s\<lparr>pic_last_irr := pic_last_irr s AND NOT msk\<rparr>)"

text \<open>The output of the slave is line 2 of the master.\<close>

definition pic_update_irq :: "nat \<Rightarrow> machine \<Rightarrow> bool \<Rightarrow> machine res" where
  "pic_update_irq depth m master =
    (let level = pic_get_irq (pic_of m master) \<ge> 0;
         m = (if master then m else upd_pic True (\<lambda>s. pic_line s 2 level) m)
     in pic_irq_request depth m (pic_get_irq (mc_isa_pic m) \<ge> 0))"

definition pic_set_irq :: "nat \<Rightarrow> machine \<Rightarrow> bool \<Rightarrow> nat \<Rightarrow> bool \<Rightarrow> machine res" where
  "pic_set_irq depth m master irq level =
    pic_update_irq depth (upd_pic master (\<lambda>s. pic_line s irq level) m) master"

definition pic_ack :: "PicState \<Rightarrow> nat \<Rightarrow> PicState" where
  "pic_ack s irq =
    (let s = (if pic_auto_eoi s \<noteq> 0
              then if pic_rotate_on_auto_eoi s \<noteq> 0 then s\<lparr>pic_priority_add := of_nat (irq + 1) AND 7\<rparr> else s
              else s\<lparr>pic_isr := pic_isr s OR push_bit irq 1\<rparr>)
     in if pic_elcr s AND push_bit irq 1 = 0 then s\<lparr>pic_irr := pic_irr s AND NOT (push_bit irq 1)\<rparr> else s)"

definition pic_intack :: "nat \<Rightarrow> machine \<Rightarrow> bool \<Rightarrow> nat \<Rightarrow> machine res" where
  "pic_intack depth m master irq = pic_update_irq depth (upd_pic master (\<lambda>s. pic_ack s irq) m) master"

definition pic_read_irq :: "nat \<Rightarrow> machine \<Rightarrow> (machine \<times> int) res" where
  "pic_read_irq depth m =
    (let irq = pic_get_irq (mc_isa_pic m)
     in if irq \<ge> 0
        then bind_res
          (if irq = 2
           then let irq2 = pic_get_irq (mc_slave_pic m)
                in bind_res (if irq2 \<ge> 0 then pic_intack depth m False (nat irq2) else Inr m) (\<lambda>m.
                     Inr (m, uint (pic_irq_base (mc_slave_pic m)) + (if irq2 \<ge> 0 then irq2 else 7)))
           else Inr (m, uint (pic_irq_base (mc_isa_pic m)) + irq)) (\<lambda>(m, intno).
          bind_res (pic_intack depth m True (nat irq)) (\<lambda>m. Inr (m, intno)))
        else Inr (m, uint (pic_irq_base (mc_isa_pic m)) + 7))"

definition pic_cleared :: "PicState \<Rightarrow> PicState" where
  "pic_cleared s = s\<lparr>pic_last_irr := 0, pic_irr := 0, pic_imr := 0, pic_isr := 0, pic_priority_add := 0,
     pic_irq_base := 0, pic_read_reg_select := 0, pic_poll := 0, pic_special_mask := 0, pic_init_state := 0,
     pic_auto_eoi := 0, pic_rotate_on_auto_eoi := 0, pic_special_fully_nested_mode := 0, pic_init4 := 0,
     pic_single_mode := 0\<rparr>"

definition pic_init_reset :: "nat \<Rightarrow> machine \<Rightarrow> bool \<Rightarrow> machine res" where
  "pic_init_reset depth m master = pic_update_irq depth (upd_pic master pic_cleared m) master"

definition pic_reset :: "nat \<Rightarrow> machine \<Rightarrow> bool \<Rightarrow> machine res" where
  "pic_reset depth m master =
    bind_res (pic_init_reset depth m master) (\<lambda>m. Inr (upd_pic master (\<lambda>s. s\<lparr>pic_elcr := 0\<rparr>) m))"

text \<open>
  The operation control words of the command port.  The result is the new register state and
  whether the output is updated.
\<close>

definition pic_command :: "PicState \<Rightarrow> 32 word \<Rightarrow> PicState \<times> bool" where
  "pic_command s val =
    (if val AND 0x08 \<noteq> 0
     then let s = (if val AND 0x04 \<noteq> 0 then s\<lparr>pic_poll := 1\<rparr> else s);
              s = (if val AND 0x02 \<noteq> 0 then s\<lparr>pic_read_reg_select := ucast (val AND 1)\<rparr> else s);
              s = (if val AND 0x40 \<noteq> 0 then s\<lparr>pic_special_mask := ucast (drop_bit 5 val AND 1)\<rparr> else s)
          in (s, False)
     else let cmd = drop_bit 5 val; line = unat (val AND 7)
       in if cmd = 0 \<or> cmd = 4 then (s\<lparr>pic_rotate_on_auto_eoi := ucast (drop_bit 2 cmd)\<rparr>, False)
          else if cmd = 1 \<or> cmd = 5
          then let priority = get_priority s (pic_isr s)
               in if priority \<noteq> 8
                  then let irq = (priority + unat (pic_priority_add s)) AND 7;
                           s = s\<lparr>pic_isr := pic_isr s AND NOT (push_bit irq 1)\<rparr>
                       in (if cmd = 5 then s\<lparr>pic_priority_add := of_nat (irq + 1) AND 7\<rparr> else s, True)
                  else (s, False)
          else if cmd = 3 then (s\<lparr>pic_isr := pic_isr s AND NOT (push_bit line 1)\<rparr>, True)
          else if cmd = 6 then (s\<lparr>pic_priority_add := ucast ((val + 1) AND 7)\<rparr>, True)
          else if cmd = 7
          then (s\<lparr>pic_isr := pic_isr s AND NOT (push_bit line 1), pic_priority_add := of_nat (line + 1) AND 7\<rparr>, True)
          else (s, False))"

text \<open>The data port: the mask in normal mode, or the next initialisation word.\<close>

definition pic_data :: "PicState \<Rightarrow> 32 word \<Rightarrow> PicState \<times> bool" where
  "pic_data s val =
    (if pic_init_state s = 0 then (s\<lparr>pic_imr := ucast val\<rparr>, True)
     else if pic_init_state s = 1
     then (s\<lparr>pic_irq_base := ucast (val AND 0xf8),
             pic_init_state := (if pic_single_mode s \<noteq> 0 then if pic_init4 s \<noteq> 0 then 3 else 0 else 2)\<rparr>, False)
     else if pic_init_state s = 2 then (s\<lparr>pic_init_state := (if pic_init4 s \<noteq> 0 then 3 else 0)\<rparr>, False)
     else if pic_init_state s = 3
     then (s\<lparr>pic_special_fully_nested_mode := ucast (drop_bit 4 val AND 1),
             pic_auto_eoi := ucast (drop_bit 1 val AND 1), pic_init_state := 0\<rparr>, False)
     else (s, False))"

definition pic_ioport_write :: "nat \<Rightarrow> machine \<Rightarrow> bool \<Rightarrow> 32 word \<Rightarrow> 32 word \<Rightarrow> machine res" where
  "pic_ioport_write depth m master addr val =
    (if addr = 0 \<and> val AND 0x10 \<noteq> 0
     then bind_res (pic_init_reset depth m master) (\<lambda>m.
       let m = upd_pic master (\<lambda>s. s\<lparr>pic_init_state := 1, pic_init4 := ucast (val AND 1),
                 pic_single_mode := ucast (val AND 2)\<rparr>) m
       in if val AND 0x08 \<noteq> 0 then Inl Hw_error else Inr m)
     else let (s, update) = (if addr = 0 then pic_command (pic_of m master) val else pic_data (pic_of m master) val);
              m = upd_pic master (\<lambda>_. s) m
          in if update then pic_update_irq depth m master else Inr m)"

definition pic_ioport_read :: "nat \<Rightarrow> machine \<Rightarrow> bool \<Rightarrow> 32 word \<Rightarrow> (machine \<times> int) res" where
  "pic_ioport_read depth m master addr =
    (let s = pic_of m master
     in if pic_poll s \<noteq> 0
        then let ret = pic_get_irq s
             in bind_res (if ret \<ge> 0 then bind_res (pic_intack depth m master (nat ret)) (\<lambda>m. Inr (m, ret OR 0x80))
                          else Inr (m, 0)) (\<lambda>(m, ret).
                Inr (upd_pic master (\<lambda>s. s\<lparr>pic_poll := 0\<rparr>) m, ret))
        else if addr = 0
        then Inr (m, uint (if pic_read_reg_select s \<noteq> 0 then pic_isr s else pic_irr s))
        else Inr (m, uint (pic_imr s)))"

definition elcr_ioport_write :: "machine \<Rightarrow> bool \<Rightarrow> 8 word \<Rightarrow> machine" where
  "elcr_ioport_write m master val = upd_pic master (\<lambda>s. s\<lparr>pic_elcr := val AND pic_elcr_mask s\<rparr>) m"

definition elcr_ioport_read :: "machine \<Rightarrow> bool \<Rightarrow> 8 word" where
  "elcr_ioport_read m master = pic_elcr (pic_of m master)"

section \<open>The acknowledge cycle\<close>

definition cpu_get_pic_interrupt :: "nat \<Rightarrow> machine \<Rightarrow> env \<Rightarrow> (machine \<times> int) res" where
  "cpu_get_pic_interrupt depth m c =
    bind_res (if ski_active (cpu_of (mc_ski m) c) then ski_apic_get_interrupt depth m c
              else original_apic_get_interrupt depth m c) (\<lambda>(m, intno).
      if intno \<ge> 0 then Inr (m, intno)
      else if \<not> apic_accept_pic_intr (apic_at m c) then Inr (m, -1)
      else pic_read_irq depth m)"

section \<open>The I/O controller\<close>

abbreviation (input) IOAPIC_NUM_PINS :: nat where "IOAPIC_NUM_PINS \<equiv> 24"
abbreviation (input) IOAPIC_LVT_MASKED :: "64 word" where "IOAPIC_LVT_MASKED \<equiv> 0x10000"
abbreviation (input) IOAPIC_LVT_REMOTE_IRR :: "64 word" where "IOAPIC_LVT_REMOTE_IRR \<equiv> 0x4000"
abbreviation (input) IOAPIC_DM_EXTINT :: nat where "IOAPIC_DM_EXTINT \<equiv> 7"

definition upd_ioapic :: "(IOAPICState \<Rightarrow> IOAPICState) \<Rightarrow> machine \<Rightarrow> machine" where
  "upd_ioapic f m = m\<lparr>mc_ioapic := f (mc_ioapic m)\<rparr>"

definition redtbl_set :: "nat \<Rightarrow> 64 word \<Rightarrow> IOAPICState \<Rightarrow> IOAPICState" where
  "redtbl_set i entry s = s\<lparr>ioapic_ioredtbl := (ioapic_ioredtbl s)[i := entry]\<rparr>"

text \<open>The vector of an entry: in external mode the master 8259 supplies it.\<close>

definition pin_vector :: "nat \<Rightarrow> machine \<Rightarrow> 64 word \<Rightarrow> (machine \<times> nat) res" where
  "pin_vector depth m entry =
    (if unat (drop_bit 8 entry AND 7) = IOAPIC_DM_EXTINT
     then bind_res (pic_read_irq depth m) (\<lambda>(m, intno). Inr (m, nat (intno mod 256)))
     else Inr (m, unat (entry AND 0xff)))"

text \<open>One iteration of \<open>ioapic_service\<close>.\<close>

definition service_pin :: "nat \<Rightarrow> machine \<Rightarrow> nat \<Rightarrow> machine res" where
  "service_pin depth m i =
    (let msk = push_bit i 1; entry = ioapic_ioredtbl (mc_ioapic m) ! i
     in if ioapic_irr (mc_ioapic m) AND msk \<noteq> 0 \<and> entry AND IOAPIC_LVT_MASKED = 0
        then let trig_mode = unat (drop_bit 15 entry AND 1);
                 dest = ucast (drop_bit 56 entry);
                 dest_mode = unat (drop_bit 11 entry AND 1);
                 delivery_mode = unat (drop_bit 8 entry AND 7);
                 m = (if trig_mode = 0
                      then upd_ioapic (\<lambda>s. s\<lparr>ioapic_irr := ioapic_irr s AND NOT msk\<rparr>) m
                      else upd_ioapic (redtbl_set i (entry OR IOAPIC_LVT_REMOTE_IRR)) m)
             in bind_res (pin_vector depth m entry) (\<lambda>(m, vector).
                  apic_deliver_irq depth m dest dest_mode delivery_mode vector trig_mode)
        else Inr m)"

definition ioapic_service :: "nat \<Rightarrow> machine \<Rightarrow> machine res" where
  "ioapic_service depth m = fold_res (service_pin depth) m [0..<IOAPIC_NUM_PINS]"

definition ioapic_set_irq :: "nat \<Rightarrow> machine \<Rightarrow> nat \<Rightarrow> bool \<Rightarrow> machine res" where
  "ioapic_set_irq depth m vector level =
    (let vector = (if vector = 0 then 2 else vector)
     in if vector < IOAPIC_NUM_PINS
        then let msk = push_bit vector 1; entry = ioapic_ioredtbl (mc_ioapic m) ! vector;
                 level = (if entry AND push_bit 13 1 \<noteq> 0 then \<not> level else level)
             in if drop_bit 15 entry AND 1 = 1
                then if level
                     then ioapic_service depth (upd_ioapic (\<lambda>s. s\<lparr>ioapic_irr := ioapic_irr s OR msk\<rparr>) m)
                     else Inr (upd_ioapic (\<lambda>s. s\<lparr>ioapic_irr := ioapic_irr s AND NOT msk\<rparr>) m)
                else if level \<and> entry AND IOAPIC_LVT_MASKED = 0
                then ioapic_service depth (upd_ioapic (\<lambda>s. s\<lparr>ioapic_irr := ioapic_irr s OR msk\<rparr>) m)
                else Inr m
        else Inr m)"

text \<open>There is one I/O controller, and its loop over the pins reads each entry when it gets there.\<close>

definition eoi_pin :: "nat \<Rightarrow> int \<Rightarrow> machine \<Rightarrow> nat \<Rightarrow> machine res" where
  "eoi_pin depth vector m n =
    (let entry = ioapic_ioredtbl (mc_ioapic m) ! n
     in if entry AND IOAPIC_LVT_REMOTE_IRR \<noteq> 0 \<and> uint (entry AND 0xff) = vector
        then let m = upd_ioapic (redtbl_set n (entry AND NOT IOAPIC_LVT_REMOTE_IRR)) m
             in if entry AND IOAPIC_LVT_MASKED = 0 \<and> ioapic_irr (mc_ioapic m) AND push_bit n 1 \<noteq> 0
                then ioapic_service depth m else Inr m
        else Inr m)"

definition ioapic_eoi_broadcast :: "nat \<Rightarrow> machine \<Rightarrow> int \<Rightarrow> machine res" where
  "ioapic_eoi_broadcast depth m vector = fold_res (eoi_pin depth vector) m [0..<IOAPIC_NUM_PINS]"

definition ioapic_mem_readl :: "IOAPICState \<Rightarrow> nat \<Rightarrow> 32 word" where
  "ioapic_mem_readl s addr =
    (let sel = unat (ioapic_ioregsel s); index = drop_bit 1 (int sel - 16)
     in if addr AND 0xff = 0 then ucast (ioapic_ioregsel s)
        else if addr AND 0xff = 16
        then if sel = 0 then push_bit 24 (ucast (ioapic_id s))
             else if sel = 1 then 0x11 OR push_bit 16 23
             else if sel = 2 then 0
             else if index \<ge> 0 \<and> index < int IOAPIC_NUM_PINS
             then if sel AND 1 = 1 then ucast (drop_bit 32 (ioapic_ioredtbl s ! nat index))
                  else ucast (ioapic_ioredtbl s ! nat index)
             else 0
        else 0)"

definition ioapic_mem_writel :: "nat \<Rightarrow> machine \<Rightarrow> nat \<Rightarrow> 32 word \<Rightarrow> machine res" where
  "ioapic_mem_writel depth m addr val =
    (let s = mc_ioapic m; sel = unat (ioapic_ioregsel s); index = drop_bit 1 (int sel - 16)
     in if addr AND 0xff = 0 then Inr (upd_ioapic (\<lambda>s. s\<lparr>ioapic_ioregsel := ucast val\<rparr>) m)
        else if addr AND 0xff = 16
        then if sel = 0 then Inr (upd_ioapic (\<lambda>s. s\<lparr>ioapic_id := ucast (drop_bit 24 val AND 0xf)\<rparr>) m)
             else if sel = 1 \<or> sel = 2 then Inr m
             else if index \<ge> 0 \<and> index < int IOAPIC_NUM_PINS
             then let entry = ioapic_ioredtbl s ! nat index;
                      entry = (if sel AND 1 = 1 then (entry AND 0xffffffff) OR push_bit 32 (ucast val)
                               else (entry AND NOT 0xffffffff) OR ucast val)
                  in ioapic_service depth (upd_ioapic (redtbl_set (nat index) entry) m)
             else Inr m
        else Inr m)"

definition ioapic_reset :: "machine \<Rightarrow> machine" where
  "ioapic_reset m = upd_ioapic (\<lambda>s. s\<lparr>ioapic_id := 0, ioapic_ioregsel := 0, ioapic_irr := 0,
     ioapic_ioredtbl := replicate IOAPIC_NUM_PINS (push_bit 16 1)\<rparr>) m"

definition ioapic_post_load :: "machine \<Rightarrow> nat \<Rightarrow> machine" where
  "ioapic_post_load m version_id =
    (if version_id = 1 then upd_ioapic (\<lambda>s. s\<lparr>ioapic_irr := 0\<rparr>) m else m)"

definition gsi_handler :: "nat \<Rightarrow> machine \<Rightarrow> nat \<Rightarrow> bool \<Rightarrow> machine res" where
  "gsi_handler depth m n level =
    bind_res (if n < 16 then pic_set_irq depth m (n < 8) (n AND 7) level else Inr m) (\<lambda>m.
      ioapic_set_irq depth m n level)"

section \<open>The memory-mapped registers of a local controller\<close>

definition apic_eoi :: "nat \<Rightarrow> machine \<Rightarrow> env \<Rightarrow> machine res" where
  "apic_eoi depth m c =
    bind_res (ski_apic_get_highest_priority_int (mc_ski m) c (apic_isr (apic_at m c))) (\<lambda>isrv.
      if isrv < 0 then Inr m
      else let m = upd_apic c (\<lambda>a. a\<lparr>apic_isr := apic_reset_bit (apic_isr a) (nat isrv)\<rparr>) m
           in bind_res (if apic_spurious_vec (apic_at m c) AND APIC_SV_DIRECTED_IO = 0 \<and>
                           apic_get_bit (apic_tmr (apic_at m c)) (nat isrv)
                        then ioapic_eoi_broadcast depth m isrv else Inr m) (\<lambda>m.
                apic_update_irq depth m c))"

definition apic_send_msi :: "nat \<Rightarrow> machine \<Rightarrow> nat \<Rightarrow> 32 word \<Rightarrow> machine res" where
  "apic_send_msi depth m addr data =
    apic_deliver_irq depth m (of_nat (drop_bit 12 (addr AND 0xffff0))) (drop_bit 2 addr AND 1)
      (unat (drop_bit 8 data AND 7)) (unat (data AND 0xff)) (unat (drop_bit 15 data AND 1))"

text \<open>The first argument is the CPU that performs the access, if any.\<close>

definition apic_mem_readl :: "env option \<Rightarrow> machine \<Rightarrow> nat \<Rightarrow> machine \<times> 32 word" where
  "apic_mem_readl cpu m addr =
    (case cpu of
       None \<Rightarrow> (m, 0)
     | Some c \<Rightarrow>
         let a = apic_at m c; index = drop_bit 4 addr AND 0xff
         in if index = 0x02 then (m, push_bit 24 (ucast (apic_id a)))
            else if index = 0x03 then (m, 0x11 OR push_bit 16 (of_nat (APIC_LVT_NB - 1)))
            else if index = 0x08 then (m, ucast (apic_tpr a))
            else if index = 0x09 then (m, 0)
            else if index = 0x0a then (m, word_of_int (apic_get_ppr a))
            else if index = 0x0b then (m, 0)
            else if index = 0x0d then (m, push_bit 24 (ucast (apic_log_dest a)))
            else if index = 0x0e then (m, push_bit 28 (ucast (apic_dest_mode a)))
            else if index = 0x0f then (m, apic_spurious_vec a)
            else if 0x10 \<le> index \<and> index \<le> 0x17 then (m, apic_isr a ! (index AND 7))
            else if 0x18 \<le> index \<and> index \<le> 0x1f then (m, apic_tmr a ! (index AND 7))
            else if 0x20 \<le> index \<and> index \<le> 0x27 then (m, apic_irr a ! (index AND 7))
            else if index = 0x28 then (m, apic_esr a)
            else if index = 0x30 \<or> index = 0x31 then (m, apic_icr a ! (index AND 1))
            else if 0x32 \<le> index \<and> index \<le> 0x37 then (m, apic_lvt a ! (index - 0x32))
            else if index = 0x38 then (m, apic_initial_count a)
            else if index = 0x39 then (m, apic_get_current_count m c)
            else if index = 0x3e then (m, apic_divide_conf a)
            else (upd_apic c (\<lambda>a. a\<lparr>apic_esr := apic_esr a OR ESR_ILLEGAL_ADDRESS\<rparr>) m, 0))"

definition apic_mem_writel :: "nat \<Rightarrow> env option \<Rightarrow> machine \<Rightarrow> nat \<Rightarrow> 32 word \<Rightarrow> machine res" where
  "apic_mem_writel depth cpu m addr val =
    (let index = drop_bit 4 addr AND 0xff
     in if addr > 0xfff \<or> index = 0 then apic_send_msi depth m addr val
        else case cpu of
          None \<Rightarrow> Inr m
        | Some c \<Rightarrow>
            if index = 0x02 then Inr (upd_apic c (\<lambda>a. a\<lparr>apic_id := ucast (drop_bit 24 val)\<rparr>) m)
            else if index = 0x03 then Inr m
            else if index = 0x08 then apic_update_irq depth (upd_apic c (\<lambda>a. a\<lparr>apic_tpr := ucast val\<rparr>) m) c
            else if index = 0x09 \<or> index = 0x0a then Inr m
            else if index = 0x0b then apic_eoi depth m c
            else if index = 0x0d then Inr (upd_apic c (\<lambda>a. a\<lparr>apic_log_dest := ucast (drop_bit 24 val)\<rparr>) m)
            else if index = 0x0e then Inr (upd_apic c (\<lambda>a. a\<lparr>apic_dest_mode := ucast (drop_bit 28 val)\<rparr>) m)
            else if index = 0x0f
            then apic_update_irq depth (upd_apic c (\<lambda>a. a\<lparr>apic_spurious_vec := val AND 0x1ff\<rparr>) m) c
            else if 0x10 \<le> index \<and> index \<le> 0x28 then Inr m
            else if index = 0x30
            then let m = upd_apic c (\<lambda>a. a\<lparr>apic_icr := (apic_icr a)[0 := val]\<rparr>) m; icr = apic_icr (apic_at m c)
                 in apic_deliver depth m c (ucast (drop_bit 24 (icr ! 1))) (unat (drop_bit 11 (icr ! 0) AND 1))
                      (unat (drop_bit 8 (icr ! 0) AND 7)) (unat (icr ! 0 AND 0xff)) (unat (drop_bit 15 (icr ! 0) AND 1))
            else if index = 0x31 then Inr (upd_apic c (\<lambda>a. a\<lparr>apic_icr := (apic_icr a)[1 := val]\<rparr>) m)
            else if 0x32 \<le> index \<and> index \<le> 0x37
            then let n = index - 0x32; m = upd_apic c (\<lambda>a. a\<lparr>apic_lvt := (apic_lvt a)[n := val]\<rparr>) m
                 in Inr (if n = APIC_LVT_TIMER then apic_timer_update m c (mc_vm_clock m) else m)
            else if index = 0x38
            then let m = upd_apic c (\<lambda>a. a\<lparr>apic_initial_count := val, apic_initial_count_load_time := mc_vm_clock m\<rparr>) m
                 in Inr (apic_timer_update m c (apic_initial_count_load_time (apic_at m c)))
            else if index = 0x39 then Inr m
            else if index = 0x3e
            then Inr (upd_apic c (\<lambda>a. let conf = val AND 0xb; v = (conf AND 3) OR (drop_bit 1 conf AND 4)
                   in a\<lparr>apic_divide_conf := conf, apic_count_shift := unat ((v + 1) AND 7)\<rparr>) m)
            else Inr (upd_apic c (\<lambda>a. a\<lparr>apic_esr := apic_esr a OR ESR_ILLEGAL_ADDRESS\<rparr>) m))"

section \<open>Every operation keeps the machine well formed\<close>

text \<open>
  \<open>keeps p m r\<close>: the result \<open>r\<close> of an operation started in \<open>m\<close> is a well-formed machine
  with the same CPUs, or one of the stops that the controllers can reach: an exhausted stack,
  an unsupported 8259 mode, and the two failures of the vector that the scheduler hands out.
\<close>

definition keeps :: "('a \<Rightarrow> machine) \<Rightarrow> machine \<Rightarrow> 'a res \<Rightarrow> bool" where
  "keeps p m r \<longleftrightarrow> (case r of Inl e \<Rightarrow> e \<in> {Stack_overflow, Hw_error, Int3_trap, Out_of_bounds}
     | Inr x \<Rightarrow> machine_ok (p x) \<and> length (m_cpus (p x)) = length (m_cpus m))"

abbreviation keeps_m :: "machine \<Rightarrow> machine res \<Rightarrow> bool" where "keeps_m \<equiv> keeps (\<lambda>m. m)"

lemma keeps_Inr [simp]: "keeps p m (Inr x) \<longleftrightarrow> machine_ok (p x) \<and> length (m_cpus (p x)) = length (m_cpus m)"
  by (simp add: keeps_def)

lemma keeps_bind:
  assumes "keeps p m r" "\<And>x. r = Inr x \<Longrightarrow> machine_ok (p x) \<Longrightarrow> length (m_cpus (p x)) = length (m_cpus m) \<Longrightarrow> keeps q m (f x)"
  shows "keeps q m (bind_res r f)"
  using assms by (cases r) (auto simp: keeps_def)

lemma keeps_len: "length (m_cpus m') = length (m_cpus m) \<Longrightarrow> keeps p m' r \<Longrightarrow> keeps p m r"
  by (cases r) (simp_all add: keeps_def)

lemma keeps_fold:
  assumes "machine_ok m"
    and "\<And>m' x. x \<in> set xs \<Longrightarrow> machine_ok m' \<Longrightarrow> length (m_cpus m') = length (m_cpus m) \<Longrightarrow> keeps_m m (f m' x)"
  shows "keeps_m m (fold_res f m xs)"
proof -
  have "keeps_m m (fold_res f m' ys)"
    if "set ys \<subseteq> set xs" "machine_ok m'" "length (m_cpus m') = length (m_cpus m)" for ys m'
    using that
  proof (induction ys arbitrary: m')
    case (Cons y ys)
    then show ?case by (auto intro!: keeps_bind[where p = "\<lambda>m. m"] assms(2))
  qed simp
  then show ?thesis using assms(1) by blast
qed

lemma ok_upd_apic:
  assumes "machine_ok m" "\<And>a. apic_wf a \<Longrightarrow> apic_wf (f a)"
  shows "machine_ok (upd_apic c f m)"
proof (cases "c < length (m_cpus m)")
  case True
  then show ?thesis using assms by (auto simp: machine_ok_def)
next
  case False
  then have "upd_apic c f m = m" by (simp add: upd_apic_def upd_env_def upd_cpu_def m_cpus_def list_update_beyond)
  then show ?thesis using assms by simp
qed

lemma ok_interrupt [simp]:
  "machine_ok (cpu_interrupt m c k) = machine_ok m" "machine_ok (cpu_reset_interrupt m c k) = machine_ok m"
  by (simp_all add: machine_ok_def)

lemma ok_upd_eip [simp]: "machine_ok (upd_env c (\<lambda>e. e\<lparr>cpu_eip := v\<rparr>) m) = machine_ok m"
  by (simp add: machine_ok_def apic_at_upd_env) (simp add: upd_env_def)

lemma ok_upd_pic [simp]:
  "machine_ok (upd_pic b f m) = machine_ok m" "m_cpus (upd_pic b f m) = m_cpus m" "apic_at (upd_pic b f m) = apic_at m"
  by (simp_all add: machine_ok_def upd_pic_def fun_eq_iff)

lemma ok_upd_ioapic [simp]: "m_cpus (upd_ioapic f m) = m_cpus m" "apic_at (upd_ioapic f m) = apic_at m"
  by (simp_all add: upd_ioapic_def fun_eq_iff)

lemma ok_ioapic:
  assumes "machine_ok m" "length (ioapic_ioredtbl (f (mc_ioapic m))) = 24"
  shows "machine_ok (upd_ioapic f m)"
  using assms by (simp add: machine_ok_def upd_ioapic_def)

lemma len_redtbl_set [simp]: "length (ioapic_ioredtbl (redtbl_set i e s)) = length (ioapic_ioredtbl s)"
  by (simp add: redtbl_set_def)

lemma ok_set_timer [simp]: "machine_ok (set_timer c t m) = machine_ok m" 
  by (simp add: machine_ok_def) (simp add: set_timer_def)

lemma ok_timer_update [simp]:
  "machine_ok m \<Longrightarrow> machine_ok (apic_timer_update m c t)"
  "length (m_cpus (apic_timer_update m c t)) = length (m_cpus m)"
  by (auto simp: apic_timer_update_def apic_wf_def split: option.splits intro!: ok_upd_apic)

lemma keeps_irq_set:
  assumes "machine_ok m" "c < length (m_cpus m)"
  shows "keeps_m m (bind_res (ski_handle_new_irq_set (mc_ski m) c v) (\<lambda>s. Inr (m\<lparr>mc_ski := s\<rparr>)))"
proof -
  note inv = machine_okD(1)[OF assms(1)]
  obtain s' where s': "ski_handle_new_irq_set (mc_ski m) c v = Inr s'" using irq_set_returns[OF inv] by blast
  have "int_inv s'" using int_inv_irq[OF inv _ s'] assms(2) by (simp add: m_cpus_def)
  moreover have "apic_at (m\<lparr>mc_ski := s'\<rparr>) = apic_at m" "m_cpus (m\<lparr>mc_ski := s'\<rparr>) = m_cpus m"
    using irq_set_cpus[OF s'] by (simp_all add: apic_at_def m_cpus_def cpu_of_def fun_eq_iff)
  ultimately show ?thesis using assms s' by (simp add: machine_ok_def)
qed

lemma ok_raise: "machine_ok m \<Longrightarrow> machine_ok (raise_vector m c v t)"
proof -
  assume "machine_ok m"
  then have "machine_ok (m\<lparr>mc_apic_irq_delivered := n\<rparr>)" for n by (simp add: machine_ok_def)
  then show ?thesis unfolding raise_vector_def
    by (rule ok_upd_apic) (simp add: apic_wf_def apic_bits.wf_set apic_bits.wf_reset)
qed

lemma ok_update_flat [simp]: "machine_ok (update_flat m c) = machine_ok m"
  using update_flat_cases[of m c] by auto

lemma keeps_set_irq:
  "machine_ok m \<Longrightarrow> c < length (m_cpus m) \<Longrightarrow> v < 256 \<Longrightarrow> keeps_m m (apic_set_irq depth m c v t)"
proof (induction depth arbitrary: m v t)
  case (Suc depth)
  let ?m = "raise_vector m c v t"
  have "keeps_m m (apic_update_irq_with (apic_set_irq depth) ?m c)"
    using Suc.IH[of ?m "lint0_vector (apic_at ?m c)"] Suc.prems ok_raise[of m c v t] keeps_len[of ?m m]
    by (auto simp: update_irq_eq)
  then show ?case unfolding apic_set_irq.simps
    by (rule keeps_bind) (rule keeps_len[OF _ keeps_irq_set], use Suc.prems in auto)
qed (simp add: keeps_def)

text \<open>The operations on one CPU.\<close>

lemma keeps_local_deliver:
  assumes "machine_ok m" "c < length (m_cpus m)"
  shows "keeps_m m (apic_local_deliver depth m c vector)"
  using assms by (auto simp: apic_local_deliver_def apic_local_deliver_with_def Let_def word32_and_ff intro!: keeps_set_irq)

lemma keeps_deliver_pic_intr:
  assumes "machine_ok m" "c < length (m_cpus m)"
  shows "keeps_m m (apic_deliver_pic_intr depth m c level)"
  using assms keeps_local_deliver[OF assms, unfolded apic_local_deliver_def]
  by (auto simp: apic_deliver_pic_intr_def apic_deliver_pic_intr_with_def Let_def apic_wf_def apic_bits.wf_reset
      intro!: ok_upd_apic)

lemma keeps_update_irq:
  assumes "machine_ok m" "c < length (m_cpus m)"
  shows "keeps_m m (apic_update_irq depth m c)"
  using assms by (auto simp: apic_update_irq_def update_irq_eq intro!: keeps_set_irq)

lemma keeps_update_irq_upd:
  assumes "machine_ok m" "c < length (m_cpus m)" "\<And>a. apic_wf a \<Longrightarrow> apic_wf (f a)"
  shows "keeps_m m (apic_update_irq depth (upd_apic c f m) c)"
  using assms keeps_update_irq[of "upd_apic c f m" c depth] ok_upd_apic[of m f c] keeps_len[of "upd_apic c f m" m] by auto

text \<open>Operations on all CPUs.\<close>

lemma keeps_foreach:
  assumes "machine_ok m"
    and "\<And>m' c. machine_ok m' \<Longrightarrow> length (m_cpus m') = length (m_cpus m) \<Longrightarrow> c < length (m_cpus m') \<Longrightarrow> keeps_m m' (code m' c)"
  shows "keeps_m m (foreach_apic b code m)"
  unfolding foreach_apic_def
proof (rule keeps_fold[OF assms(1)])
  fix m' :: machine and i :: nat
  assume *: "machine_ok m'" "length (m_cpus m') = length (m_cpus m)"
  show "keeps_m m (if apic_get_bit b i then case local_apics m' i of None \<Rightarrow> Inr m' | Some c \<Rightarrow> code m' c else Inr m')"
    using * assms(2)[OF *] keeps_len[of m' m] by (auto simp: local_apics_def)
qed

lemma keeps_bus_deliver:
  assumes "machine_ok m" "vector < 256"
  shows "keeps_m m (apic_bus_deliver depth m b mode vector t)"
  using assms
  by (auto simp: apic_bus_deliver_def local_apics_def Let_def intro!: keeps_foreach keeps_set_irq)

lemma keeps_deliver_irq:
  assumes "machine_ok m" "vector < 256"
  shows "keeps_m m (apic_deliver_irq depth m dest dest_mode mode vector t)"
  using assms by (simp add: apic_deliver_irq_def keeps_bus_deliver)

lemma keeps_deliver:
  assumes "machine_ok m" "vector < 256"
  shows "keeps_m m (apic_deliver depth m c dest dest_mode mode vector t)"
  using assms
  by (auto simp: apic_deliver_def apic_startup_def apic_wf_def Let_def intro!: keeps_foreach keeps_bus_deliver ok_upd_apic)

lemma keeps_pic_irq_request: "machine_ok m \<Longrightarrow> keeps_m m (pic_irq_request depth m level)"
  unfolding pic_irq_request_def by (rule keeps_fold) (auto intro: keeps_len[OF _ keeps_deliver_pic_intr])

lemma keeps_pic_update:
  "machine_ok m' \<Longrightarrow> length (m_cpus m') = length (m_cpus m) \<Longrightarrow> keeps_m m (pic_update_irq depth m' master)"
  unfolding pic_update_irq_def Let_def by (rule keeps_len[OF _ keeps_pic_irq_request]) auto

lemma keeps_pic_set_irq: "machine_ok m \<Longrightarrow> keeps_m m (pic_set_irq depth m master irq level)"
  by (simp add: pic_set_irq_def keeps_pic_update)

lemma keeps_pic_intack:
  "machine_ok m' \<Longrightarrow> length (m_cpus m') = length (m_cpus m) \<Longrightarrow> keeps_m m (pic_intack depth m' master irq)"
  by (simp add: pic_intack_def keeps_pic_update)

lemma keeps_pic_read_irq:
  assumes "machine_ok m"
  shows "keeps fst m (pic_read_irq depth m)"
  unfolding pic_read_irq_def Let_def using assms
  by (auto intro!: keeps_bind[where p = "\<lambda>m. m"] keeps_bind[where p = fst] keeps_pic_intack split: prod.splits)

lemma keeps_pic_init_reset: "machine_ok m \<Longrightarrow> keeps_m m (pic_init_reset depth m master)"
  by (simp add: pic_init_reset_def keeps_pic_update)

lemma keeps_Inl [simp]: "keeps p m (Inl e) \<longleftrightarrow> e \<in> {Stack_overflow, Hw_error, Int3_trap, Out_of_bounds}"
  by (simp add: keeps_def)

lemma keeps_pic_ioport_write:
  assumes "machine_ok m"
  shows "keeps_m m (pic_ioport_write depth m master addr val)"
  unfolding pic_ioport_write_def Let_def using assms
  by (auto intro!: keeps_bind[where p = "\<lambda>m. m"] keeps_pic_init_reset keeps_pic_update split: prod.splits)

lemma keeps_pic_ioport_read:
  assumes "machine_ok m"
  shows "keeps fst m (pic_ioport_read depth m master addr)"
  unfolding pic_ioport_read_def Let_def using assms
  by (auto intro!: keeps_bind[where p = "\<lambda>m. m"] keeps_bind[where p = fst] keeps_pic_intack split: prod.splits)

lemma word64_and_ff: "unat ((w :: 64 word) AND 0xff) < 256"
proof -
  have "w AND 0xff \<le> 0xff" by (simp add: word_and_le1 word_and_le2)
  then have "unat (w AND 0xff) \<le> unat (0xff :: 64 word)" by (simp only: word_le_nat_alt)
  then show ?thesis by simp
qed

lemma keeps_pin_vector:
  assumes "machine_ok m'" "length (m_cpus m') = length (m_cpus m)"
  shows "keeps fst m (pin_vector depth m' entry)"
  unfolding pin_vector_def using assms keeps_len[OF assms(2) keeps_pic_read_irq[OF assms(1), of depth]]
  by (auto intro!: keeps_bind[where p = fst] split: prod.splits)

lemma pin_vector_less: "pin_vector depth m entry = Inr (m', v) \<Longrightarrow> v < 256"
  by (auto simp: pin_vector_def bind_res_eq_Inr word64_and_ff split: if_splits)

lemma keeps_deliver_pin:
  assumes "machine_ok m'" "length (m_cpus m') = length (m_cpus m)"
  shows "keeps_m m (bind_res (pin_vector depth m' entry) (\<lambda>(m, vector).
    apic_deliver_irq depth m dest dest_mode delivery_mode vector trig_mode))"
  using keeps_pin_vector[OF assms]
  by (rule keeps_bind) (auto intro!: keeps_len[OF _ keeps_deliver_irq] pin_vector_less)

lemma keeps_service_pin:
  assumes "machine_ok m"
  shows "keeps_m m (service_pin depth m i)"
  unfolding service_pin_def Let_def using assms machine_okD(4)[OF assms]
  by (auto intro!: keeps_deliver_pin ok_ioapic)

lemma keeps_ioapic_service:
  "machine_ok m' \<Longrightarrow> length (m_cpus m') = length (m_cpus m) \<Longrightarrow> keeps_m m (ioapic_service depth m')"
  unfolding ioapic_service_def
  by (rule keeps_len[OF _ keeps_fold], assumption, assumption, rule keeps_len[OF _ keeps_service_pin])

lemma keeps_ioapic_set_irq:
  assumes "machine_ok m"
  shows "keeps_m m (ioapic_set_irq depth m vector level)"
  using assms machine_okD(4)[OF assms]
  by (auto simp: ioapic_set_irq_def Let_def intro!: keeps_ioapic_service ok_ioapic)

lemma keeps_eoi_pin:
  assumes "machine_ok m"
  shows "keeps_m m (eoi_pin depth vector m n)"
  using assms machine_okD(4)[OF assms]
  by (auto simp: eoi_pin_def Let_def intro!: keeps_ioapic_service ok_ioapic)

lemma keeps_eoi_broadcast: "machine_ok m \<Longrightarrow> keeps_m m (ioapic_eoi_broadcast depth m vector)"
  unfolding ioapic_eoi_broadcast_def by (rule keeps_fold) (auto intro: keeps_len[OF _ keeps_eoi_pin])

lemma keeps_ioapic_mem_writel:
  assumes "machine_ok m"
  shows "keeps_m m (ioapic_mem_writel depth m addr val)"
  using assms machine_okD(4)[OF assms]
  by (auto simp: ioapic_mem_writel_def Let_def intro!: keeps_ioapic_service ok_ioapic)

lemma keeps_gsi_handler:
  assumes "machine_ok m"
  shows "keeps_m m (gsi_handler depth m n level)"
  unfolding gsi_handler_def using assms
  by (intro keeps_bind[where p = "\<lambda>m. m"]) (auto intro: keeps_pic_set_irq keeps_len[OF _ keeps_ioapic_set_irq])

lemma keeps_bind_val:
  assumes "\<And>e. r = Inl e \<Longrightarrow> e \<in> {Stack_overflow, Hw_error, Int3_trap, Out_of_bounds}"
    and "\<And>x. r = Inr x \<Longrightarrow> keeps q m (f x)"
  shows "keeps q m (bind_res r f)"
  using assms by (cases r) auto

lemma ski_highest_error:
  "ski_apic_get_highest_priority_int s c tab = Inl e \<Longrightarrow> e \<in> {Int3_trap, Out_of_bounds}"
  by (auto simp: ski_apic_get_highest_priority_int_def SKI_ASSERT_def bind_res_eq_Inl Let_def split: if_splits)

lemma ski_highest_less:
  "bitmap_wf tab \<Longrightarrow> ski_apic_get_highest_priority_int s c tab = Inr h \<Longrightarrow> h < 256"
  using highest_bounds(1)[of tab]
  by (auto simp: ski_apic_get_highest_priority_int_def bind_res_eq_Inr Let_def split: if_splits)

lemma keeps_apic_eoi:
  assumes ok: "machine_ok m" and c: "c < length (m_cpus m)"
  shows "keeps_m m (apic_eoi depth m c)"
  unfolding apic_eoi_def
proof (rule keeps_bind_val)
  fix h :: int
  let ?m = "upd_apic c (\<lambda>a. a\<lparr>apic_isr := apic_reset_bit (apic_isr a) (nat h)\<rparr>) m"
  have m: "machine_ok ?m" using ok by (rule ok_upd_apic) (simp add: apic_wf_def apic_bits.wf_reset)
  have "keeps_m m (bind_res (if b then ioapic_eoi_broadcast depth ?m h else Inr ?m) (\<lambda>m. apic_update_irq depth m c))" for b
    using m c keeps_len[OF _ keeps_eoi_broadcast[OF m, of depth h], of m]
    by (intro keeps_bind[where p = "\<lambda>m. m"]) (auto intro!: keeps_len[OF _ keeps_update_irq])
  then show "keeps_m m (if h < 0 then Inr m
      else let m = ?m in bind_res (if apic_spurious_vec (apic_at m c) AND APIC_SV_DIRECTED_IO = 0 \<and>
           apic_get_bit (apic_tmr (apic_at m c)) (nat h) then ioapic_eoi_broadcast depth m h else Inr m)
         (\<lambda>m. apic_update_irq depth m c))"
    using ok by (simp add: Let_def)
qed (use ski_highest_error in blast)

lemma keeps_apic_ack:
  assumes "machine_ok m" "c < length (m_cpus m)"
  shows "keeps fst m (apic_ack depth m c intno)"
  unfolding apic_ack_def using assms
  by (auto intro!: keeps_bind[where p = "\<lambda>m. m"] keeps_update_irq_upd simp: apic_wf_def apic_bits.wf_set apic_bits.wf_reset)

lemma keeps_ski_get_interrupt:
  assumes "machine_ok m" "c < length (m_cpus m)"
  shows "keeps fst m (ski_apic_get_interrupt depth m c)"
proof -
  have "e \<in> {Int3_trap, Out_of_bounds}" if "ski_apic_irq_pending m c = Inl e" for e
    using that ski_highest_error by (auto simp: ski_apic_irq_pending_def bind_res_eq_Inl Let_def split: if_splits)
  then show ?thesis unfolding ski_apic_get_interrupt_def using assms
    by (auto intro!: keeps_bind_val keeps_apic_ack)
qed

lemma keeps_get_pic_interrupt:
  assumes "machine_ok m" "c < length (m_cpus m)"
  shows "keeps fst m (cpu_get_pic_interrupt depth m c)"
proof -
  have "keeps fst m (original_apic_get_interrupt depth m c)"
    using assms by (auto simp: original_apic_get_interrupt_def intro!: keeps_apic_ack)
  then show ?thesis unfolding cpu_get_pic_interrupt_def
    using assms keeps_ski_get_interrupt[OF assms, of depth]
    by (intro keeps_bind[where p = fst]) (auto intro: keeps_len[OF _ keeps_pic_read_irq])
qed

lemma keeps_apic_timer:
  assumes "machine_ok m" "c < length (m_cpus m)"
  shows "keeps_m m (apic_timer depth m c)"
  unfolding apic_timer_def using assms by (auto intro!: keeps_bind[where p = "\<lambda>m. m"] keeps_local_deliver)

lemma keeps_send_msi: "machine_ok m \<Longrightarrow> keeps_m m (apic_send_msi depth m addr data)"
  unfolding apic_send_msi_def by (rule keeps_deliver_irq) (simp_all add: word32_and_ff)

lemma ok_readl: "machine_ok m \<Longrightarrow> machine_ok (fst (apic_mem_readl cpu m addr))"
  "length (m_cpus (fst (apic_mem_readl cpu m addr))) = length (m_cpus m)"
  by (auto simp: apic_mem_readl_def apic_wf_def Let_def split: option.splits intro!: ok_upd_apic)

lemma keeps_writel:
  assumes ok: "machine_ok m" and c: "\<And>c. cpu = Some c \<Longrightarrow> c < length (m_cpus m)"
  shows "keeps_m m (apic_mem_writel depth cpu m addr val)"
proof (cases cpu)
  case None
  then show ?thesis using ok keeps_send_msi by (simp add: apic_mem_writel_def Let_def)
next
  case (Some c)
  note c' = c[OF Some]
  have wr: "machine_ok (upd_apic c f m)" "length (m_cpus (upd_apic c f m)) = length (m_cpus m)"
    if "\<And>a. apic_wf a \<Longrightarrow> apic_wf (f a)" for f using ok_upd_apic[OF ok that] by simp_all
  have dl: "keeps_m m (apic_deliver depth (upd_apic c (\<lambda>a. a\<lparr>apic_icr := (apic_icr a)[0 := val]\<rparr>) m) c x y z (unat (w AND 0xff)) t)"
    for x y z t and w :: "32 word"
    by (rule keeps_len[OF _ keeps_deliver]) (auto simp: apic_wf_def word32_and_ff intro!: wr)
  show ?thesis unfolding apic_mem_writel_def Let_def Some option.case
    using ok c' keeps_send_msi[OF ok] keeps_apic_eoi[OF ok c'] dl
    by (simp, intro impI conjI) (auto simp: apic_wf_def intro!: keeps_update_irq_upd ok_upd_apic ok_timer_update)
qed

section \<open>Runs of the interrupt controllers\<close>

datatype irq_event =
    Apic_write "env option" nat "32 word"
  | Apic_read "env option" nat
  | Ioapic_write nat "32 word"
  | Pic_write bool "32 word" "32 word"
  | Pic_read bool "32 word"
  | Elcr_write bool "8 word"
  | Gsi nat bool
  | Timer_expired env
  | Acknowledge env
  | Set_tpr env "8 word"
  | Set_base env "64 word"
  | Sipi env
  | Apic_reset env
  | Pic_reset bool
  | Ioapic_reset
  | Ioapic_post_load nat
  | Reset_irq_delivered
  | Clock int

fun irq_exec :: "nat \<Rightarrow> machine \<Rightarrow> irq_event \<Rightarrow> machine res" where
  "irq_exec depth m (Apic_write cpu addr val) = apic_mem_writel depth cpu m addr val"
| "irq_exec depth m (Apic_read cpu addr) = Inr (fst (apic_mem_readl cpu m addr))"
| "irq_exec depth m (Ioapic_write addr val) = ioapic_mem_writel depth m addr val"
| "irq_exec depth m (Pic_write master addr val) = pic_ioport_write depth m master addr val"
| "irq_exec depth m (Pic_read master addr) = bind_res (pic_ioport_read depth m master addr) (\<lambda>(m, v). Inr m)"
| "irq_exec depth m (Elcr_write master val) = Inr (elcr_ioport_write m master val)"
| "irq_exec depth m (Gsi n level) = gsi_handler depth m n level"
| "irq_exec depth m (Timer_expired c) = apic_timer depth m c"
| "irq_exec depth m (Acknowledge c) = bind_res (cpu_get_pic_interrupt depth m c) (\<lambda>(m, v). Inr m)"
| "irq_exec depth m (Set_tpr c val) = cpu_set_apic_tpr depth m c val"
| "irq_exec depth m (Set_base c val) = Inr (cpu_set_apic_base m c val)"
| "irq_exec depth m (Sipi c) = Inr (apic_sipi m c)"
| "irq_exec depth m (Apic_reset c) = Inr (apic_reset m c)"
| "irq_exec depth m (Pic_reset master) = pic_reset depth m master"
| "irq_exec depth m Ioapic_reset = Inr (ioapic_reset m)"
| "irq_exec depth m (Ioapic_post_load version_id) = Inr (ioapic_post_load m version_id)"
| "irq_exec depth m Reset_irq_delivered = Inr (apic_reset_irq_delivered m)"
| "irq_exec depth m (Clock t) = Inr (m\<lparr>mc_vm_clock := t\<rparr>)"

text \<open>The CPU of an event exists.\<close>

fun event_ok :: "nat \<Rightarrow> irq_event \<Rightarrow> bool" where
  "event_ok n (Apic_write (Some c) addr val) = (c < n)"
| "event_ok n (Apic_read (Some c) addr) = (c < n)"
| "event_ok n (Timer_expired c) = (c < n)"
| "event_ok n (Acknowledge c) = (c < n)"
| "event_ok n (Set_tpr c val) = (c < n)"
| "event_ok n (Set_base c val) = (c < n)"
| "event_ok n (Sipi c) = (c < n)"
| "event_ok n (Apic_reset c) = (c < n)"
| "event_ok n ev = True"

definition irq_run :: "nat \<Rightarrow> machine \<Rightarrow> irq_event list \<Rightarrow> machine res" where
  "irq_run depth m evs = fold_res (irq_exec depth) m evs"

lemma keeps_fst_bind: "keeps fst m r \<Longrightarrow> keeps_m m (bind_res r (\<lambda>(m, v). Inr m))"
  by (erule keeps_bind) auto

lemma ok_set_base: "machine_ok m \<Longrightarrow> machine_ok (cpu_set_apic_base m c val)"
  by (auto simp: cpu_set_apic_base_def apic_wf_def Let_def intro!: ok_upd_apic)

lemma ok_apic_reset: "machine_ok m \<Longrightarrow> machine_ok (apic_reset m c)"
  by (auto simp: apic_reset_def apic_init_reset_def apic_wf_def Let_def intro!: ok_upd_apic)

lemma ok_sipi: "machine_ok m \<Longrightarrow> machine_ok (apic_sipi m c)"
  by (auto simp: apic_sipi_def apic_wf_def Let_def intro!: ok_upd_apic)

lemma len_resets [simp]:
  "length (m_cpus (cpu_set_apic_base m c val)) = length (m_cpus m)"
  "length (m_cpus (apic_reset m c)) = length (m_cpus m)" "length (m_cpus (apic_sipi m c)) = length (m_cpus m)"
  by (simp_all add: cpu_set_apic_base_def apic_reset_def apic_init_reset_def apic_sipi_def Let_def)

lemma keeps_event:
  assumes ok: "machine_ok m" and ev: "event_ok (length (m_cpus m)) ev"
  shows "keeps_m m (irq_exec depth m ev)"
proof (cases ev)
  case (Apic_write cpu addr val)
  then show ?thesis using ok ev by (auto intro!: keeps_writel)
next
  case (Pic_read master addr)
  then show ?thesis using ok by (simp add: keeps_fst_bind keeps_pic_ioport_read)
next
  case (Acknowledge c)
  then show ?thesis using ok ev by (simp add: keeps_fst_bind keeps_get_pic_interrupt)
next
  case (Set_tpr c val)
  then show ?thesis using ok ev by (auto simp: cpu_set_apic_tpr_def apic_wf_def intro!: keeps_update_irq_upd)
next
  case (Pic_reset master)
  then show ?thesis using ok
    by (auto simp: pic_reset_def intro!: keeps_bind[where p = "\<lambda>m. m"] keeps_pic_init_reset)
next
  case (Clock t)
  then show ?thesis using ok by (simp add: machine_ok_def)
next
  case Ioapic_reset
  then show ?thesis using ok by (auto simp: ioapic_reset_def intro!: ok_ioapic)
next
  case (Ioapic_post_load version_id)
  then show ?thesis using ok machine_okD(4)[OF ok] by (auto simp: ioapic_post_load_def intro!: ok_ioapic)
next
  case Reset_irq_delivered
  then show ?thesis using ok by (simp add: apic_reset_irq_delivered_def machine_ok_def)
qed (use ok ev in \<open>auto simp: ok_readl elcr_ioport_write_def ok_set_base ok_apic_reset ok_sipi keeps_ioapic_mem_writel
      keeps_pic_ioport_write keeps_gsi_handler keeps_apic_timer\<close>)

text \<open>
  C2: the controllers keep the machine well formed.  Start from a machine whose register arrays
  have their lengths and whose thread table agrees with the interrupt stacks, and let the
  guest, the devices and the clock act on the local, I/O and 8259 controllers in any order.
  After every such run the machine is well formed again; in particular every raised vector
  found the thread table in order and no assertion of the scheduler failed.  The run can
  only stop at an exhausted stack, at an unsupported 8259 mode, or where the vector that the
  scheduler hands out is not one the controller holds.
\<close>

theorem irq_run_well_formed:
  assumes "machine_ok m" and "\<And>ev. ev \<in> set evs \<Longrightarrow> event_ok (length (m_cpus m)) ev"
  shows "case irq_run depth m evs of
      Inl e \<Rightarrow> e \<in> {Stack_overflow, Hw_error, Int3_trap, Out_of_bounds}
    | Inr m' \<Rightarrow> machine_ok m' \<and> length (m_cpus m') = length (m_cpus m)"
proof -
  have "keeps_m m (irq_run depth m evs)" unfolding irq_run_def
    by (rule keeps_fold[OF assms(1)]) (rule keeps_len[OF _ keeps_event], use assms(2) in auto)
  then show ?thesis by (simp add: keeps_def)
qed

theorem irq_run_well_formed_witness:
  "\<exists>m'. irq_run 2 sample_machine [Apic_write (Some 0) 0x80 0x20, Clock 5, Set_base 1 0, Ioapic_reset] = Inr m' \<and>
    machine_ok m' \<and> length (m_cpus m') = 2"
proof -
  let ?evs = "[Apic_write (Some 0) 0x80 0x20, Clock 5, Set_base 1 0, Ioapic_reset]"
  have "irq_exec 2 sample_machine (Apic_write (Some 0) 0x80 0x20) = Inr (upd_apic 0 (\<lambda>a. a\<lparr>apic_tpr := 0x20\<rparr>) sample_machine)"
    by (simp add: apic_mem_writel_def apic_update_irq_def apic_update_irq_with_def apic_irq_pending_def
        apic_accept_pic_intr_def blank_apic_def)
  then obtain m' where m': "irq_run 2 sample_machine ?evs = Inr m'" by (simp add: irq_run_def)
  have "event_ok (length (m_cpus sample_machine)) ev" if "ev \<in> set ?evs" for ev using that by auto
  then have "machine_ok m' \<and> length (m_cpus m') = 2"
    using irq_run_well_formed[OF sample_machine_ok(1), of ?evs 2] m' by simp
  then show ?thesis using m' by blast
qed

end
