(* ===== verification/Ski_Delivery.thy ===== *)
theory Ski_Delivery
  imports Ski_Irq
begin

text \<open>
  What the interrupt controllers do end to end: an interrupt message reaches exactly its
  destinations, the acknowledge cycle takes the vector that the scheduler chose during a
  test and the highest request otherwise, if the local controller can deliver it, and the timer expires at the end of a period.
\<close>

section \<open>Destinations\<close>

definition targets :: "machine \<Rightarrow> 8 word \<Rightarrow> nat \<Rightarrow> nat set" where
  "targets m dest dest_mode =
    {c. c < length (m_cpus m) \<and>
      (if dest_mode = 0 then dest = 0xff \<or> apic_id (apic_at m c) = dest else logical_match dest (apic_at m c))}"

definition distinct_ids :: "machine \<Rightarrow> bool" where
  "distinct_ids m \<longleftrightarrow> distinct (map (\<lambda>c. apic_id (apic_at m c)) [0..<length (m_cpus m)])"

lemma distinct_idsD:
  "distinct_ids m \<Longrightarrow> c < length (m_cpus m) \<Longrightarrow> d < length (m_cpus m) \<Longrightarrow>
    apic_id (apic_at m c) = apic_id (apic_at m d) \<Longrightarrow> c = d"
  using nth_eq_iff_index_eq[of "map (\<lambda>c. apic_id (apic_at m c)) [0..<length (m_cpus m)]" c d]
  by (simp add: distinct_ids_def)

lemma find_SomeD: "find P xs = Some x \<Longrightarrow> P x \<and> x \<in> set xs"
  by (induction xs) (auto split: if_splits)

lemma find_NoneD: "find P xs = None \<Longrightarrow> \<forall>x\<in>set xs. \<not> P x"
  by (induction xs) (auto split: if_splits)

lemma find_first:
  "find P [0..<n] = Some x \<Longrightarrow> \<forall>y<x. \<not> P y"
  by (auto simp: find_Some_iff)

lemma find_dest_spec:
  assumes "distinct_ids m" "length (m_cpus m) \<le> MAX_APICS"
  shows "(\<exists>c<length (m_cpus m). apic_find_dest m dest = int c \<and> apic_id (apic_at m c) = dest) \<or>
    (apic_find_dest m dest = -1 \<and> (\<forall>c<length (m_cpus m). apic_id (apic_at m c) \<noteq> dest))"
proof (cases "unat dest < length (m_cpus m) \<and> apic_id (apic_at m (unat dest)) = dest")
  case True
  then show ?thesis by (auto simp: apic_find_dest_def local_apics_def)
next
  case False
  let ?P = "\<lambda>i. case local_apics m i of None \<Rightarrow> True | Some c \<Rightarrow> apic_id (apic_at m c) = dest"
  have eq: "apic_find_dest m dest = (case find ?P [0..<MAX_APICS] of None \<Rightarrow> -1
      | Some i \<Rightarrow> if local_apics m i = None then -1 else int i)"
    using False by (auto simp: apic_find_dest_def local_apics_def)
  show ?thesis
  proof (cases "find ?P [0..<MAX_APICS]")
    case None
    have "\<not> ?P c" if "c < length (m_cpus m)" for c using find_NoneD[OF None] that assms(2) by simp
    then have "apic_id (apic_at m c) \<noteq> dest" if "c < length (m_cpus m)" for c
      using that by (simp add: local_apics_def)
    then show ?thesis using None eq by simp
  next
    case (Some i)
    note P = find_SomeD[OF Some] and first = find_first[OF Some]
    show ?thesis
    proof (cases "i < length (m_cpus m)")
      case True
      then show ?thesis using P eq Some by (auto simp: local_apics_def)
    next
      case False
      then have "apic_id (apic_at m c) \<noteq> dest" if "c < length (m_cpus m)" for c
        using first[rule_format, of c] that by (simp add: local_apics_def)
      then show ?thesis using False eq Some by (simp add: local_apics_def)
    qed
  qed
qed

lemma get_bit_ones: "c < 256 \<Longrightarrow> apic_get_bit ones_bitmap c"
proof -
  have "bit (0xffffffff :: 32 word) n" if "n < 32" for n
  proof -
    have "(0xffffffff :: 32 word) = mask 32" by (simp add: mask_eq_exp_minus_1)
    then show ?thesis using that by (simp only: bit_mask_iff) simp
  qed
  then show "c < 256 \<Longrightarrow> apic_get_bit ones_bitmap c" by (simp add: apic_get_bit_iff ones_bitmap_def idx_word)
qed

lemma get_bit_foldl:
  assumes "bitmap_wf b" "\<And>i. i \<in> set is \<Longrightarrow> i < 256" "c < 256"
  shows "bitmap_wf (foldl (\<lambda>b i. if P i then apic_set_bit b i else b) b is) \<and>
    (apic_get_bit (foldl (\<lambda>b i. if P i then apic_set_bit b i else b) b is) c \<longleftrightarrow> apic_get_bit b c \<or> c \<in> set is \<and> P c)"
  using assms by (induction "is" arbitrary: b) (auto simp: apic_bits.wf_set apic_get_set_bit)

lemma takeWhile_present:
  assumes "length (m_cpus m) \<le> MAX_APICS"
  shows "takeWhile (\<lambda>i. local_apics m i \<noteq> None) [0..<MAX_APICS] = [0..<length (m_cpus m)]"
proof -
  have "[0..<MAX_APICS] = [0..<length (m_cpus m)] @ [length (m_cpus m)..<MAX_APICS]"
    using assms by (metis le0 le_add_diff_inverse upt_add_eq_append)
  moreover have "takeWhile (\<lambda>i. i < length (m_cpus m)) [length (m_cpus m)..<MAX_APICS] = []"
    by (cases "length (m_cpus m) < MAX_APICS") (simp_all add: upt_conv_Cons)
  ultimately have "takeWhile (\<lambda>i. i < length (m_cpus m)) [0..<MAX_APICS] = [0..<length (m_cpus m)]"
    using takeWhile_append2[of "[0..<length (m_cpus m)]" "\<lambda>i. i < length (m_cpus m)"] by simp
  moreover have "(\<lambda>i. local_apics m i \<noteq> None) = (\<lambda>i. i < length (m_cpus m))" by (auto simp: local_apics_def)
  ultimately show ?thesis by (simp only:)
qed

lemma delivery_bitmask_exact:
  assumes "distinct_ids m" "length (m_cpus m) \<le> MAX_APICS" "c < length (m_cpus m)"
  shows "apic_get_bit (apic_get_delivery_bitmask m dest dest_mode) c \<longleftrightarrow> c \<in> targets m dest dest_mode"
proof (cases "dest_mode = 0")
  case True
  show ?thesis
  proof (cases "dest = 0xff")
    case False
    then show ?thesis using True assms find_dest_spec[OF assms(1,2), of dest] distinct_idsD[OF assms(1)]
      by (auto simp: apic_get_delivery_bitmask_def targets_def apic_get_set_bit Let_def)
  qed (use True assms in \<open>simp add: apic_get_delivery_bitmask_def targets_def get_bit_ones\<close>)
next
  case False
  then show ?thesis using assms get_bit_foldl[of zero_bitmap "[0..<length (m_cpus m)]" c "\<lambda>i. logical_match dest (apic_at m i)"]
    by (simp add: apic_get_delivery_bitmask_def takeWhile_present targets_def del: not_None_eq)
qed

section \<open>Delivery\<close>

lemma set_irq_quiet:
  assumes "machine_ok m" "c < length (m_cpus m)" "v < 256" "\<not> pic_get_output (mc_isa_pic m)"
  shows "\<exists>m'. apic_set_irq (Suc depth) m c v t = Inr m' \<and> machine_ok m' \<and> length (m_cpus m') = length (m_cpus m) \<and>
    mc_isa_pic m' = mc_isa_pic m \<and> (\<forall>d. d \<noteq> c \<longrightarrow> apic_at m' d = apic_at m d) \<and>
    apic_rest (apic_at m' c) = apic_rest (apic_at m c) \<and>
    bitmap_set (apic_irr (apic_at m' c)) = insert v (bitmap_set (apic_irr (apic_at m c)))"
proof -
  have "\<not> update_recurses (raise_vector m c v t) c" using assms(4) by (simp add: update_recurses_def)
  then obtain m' where m': "apic_set_irq (Suc depth) m c v t = Inr m'"
    using set_irq_flat[OF machine_okD(1)[OF assms(1)] assms(2)] by blast
  show ?thesis using set_irq_outcome[OF assms(1-3) m'] assms(4) m' by (auto simp: raise_frame_def)
qed

lemma foreach_step:
  "fold_res f m [0..<Suc n] = bind_res (fold_res f m [0..<n]) (\<lambda>m. f m n)"
  by (simp add: fold_res_append)

lemma foreach_set_irq:
  assumes "machine_ok m" "v < 256" "\<not> pic_get_output (mc_isa_pic m)"
  shows "\<exists>m'. fold_res (\<lambda>m i. if apic_get_bit b i
        then case local_apics m i of None \<Rightarrow> Inr m | Some c \<Rightarrow> apic_set_irq (Suc depth) m c v t else Inr m) m [0..<n] = Inr m' \<and>
    machine_ok m' \<and> length (m_cpus m') = length (m_cpus m) \<and> mc_isa_pic m' = mc_isa_pic m \<and>
    (\<forall>c. apic_rest (apic_at m' c) = apic_rest (apic_at m c)) \<and>
    (\<forall>c<length (m_cpus m). bitmap_set (apic_irr (apic_at m' c)) =
      (if c < n \<and> apic_get_bit b c then {v} else {}) \<union> bitmap_set (apic_irr (apic_at m c)))"
proof (induction n)
  case 0
  then show ?case using assms(1) by simp
next
  case (Suc n)
  let ?f = "\<lambda>m i. if apic_get_bit b i
        then case local_apics m i of None \<Rightarrow> Inr m | Some c \<Rightarrow> apic_set_irq (Suc depth) m c v t else Inr m"
  from Suc.IH obtain m1 where m1: "fold_res ?f m [0..<n] = Inr m1" "machine_ok m1"
    "length (m_cpus m1) = length (m_cpus m)" "mc_isa_pic m1 = mc_isa_pic m"
    "\<forall>c. apic_rest (apic_at m1 c) = apic_rest (apic_at m c)"
    "\<forall>c<length (m_cpus m). bitmap_set (apic_irr (apic_at m1 c)) =
      (if c < n \<and> apic_get_bit b c then {v} else {}) \<union> bitmap_set (apic_irr (apic_at m c))" by blast
  show ?case
  proof (cases "apic_get_bit b n \<and> n < length (m_cpus m)")
    case False
    then have "fold_res ?f m [0..<Suc n] = Inr m1" using m1(1,3)
      by (auto simp: foreach_step local_apics_def simp del: upt_Suc apic_set_irq.simps)
    then show ?thesis using False m1(2-6) by (intro exI[of _ m1]) (auto simp: less_Suc_eq)
  next
    case True
    then have n: "n < length (m_cpus m1)" using m1(3) by simp
    obtain m2 where m2: "apic_set_irq (Suc depth) m1 n v t = Inr m2" "machine_ok m2"
      "length (m_cpus m2) = length (m_cpus m1)" "mc_isa_pic m2 = mc_isa_pic m1"
      "\<forall>d. d \<noteq> n \<longrightarrow> apic_at m2 d = apic_at m1 d" "apic_rest (apic_at m2 n) = apic_rest (apic_at m1 n)"
      "bitmap_set (apic_irr (apic_at m2 n)) = insert v (bitmap_set (apic_irr (apic_at m1 n)))"
      using set_irq_quiet[OF m1(2) n assms(2), of depth t] m1(4) assms(3) by auto
    have "fold_res ?f m [0..<Suc n] = Inr m2"
      using True m1(1,3) m2(1) by (simp add: foreach_step local_apics_def del: upt_Suc apic_set_irq.simps)
    moreover have "apic_rest (apic_at m2 c) = apic_rest (apic_at m c)" for c
      using m1(5) m2(5,6) by (cases "c = n") auto
    moreover have "bitmap_set (apic_irr (apic_at m2 c)) =
      (if c < Suc n \<and> apic_get_bit b c then {v} else {}) \<union> bitmap_set (apic_irr (apic_at m c))" if "c < length (m_cpus m)" for c
      using m1(6)[rule_format, OF that] m2(5,7) True by (cases "c = n") (auto simp: less_Suc_eq)
    ultimately show ?thesis using m1(3,4) m2(2-4) by (intro exI[of _ m2]) simp
  qed
qed

text \<open>
  C14: an interrupt message reaches exactly its destinations.  Let the identifiers of the local
  controllers be distinct and the 8259 be silent.  A message in fixed mode returns; afterwards
  the vector is requested in addition at every CPU that the destination selects, by
  identifier, by broadcast or by a logical destination in flat or cluster mode, and the
  requests of every other CPU and all other registers are as before.
\<close>

theorem delivery_exact:
  assumes "machine_ok m" and "distinct_ids m" and "length (m_cpus m) \<le> MAX_APICS" and "v < 256"
    and "\<not> pic_get_output (mc_isa_pic m)"
  shows "\<exists>m'. apic_deliver_irq (Suc depth) m dest dest_mode APIC_DM_FIXED v t = Inr m' \<and> machine_ok m' \<and>
    (\<forall>c<length (m_cpus m). apic_rest (apic_at m' c) = apic_rest (apic_at m c) \<and>
      bitmap_set (apic_irr (apic_at m' c)) =
        (if c \<in> targets m dest dest_mode then insert v (bitmap_set (apic_irr (apic_at m c)))
         else bitmap_set (apic_irr (apic_at m c))))"
proof -
  let ?b = "apic_get_delivery_bitmask m dest dest_mode"
  obtain m' where m': "foreach_apic ?b (\<lambda>m c. apic_set_irq (Suc depth) m c v t) m = Inr m'" "machine_ok m'"
    "\<forall>c. apic_rest (apic_at m' c) = apic_rest (apic_at m c)"
    "\<forall>c<length (m_cpus m). bitmap_set (apic_irr (apic_at m' c)) =
      (if c < MAX_APIC_WORDS * 32 \<and> apic_get_bit ?b c then {v} else {}) \<union> bitmap_set (apic_irr (apic_at m c))"
    using foreach_set_irq[OF assms(1,4,5), of ?b depth t "MAX_APIC_WORDS * 32"] unfolding foreach_apic_def by blast
  have "apic_deliver_irq (Suc depth) m dest dest_mode APIC_DM_FIXED v t = Inr m'"
    using m'(1) by (simp add: apic_deliver_irq_def apic_bus_deliver_def del: apic_set_irq.simps)
  then show ?thesis using m' assms(3) delivery_bitmask_exact[OF assms(2,3)] by (intro exI[of _ m']) auto
qed

definition quiet_machine :: machine where
  "quiet_machine = upd_pic True (\<lambda>s. s\<lparr>pic_imr := 0xff\<rparr>) sample_machine"

lemma quiet_machine_facts [simp]:
  "machine_ok quiet_machine" "length (m_cpus quiet_machine) = 2" "\<not> pic_get_output (mc_isa_pic quiet_machine)"
  "c < 2 \<Longrightarrow> apic_at quiet_machine c = blank_apic c"
  using sample_machine_ok(1)
  by (simp_all add: quiet_machine_def) (simp add: upd_pic_def sample_machine_def pic_get_output_def pic_get_irq_def sample_pic_def)

theorem delivery_exact_witness:
  "\<exists>m'. apic_deliver_irq 1 quiet_machine 2 1 APIC_DM_FIXED 48 0 = Inr m' \<and>
    bitmap_set (apic_irr (apic_at m' 0)) = {} \<and> bitmap_set (apic_irr (apic_at m' 1)) = {48}"
proof -
  have "distinct_ids quiet_machine" by (simp add: distinct_ids_def upt_rec numeral_2_eq_2 blank_apic_def)
  moreover have "0 \<notin> targets quiet_machine 2 1" "1 \<in> targets quiet_machine 2 1"
    by (simp_all add: targets_def logical_match_def blank_apic_def)
  ultimately show ?thesis
    using delivery_exact[of quiet_machine 48 0 2 1 0] by (fastforce simp: blank_apic_def)
qed

section \<open>The acknowledge cycle\<close>

text \<open>The vector considered: during a test that of the thread the scheduler chose.\<close>

definition ack_vector :: "machine \<Rightarrow> env \<Rightarrow> int" where
  "ack_vector m c =
    (if ski_apic_process_incoming_interrupts (cpu_of (mc_ski m) c) then ski_threads_find_next_runnable_int (mc_ski m) c
     else get_highest_priority_int (apic_irr (apic_at m c)))"

lemma chosen_vector:
  assumes "ski_apic_process_incoming_interrupts (cpu_of (mc_ski m) c)" "0 \<le> ack_vector m c"
  shows "\<exists>i. ski_threads_current (mc_ski m) = Some i \<and> tc_is_int (tc_of (mc_ski m) i) \<noteq> 0 \<and>
    tc_cpu_no (tc_of (mc_ski m) i) = cpu_index (cpu_of (mc_ski m) c) \<and> tc_int_no (tc_of (mc_ski m) i) = ack_vector m c"
  using assms by (auto simp: ack_vector_def ski_threads_find_next_runnable_int_def split: option.splits if_splits)

text \<open>The ways in which the local controller answers, from the vector considered.\<close>

definition ack_stops :: "machine \<Rightarrow> env \<Rightarrow> ski_error option" where
  "ack_stops m c =
    (let n = ack_vector m c
     in if apic_enabled (apic_at m c) \<and> ski_apic_process_incoming_interrupts (cpu_of (mc_ski m) c) \<and> 0 \<le> n
        then if 255 < n then Some Out_of_bounds
             else if nat n \<notin> bitmap_set (apic_irr (apic_at m c)) \<and> opt_trap_enabled (mc_ski m) then Some Int3_trap
             else None
        else None)"

lemma get_interrupt_ack:
  "(if ski_active (cpu_of (mc_ski m) c) then ski_apic_get_interrupt depth m c
      else original_apic_get_interrupt depth m c) =
    (case ack_stops m c of
       Some e \<Rightarrow> Inl e
     | None \<Rightarrow> if \<not> apic_enabled (apic_at m c) then Inr (m, -1)
               else apic_ack depth m c (let irrv = ack_vector m c; ppr = apic_get_ppr (apic_at m c)
                 in if irrv < 0 then 0 else if ppr \<noteq> 0 \<and> irrv AND 0xf0 \<le> ppr AND 0xf0 then -1 else irrv))"
  by (auto simp: ack_stops_def ack_vector_def ski_apic_get_interrupt_def original_apic_get_interrupt_def apic_enabled_def
      Let_def ski_apic_irq_pending_def apic_irq_pending_def ski_apic_get_highest_priority_int_def SKI_ASSERT_def
      ski_apic_process_incoming_interrupts_def bitmap_set_def)

definition take_vector :: "machine \<Rightarrow> env \<Rightarrow> nat \<Rightarrow> machine" where
  "take_vector m c n = upd_apic c (\<lambda>a. a\<lparr>apic_irr := apic_reset_bit (apic_irr a) n,
     apic_isr := apic_set_bit (apic_isr a) n\<rparr>) m"

lemma take_vector_ok:
  assumes "machine_ok m" "c < length (m_cpus m)"
  shows "machine_ok (take_vector m c n)" "length (m_cpus (take_vector m c n)) = length (m_cpus m)"
    "apic_at (take_vector m c n) d = (if d = c then (apic_at m c)\<lparr>apic_irr := apic_reset_bit (apic_irr (apic_at m c)) n,
       apic_isr := apic_set_bit (apic_isr (apic_at m c)) n\<rparr> else apic_at m d)"
  using assms machine_okD(2)[OF assms]
  by (auto simp: take_vector_def apic_wf_def apic_bits.wf_set apic_bits.wf_reset intro!: ok_upd_apic)

text \<open>An update after a vector was taken: it may request the vector of the local line 0.\<close>

lemma update_after_take:
  assumes ok: "machine_ok m" and c: "c < length (m_cpus m)" and nd: "\<not> (update_recurses m c \<and> raise_diverges m c (lint0_vector (apic_at m c)))"
    and d: "2 \<le> depth"
  shows "\<exists>m'. apic_update_irq depth m c = Inr m' \<and> machine_ok m' \<and>
    apic_isr (apic_at m' c) = apic_isr (apic_at m c) \<and>
    bitmap_set (apic_irr (apic_at m' c)) =
      bitmap_set (apic_irr (apic_at m c)) \<union> (if update_recurses m c then {lint0_vector (apic_at m c)} else {}) \<and>
    (\<forall>e. e \<noteq> c \<longrightarrow> apic_at m' e = apic_at m e)"
proof (cases "update_recurses m c")
  case True
  let ?w = "lint0_vector (apic_at m c)" and ?t = "lint0_trigger (apic_at m c)"
  have nd': "\<not> raise_diverges m c ?w" using nd True by blast
  obtain m' where m': "apic_set_irq depth m c ?w ?t = Inr m'" using set_irq_returns[OF ok c _ nd', of ?t] d by auto
  note out = set_irq_outcome[OF ok c _ m']
  have rest: "apic_rest (apic_at m' c) = apic_rest (apic_at m c)" "\<forall>e. e \<noteq> c \<longrightarrow> apic_at m' e = apic_at m e"
    using out by (simp_all add: raise_frame_def)
  have "apic_isr (apic_rest (apic_at m' c)) = apic_isr (apic_rest (apic_at m c))" using rest(1) by simp
  then have "apic_isr (apic_at m' c) = apic_isr (apic_at m c)" by (simp add: apic_rest_def)
  moreover have "apic_update_irq depth m c = Inr m'" using True m' by (simp add: apic_update_irq_def update_irq_eq)
  ultimately show ?thesis using True out rest(2) by (auto split: if_splits)
next
  case False
  then have "apic_update_irq depth m c = Inr (update_flat m c)" by (simp add: apic_update_irq_def update_irq_eq)
  moreover have "machine_ok (update_flat m c)"
    using machine_ok_frame[OF ok, of c "update_flat m c"] machine_okD[OF ok] c by (simp add: raise_frame_def)
  ultimately show ?thesis using False by simp
qed

text \<open>What the 8259 controllers offer.\<close>

definition pic_offer :: "machine \<Rightarrow> int" where
  "pic_offer m =
    (let irq = pic_get_irq (mc_isa_pic m); irq2 = pic_get_irq (mc_slave_pic m)
     in if irq < 0 then uint (pic_irq_base (mc_isa_pic m)) + 7
        else if irq = 2 then uint (pic_irq_base (mc_slave_pic m)) + (if irq2 \<ge> 0 then irq2 else 7)
        else uint (pic_irq_base (mc_isa_pic m)) + irq)"

lemma set_irq_slave: "apic_set_irq depth m c v t = Inr m' \<Longrightarrow> mc_slave_pic m' = mc_slave_pic m"
proof (induction depth arbitrary: m v t m')
  case (Suc depth)
  then obtain m1 s' where "apic_update_irq_with (apic_set_irq depth) (raise_vector m c v t) c = Inr m1" "m' = m1\<lparr>mc_ski := s'\<rparr>"
    by (auto simp: bind_res_eq_Inr)
  then show ?case using Suc.IH by (auto simp: update_irq_eq split: if_splits)
qed simp

lemma deliver_pic_slave: "apic_deliver_pic_intr depth m c level = Inr m' \<Longrightarrow> mc_slave_pic m' = mc_slave_pic m"
  by (auto simp: apic_deliver_pic_intr_def apic_deliver_pic_intr_with_def apic_local_deliver_with_def Let_def set_irq_slave
      split: if_splits)

lemma irq_request_slave: "pic_irq_request depth m level = Inr m' \<Longrightarrow> mc_slave_pic m' = mc_slave_pic m"
  unfolding pic_irq_request_def
  by (erule fold_res_invariant[where P = "\<lambda>x. mc_slave_pic x = mc_slave_pic m"]) (auto simp: deliver_pic_slave split: if_splits)

lemma intack_slave_base:
  "pic_intack depth m False irq = Inr m' \<Longrightarrow> pic_irq_base (mc_slave_pic m') = pic_irq_base (mc_slave_pic m)"
  by (auto simp: pic_intack_def pic_update_irq_def upd_pic_def Let_def dest!: irq_request_slave) (simp_all add: pic_ack_def Let_def)

lemma read_irq_offer: "pic_read_irq depth m = Inr (m', v) \<Longrightarrow> v = pic_offer m"
  by (auto simp: pic_read_irq_def pic_offer_def Let_def bind_res_eq_Inr intack_slave_base split: if_splits)

text \<open>
  \<open>line_ok m r\<close>: an operation of the 8259 started in \<open>m\<close> returns a well-formed machine with the same
  lines, or exhausts the stack, which needs a local line 0 that is an unmasked fixed vector.
\<close>

definition line_ok :: "machine \<Rightarrow> machine res \<Rightarrow> bool" where
  "line_ok m r \<longleftrightarrow> (case r of
     Inl e \<Rightarrow> e = Stack_overflow \<and> (\<exists>d<length (m_cpus m). lint0_fixed (apic_at m d))
   | Inr m' \<Rightarrow> machine_ok m' \<and> length (m_cpus m') = length (m_cpus m) \<and>
       (\<forall>d. lint0_fixed (apic_at m' d) = lint0_fixed (apic_at m d)))"

lemma line_ok_bind:
  assumes "line_ok m r" "\<And>m'. r = Inr m' \<Longrightarrow> machine_ok m' \<Longrightarrow> length (m_cpus m') = length (m_cpus m) \<Longrightarrow> line_ok m' (f m')"
  shows "line_ok m (bind_res r f)"
  using assms by (cases r) (auto simp: line_ok_def split: sum.splits)

lemma line_ok_fold:
  assumes "machine_ok m" "length (m_cpus m) = l"
    and "\<And>m' x. x \<in> set xs \<Longrightarrow> machine_ok m' \<Longrightarrow> length (m_cpus m') = l \<Longrightarrow> line_ok m' (f m' x)"
  shows "line_ok m (fold_res f m xs)"
  using assms
proof (induction xs arbitrary: m)
  case (Cons x xs)
  show ?case unfolding fold_res.simps
    by (rule line_ok_bind) (use Cons in auto)
qed (simp add: line_ok_def)

lemma lint0_fixed_rest: "lint0_fixed (apic_rest a) = lint0_fixed a"
  by (simp add: lint0_fixed_def apic_rest_def)

lemma line_ok_set_irq:
  assumes ok: "machine_ok m" and c: "c < length (m_cpus m)" and v: "v < 256" and l: "lint0_fixed (apic_at m c)"
  shows "line_ok m (apic_set_irq depth m c v t)"
proof (cases "apic_set_irq depth m c v t")
  case (Inl e)
  have "e = Stack_overflow"
  proof (cases "raise_diverges m c v")
    case True
    then show ?thesis using set_irq_diverges[OF c machine_okD(2)[OF ok c] v True, of depth t] Inl by simp
  next
    case False
    have "depth < 2" using set_irq_returns[OF ok c v False, of t] Inl by (cases "2 \<le> depth") auto
    then have "depth = 0 \<or> depth = Suc 0" by auto
    then show ?thesis
      using Inl set_irq_flat[OF machine_okD(1)[OF ok] c, of v t]
      by (cases "update_recurses (raise_vector m c v t) c") (auto simp: update_irq_eq simp del: apic_set_irq.simps(2), auto simp: update_irq_eq)
  qed
  then show ?thesis using Inl c l by (auto simp: line_ok_def)
next
  case (Inr m')
  have f: "machine_ok m'" "raise_frame c m m'" using set_irq_outcome[OF ok c v Inr] by simp_all
  have "lint0_fixed (apic_at m' d) = lint0_fixed (apic_at m d)" for d
    using f(2) lint0_fixed_rest[of "apic_at m c"] lint0_fixed_rest[of "apic_at m' c"] by (cases "d = c") (simp_all add: raise_frame_def)
  then show ?thesis using Inr f by (simp add: line_ok_def raise_frame_def)
qed

lemma line_ok_deliver:
  assumes "machine_ok m" "c < length (m_cpus m)"
  shows "line_ok m (apic_deliver_pic_intr depth m c level)"
proof (cases "level \<and> lint0_fixed (apic_at m c)")
  case True
  then have "apic_deliver_pic_intr depth m c level =
      apic_set_irq depth m c (lint0_vector (apic_at m c)) (lint0_trigger (apic_at m c))"
    by (simp add: apic_deliver_pic_intr_def apic_deliver_pic_intr_with_def apic_local_deliver_with_def lint0_fixed_def
        lint0_vector_def lint0_trigger_def Let_def)
  then show ?thesis using line_ok_set_irq[OF assms] True by simp
next
  case False
  have "\<exists>m'. apic_deliver_pic_intr depth m c level = Inr m' \<and> (\<forall>d. lint0_fixed (apic_at m' d) = lint0_fixed (apic_at m d))"
    using False assms(2)
    by (auto simp: apic_deliver_pic_intr_def apic_deliver_pic_intr_with_def apic_local_deliver_with_def lint0_fixed_def Let_def)
  then show ?thesis using keeps_deliver_pic_intr[OF assms, of depth level] by (auto simp: line_ok_def)
qed

lemma line_ok_request:
  assumes "machine_ok m'" "apic_at m' = apic_at m" "m_cpus m' = m_cpus m"
  shows "line_ok m (pic_irq_request depth m' level)"
proof -
  have "line_ok m' (pic_irq_request depth m' level)"
    unfolding pic_irq_request_def by (rule line_ok_fold[OF assms(1) refl]) (auto simp: line_ok_deliver, simp add: line_ok_def)
  then show ?thesis unfolding line_ok_def assms(2,3) .
qed

lemma line_ok_intack: "machine_ok m \<Longrightarrow> line_ok m (pic_intack depth m master irq)"
  unfolding pic_intack_def pic_update_irq_def Let_def by (rule line_ok_request) simp_all

lemma line_ok_read_irq:
  assumes "machine_ok m"
  shows "line_ok m (bind_res (pic_read_irq depth m) (\<lambda>(m', v). Inr m'))"
proof (cases "0 \<le> pic_get_irq (mc_isa_pic m)")
  case True
  let ?irq = "pic_get_irq (mc_isa_pic m)" and ?irq2 = "pic_get_irq (mc_slave_pic m)"
  have "bind_res (pic_read_irq depth m) (\<lambda>(m', v). Inr m') =
      bind_res (if ?irq = 2 \<and> 0 \<le> ?irq2 then pic_intack depth m False (nat ?irq2) else Inr m)
        (\<lambda>m. pic_intack depth m True (nat ?irq))"
    using True by (simp add: pic_read_irq_def Let_def)
  moreover have "line_ok m (if ?irq = 2 \<and> 0 \<le> ?irq2 then pic_intack depth m False (nat ?irq2) else Inr m)"
    using assms line_ok_intack by (simp add: line_ok_def)
  ultimately show ?thesis using line_ok_bind line_ok_intack by metis
next
  case False
  then show ?thesis using assms by (simp add: pic_read_irq_def line_ok_def)
qed

lemma ack_less:
  assumes "machine_ok m" "c < length (m_cpus m)" "ack_stops m c = None" "apic_enabled (apic_at m c)"
  shows "ack_vector m c < 256"
proof (cases "ski_apic_process_incoming_interrupts (cpu_of (mc_ski m) c)")
  case True
  then show ?thesis using assms(3,4) by (auto simp: ack_stops_def Let_def split: if_splits)
next
  case False
  then show ?thesis
    using highest_bounds(1) machine_okD(2)[OF assms(1,2)] by (simp add: ack_vector_def apic_wf_def)
qed

lemma ack_taken:
  assumes ok: "machine_ok m" and c: "c < length (m_cpus m)" and none: "ack_stops m c = None"
    and en: "apic_enabled (apic_at m c)" and b: "beats (apic_at m c) (ack_vector m c)"
  defines "n \<equiv> ack_vector m c" and "m1 \<equiv> take_vector m c (nat (ack_vector m c))" and "w \<equiv> lint0_vector (apic_at m c)"
  shows "if update_recurses m1 c \<and> raise_diverges m1 c w then cpu_get_pic_interrupt depth m c = Inl Stack_overflow
    else 2 \<le> depth \<longrightarrow> (\<exists>m'. cpu_get_pic_interrupt depth m c = Inr (m', n) \<and> machine_ok m' \<and>
      bitmap_set (apic_isr (apic_at m' c)) = insert (nat n) (bitmap_set (apic_isr (apic_at m c))) \<and>
      bitmap_set (apic_irr (apic_at m' c)) =
        bitmap_set (apic_irr (apic_at m c)) - {nat n} \<union> (if update_recurses m1 c then {w} else {}) \<and>
      (\<forall>d. d \<noteq> c \<longrightarrow> apic_at m' d = apic_at m d))"
proof -
  note m1 = take_vector_ok[OF ok c, of "nat n", folded m1_def[folded n_def]]
  have wf: "apic_wf (apic_at m c)" by (rule machine_okD(2)[OF ok c])
  have n: "0 < n" "nat n < 256" using ack_less[OF ok c none en] b by (auto simp: n_def beats_def)
  have w: "lint0_vector (apic_at m1 c) = w" "w < 256" using m1(3) by (simp_all add: w_def lint0_vector_def word32_and_ff)
  have sets: "bitmap_set (apic_isr (apic_at m1 c)) = insert (nat n) (bitmap_set (apic_isr (apic_at m c)))"
    "bitmap_set (apic_irr (apic_at m1 c)) = bitmap_set (apic_irr (apic_at m c)) - {nat n}"
    using m1(3) n wf by (simp_all add: apic_wf_def)
  have "(let irrv = n; ppr = apic_get_ppr (apic_at m c)
      in if irrv < 0 then 0 else if ppr \<noteq> 0 \<and> irrv AND 0xf0 \<le> ppr AND 0xf0 then -1 else irrv) = n"
    using b n by (auto simp: beats_def n_def Let_def)
  then have r: "cpu_get_pic_interrupt depth m c = bind_res (apic_update_irq depth m1 c) (\<lambda>m. Inr (m, n))"
    using none en n unfolding cpu_get_pic_interrupt_def get_interrupt_ack
    by (simp add: apic_ack_def n_def m1_def take_vector_def)
  show ?thesis
  proof (cases "update_recurses m1 c \<and> raise_diverges m1 c w")
    case True
    then have "apic_update_irq depth m1 c = Inl Stack_overflow"
      using set_irq_diverges[of c m1 w depth] m1 c w machine_okD(2)[OF m1(1), of c] by (simp add: apic_update_irq_def update_irq_eq)
    then show ?thesis using True r by simp
  next
    case False
    then have "\<not> (update_recurses m1 c \<and> raise_diverges m1 c (lint0_vector (apic_at m1 c)))" using w by simp
    from update_after_take[OF m1(1) _ this, of depth] show ?thesis using False r c m1(2,3) sets w(1) by auto
  qed
qed

lemma ack_spurious:
  assumes "ack_stops m c = None" "apic_enabled (apic_at m c)" "\<not> beats (apic_at m c) (ack_vector m c)"
    "0 \<le> ack_vector m c" "ack_vector m c \<noteq> 0 \<or> apic_get_ppr (apic_at m c) \<noteq> 0"
    and p: "0 \<le> apic_get_ppr (apic_at m c)"
  shows "cpu_get_pic_interrupt depth m c = Inr (m, uint (apic_spurious_vec (apic_at m c) AND 0xff))"
proof -
  have "apic_get_ppr (apic_at m c) \<noteq> 0 \<and> ack_vector m c AND 0xf0 \<le> apic_get_ppr (apic_at m c) AND 0xf0"
    using assms by (cases "ack_vector m c = 0") (auto simp: beats_def)
  then show ?thesis using assms unfolding cpu_get_pic_interrupt_def get_interrupt_ack by (simp add: apic_ack_def)
qed

lemma ack_through:
  assumes "ack_stops m c = None" "\<not> (apic_enabled (apic_at m c) \<and> 0 \<le> ack_vector m c \<and>
      (ack_vector m c \<noteq> 0 \<or> apic_get_ppr (apic_at m c) \<noteq> 0))"
  shows "cpu_get_pic_interrupt depth m c =
    (if \<not> apic_accept_pic_intr (apic_at m c) then Inr (m, -1) else pic_read_irq depth m)"
  using assms unfolding cpu_get_pic_interrupt_def get_interrupt_ack by (auto simp: apic_ack_def Let_def)

lemma ppr_nonneg: "bitmap_wf (apic_isr a) \<Longrightarrow> 0 \<le> apic_get_ppr a"
  by (simp add: apic_get_ppr_def Let_def)

lemma read_irq_result:
  assumes "machine_ok m"
  shows "\<not> pic_get_output (mc_isa_pic m) \<Longrightarrow> pic_read_irq depth m = Inr (m, uint (pic_irq_base (mc_isa_pic m)) + 7)"
    "case pic_read_irq depth m of
       Inl e \<Rightarrow> e = Stack_overflow \<and> (\<exists>d<length (m_cpus m). lint0_fixed (apic_at m d))
     | Inr (m', v) \<Rightarrow> v = pic_offer m \<and> machine_ok m'"
  using line_ok_read_irq[OF assms, of depth] read_irq_offer[of depth m]
  by (simp add: pic_get_output_def pic_read_irq_def, cases "pic_read_irq depth m") (auto simp: line_ok_def)

text \<open>
  C17: the acknowledge cycle, in every well-formed machine.  The vector considered is, during a test,
  that of the current thread if this is an interrupt thread of the CPU, and outside a test the
  highest request.  An enabled local controller stops the run if this vector has no register
  bit or, with traps enabled, is not requested.  If it beats the priority of the task and of the
  vectors in service, the CPU gets it and it moves from the requests to the vectors in service;
  no other CPU is affected, and with a pending 8259 the vector of local line 0 may be
  requested in its turn.  This ends within two calls unless it recurses for ever.  A vector
  that does not beat the priority gives the spurious vector.  If there is none, or the
  controller is disabled, the CPU gets no vector, or that of the 8259 where it accepts
  interrupts from it.  This does not ask whether a test runs; the CPU loop (\<open>vmm/cpu-exec.c\<close>,
  line 1719) asserts before the call that the scheduler's vector beats the priority.  The 8259
  is then acknowledged, which returns unless some local line 0 is an unmasked fixed vector.
\<close>

theorem acknowledge_cycle:
  assumes ok: "machine_ok m" and c: "c < length (m_cpus m)"
  shows "let n = ack_vector m c; a = apic_at m c; r = cpu_get_pic_interrupt depth m c;
      testing = ski_apic_process_incoming_interrupts (cpu_of (mc_ski m) c)
    in (testing \<and> 0 \<le> n \<longrightarrow> (\<exists>i. ski_threads_current (mc_ski m) = Some i \<and> tc_is_int (tc_of (mc_ski m) i) \<noteq> 0 \<and>
         tc_cpu_no (tc_of (mc_ski m) i) = cpu_index (cpu_of (mc_ski m) c) \<and> tc_int_no (tc_of (mc_ski m) i) = n)) \<and>
      (if apic_enabled a \<and> testing \<and> 255 < n then r = Inl Out_of_bounds
       else if apic_enabled a \<and> testing \<and> 0 \<le> n \<and> nat n \<notin> bitmap_set (apic_irr a) \<and> opt_trap_enabled (mc_ski m)
       then r = Inl Int3_trap
       else if apic_enabled a \<and> beats a n
       then let m1 = take_vector m c (nat n); w = lint0_vector a
         in if update_recurses m1 c \<and> raise_diverges m1 c w then r = Inl Stack_overflow
            else 2 \<le> depth \<longrightarrow> (\<exists>m'. r = Inr (m', n) \<and> machine_ok m' \<and>
              bitmap_set (apic_isr (apic_at m' c)) = insert (nat n) (bitmap_set (apic_isr a)) \<and>
              bitmap_set (apic_irr (apic_at m' c)) =
                bitmap_set (apic_irr a) - {nat n} \<union> (if update_recurses m1 c then {w} else {}) \<and>
              (\<forall>d. d \<noteq> c \<longrightarrow> apic_at m' d = apic_at m d))
       else if apic_enabled a \<and> 0 \<le> n \<and> (n \<noteq> 0 \<or> apic_get_ppr a \<noteq> 0)
       then r = Inr (m, uint (apic_spurious_vec a AND 0xff))
       else if \<not> apic_accept_pic_intr a then r = Inr (m, -1)
       else if \<not> pic_get_output (mc_isa_pic m) then r = Inr (m, uint (pic_irq_base (mc_isa_pic m)) + 7)
       else case r of
           Inl e \<Rightarrow> e = Stack_overflow \<and> (\<exists>d<length (m_cpus m). lint0_fixed (apic_at m d))
         | Inr (m', v) \<Rightarrow> v = pic_offer m \<and> machine_ok m')"
proof -
  let ?testing = "ski_apic_process_incoming_interrupts (cpu_of (mc_ski m) c)" and ?n = "ack_vector m c" and ?a = "apic_at m c"
  define stop1 where "stop1 \<longleftrightarrow> apic_enabled ?a \<and> ?testing \<and> 255 < ?n"
  define stop2 where "stop2 \<longleftrightarrow>
    apic_enabled ?a \<and> ?testing \<and> 0 \<le> ?n \<and> nat ?n \<notin> bitmap_set (apic_irr ?a) \<and> opt_trap_enabled (mc_ski m)"
  have stops: "ack_stops m c = (if stop1 then Some Out_of_bounds else if stop2 then Some Int3_trap else None)"
    by (auto simp: ack_stops_def stop1_def stop2_def Let_def)
  have stopped: "cpu_get_pic_interrupt depth m c = Inl e" if "ack_stops m c = Some e" for e
    using that unfolding cpu_get_pic_interrupt_def get_interrupt_ack by simp
  have ppr: "0 \<le> apic_get_ppr ?a" using machine_okD(2)[OF ok c] ppr_nonneg by (simp add: apic_wf_def)
  note read = read_irq_result[OF ok, of depth]
  have chosen: "?testing \<and> 0 \<le> ?n \<longrightarrow> (\<exists>i. ski_threads_current (mc_ski m) = Some i \<and> tc_is_int (tc_of (mc_ski m) i) \<noteq> 0 \<and>
      tc_cpu_no (tc_of (mc_ski m) i) = cpu_index (cpu_of (mc_ski m) c) \<and> tc_int_no (tc_of (mc_ski m) i) = ?n)"
    using chosen_vector by blast
  let ?spur = "apic_enabled ?a \<and> 0 \<le> ?n \<and> (?n \<noteq> 0 \<or> apic_get_ppr ?a \<noteq> 0)"
  consider (stop1) stop1 | (stop2) "\<not> stop1" stop2 | (none) "\<not> stop1" "\<not> stop2" by blast
  then show ?thesis unfolding Let_def stop1_def[symmetric] stop2_def[symmetric]
  proof (cases, goal_cases)
    case 1
    then show ?case using chosen stopped stops by simp
  next
    case 2
    then show ?case using chosen stopped stops by simp
  next
    case 3
    then have ns: "ack_stops m c = None" using stops by simp
    consider (taken) "apic_enabled ?a \<and> beats ?a ?n" | (spur) "\<not> (apic_enabled ?a \<and> beats ?a ?n)" ?spur
      | (through) "\<not> (apic_enabled ?a \<and> beats ?a ?n)" "\<not> ?spur" by blast
    then show ?case unfolding if_not_P[OF 3(1)] if_not_P[OF 3(2)]
    proof (cases, goal_cases)
      case 1
      show ?case unfolding if_P[OF 1]
        by (rule conjI[OF chosen ack_taken[OF ok c ns conjunct1[OF 1] conjunct2[OF 1]]])
    next
      case 2
      have "cpu_get_pic_interrupt depth m c = Inr (m, uint (apic_spurious_vec ?a AND 0xff))"
        by (rule ack_spurious[OF ns _ _ _ _ ppr]) (use 2 in auto)
      then show ?case unfolding if_not_P[OF 2(1)] if_P[OF 2(2)] using chosen by blast
    next
      case 3
      note r = ack_through[OF ns 3(2), of depth]
      show ?case unfolding if_not_P[OF 3(1)] if_not_P[OF 3(2)] r using chosen read by (simp only: if_True if_False split: if_split) simp
    qed
  qed
qed

definition pending_machine :: machine where
  "pending_machine = upd_apic 0 (\<lambda>a. a\<lparr>apic_irr := apic_set_bit (apic_set_bit zero_bitmap 33) 200\<rparr>) quiet_machine"

text \<open>Local line 0 of CPU 1 in external mode: the scheduler runs the interrupt thread of CPU 0.\<close>

definition extint_machine :: machine where
  "extint_machine = upd_apic 1 (\<lambda>a. a\<lparr>apic_lvt := (apic_lvt a)[APIC_LVT_LINT0 := 0x700]\<rparr>) sample_machine"

lemma ack_samples:
  "machine_ok pending_machine" "machine_ok extint_machine"
  "length (m_cpus pending_machine) = 2" "length (m_cpus extint_machine) = 2"
  "ack_vector pending_machine 0 = 33" "ack_vector extint_machine (Suc 0) = -1"
  "ski_apic_process_incoming_interrupts (cpu_of (mc_ski extint_machine) (Suc 0))"
proof -
  show "machine_ok pending_machine" "machine_ok extint_machine"
    unfolding pending_machine_def extint_machine_def using sample_machine_ok(1)
    by (auto intro!: ok_upd_apic simp: apic_wf_def apic_bits.wf_set)
  show "length (m_cpus pending_machine) = 2" "length (m_cpus extint_machine) = 2"
    by (simp_all add: pending_machine_def extint_machine_def)
  show "ack_vector pending_machine 0 = 33" "ack_vector extint_machine (Suc 0) = -1"
    "ski_apic_process_incoming_interrupts (cpu_of (mc_ski extint_machine) (Suc 0))"
    by (simp_all add: ack_vector_def ski_apic_process_incoming_interrupts_def ski_threads_find_next_runnable_int_def
        pending_machine_def extint_machine_def quiet_machine_def sample_machine_def upd_apic_def upd_env_def upd_pic_def
        blank_cpu_def blank_sc_def blank_tc_def)
qed

theorem acknowledge_cycle_witness:
  "(\<exists>m'. cpu_get_pic_interrupt 2 pending_machine 0 = Inr (m', 33) \<and>
      bitmap_set (apic_isr (apic_at m' 0)) = {33} \<and> bitmap_set (apic_irr (apic_at m' 0)) = {200}) \<and>
   ski_apic_process_incoming_interrupts (cpu_of (mc_ski extint_machine) (Suc 0)) \<and>
   (\<exists>m'. cpu_get_pic_interrupt 2 extint_machine (Suc 0) = Inr (m', 35))"
proof (intro conjI)
  have apic: "apic_at pending_machine 0 = (blank_apic 0)\<lparr>apic_irr := apic_set_bit (apic_set_bit zero_bitmap 33) 200\<rparr>"
    by (simp add: pending_machine_def)
  have irr: "bitmap_set (apic_set_bit (apic_set_bit zero_bitmap 33) 200) = {33, 200}"
    by (simp add: apic_bits.wf_set insert_commute)
  have rec: "\<not> update_recurses (take_vector pending_machine 0 33) 0"
    by (simp add: update_recurses_def take_vector_def pending_machine_def)
  have "apic_enabled (apic_at pending_machine 0)" "beats (apic_at pending_machine 0) 33"
    by (simp_all add: apic apic_enabled_def beats_def blank_apic_def apic_get_ppr_def)
  moreover have "apic_irr (apic_at pending_machine 0) = apic_set_bit (apic_set_bit zero_bitmap 33) 200"
    "apic_isr (apic_at pending_machine 0) = zero_bitmap" by (simp_all add: apic blank_apic_def)
  ultimately show "\<exists>m'. cpu_get_pic_interrupt 2 pending_machine 0 = Inr (m', 33) \<and>
      bitmap_set (apic_isr (apic_at m' 0)) = {33} \<and> bitmap_set (apic_irr (apic_at m' 0)) = {200}"
    using acknowledge_cycle[OF ack_samples(1), of 0 2] ack_samples irr rec by auto
next
  show "ski_apic_process_incoming_interrupts (cpu_of (mc_ski extint_machine) (Suc 0))" by (rule ack_samples)
next
  have apic: "apic_at extint_machine (Suc 0) = (blank_apic 1)\<lparr>apic_lvt := (replicate 6 0x10000)[3 := 0x700]\<rparr>"
    "apic_at extint_machine 0 = blank_apic 0"
    by (simp_all add: extint_machine_def blank_apic_def)
  have pic: "mc_isa_pic extint_machine = sample_pic" by (simp add: extint_machine_def sample_machine_def)
  have irq: "pic_get_irq sample_pic = 3"
    by (simp add: pic_get_irq_def get_priority_def get_priority_from.simps sample_pic_def and7_nat Let_def)
  have out: "pic_get_output (mc_isa_pic extint_machine)" "pic_offer extint_machine = 35"
    using irq by (simp_all add: pic pic_get_output_def pic_offer_def) (simp add: sample_pic_def)
  have "apic_accept_pic_intr (apic_at extint_machine (Suc 0))" by (simp add: apic apic_accept_pic_intr_def)
  moreover have "\<not> lint0_fixed (apic_at extint_machine d)" if "d < 2" for d
    using that by (auto simp: less_2_cases_iff apic lint0_fixed_def blank_apic_def)
  ultimately show "\<exists>m'. cpu_get_pic_interrupt 2 extint_machine (Suc 0) = Inr (m', 35)"
    using acknowledge_cycle[OF ack_samples(2), of "Suc 0" 2] ack_samples out
    by (auto simp: beats_def Let_def split: sum.splits prod.splits)
qed

section \<open>The timer\<close>

lemma int64_id: "- (2 ^ 63) \<le> v \<Longrightarrow> v < 2 ^ 63 \<Longrightarrow> int64 v = v"
  by (simp add: int64_def sint_sbintrunc' signed_take_bit_int_eq_self)

definition timer_period :: "APICState \<Rightarrow> int" where
  "timer_period a = (uint (apic_initial_count a) + 1) * 2 ^ apic_count_shift a"

lemma next_period:
  assumes "0 < (p::int)" "0 \<le> x"
  shows "x < (x div p + 1) * p" "(x div p + 1) * p \<le> x + p"
proof -
  have "(x div p + 1) * p = x - x mod p + p" by (simp only: distrib_right minus_mod_eq_div_mult mult_1)
  moreover have "0 \<le> x mod p" "x mod p < p" using assms by simp_all
  ultimately show "x < (x div p + 1) * p" "(x div p + 1) * p \<le> x + p" by linarith+
qed

lemma periodic_expiry:
  fixes load t ic :: int
  assumes "0 \<le> load" "load \<le> t" "0 \<le> ic" "t + (ic + 1) * 2 ^ s < 2 ^ 63"
  shows "int64 (load + int64 (push_bit s (int64 ((drop_bit s (int64 (t - load)) mod 2 ^ 64 div (ic + 1) + 1) * (ic + 1))))) =
    load + ((t - load) div ((ic + 1) * 2 ^ s) + 1) * ((ic + 1) * 2 ^ s)"
proof -
  let ?P = "(ic + 1) * 2 ^ s" and ?x = "t - load"
  let ?q = "?x div ?P"
  have P: "0 < ?P" "ic + 1 \<le> ?P" using assms(3) by (simp_all add: mult_le_cancel_left1)
  have x: "0 \<le> ?x" "?x < 2 ^ 63" using assms P(1) by linarith+
  have d: "drop_bit s (int64 ?x) = ?x div 2 ^ s" using x by (simp add: int64_id drop_bit_eq_div)
  have dle: "0 \<le> ?x div 2 ^ s" "?x div 2 ^ s \<le> ?x"
    using x(1) zdiv_mono2[of ?x 1 "2 ^ s"] by (simp_all add: pos_imp_zdiv_nonneg_iff)
  then have dm: "(?x div 2 ^ s) mod 2 ^ 64 = ?x div 2 ^ s" using x(2) by (intro mod_pos_pos_trivial) simp_all
  have q: "?x div 2 ^ s div (ic + 1) = ?q" using assms(3) by (simp add: zdiv_zmult2_eq[symmetric] mult.commute)
  have e: "?x < (?q + 1) * ?P" "(?q + 1) * ?P \<le> ?x + ?P" using next_period[OF P(1) x(1)] by simp_all
  have q0: "0 \<le> ?q" using x P by (simp add: pos_imp_zdiv_nonneg_iff)
  then have s: "0 \<le> (?q + 1) * (ic + 1)" "(?q + 1) * (ic + 1) \<le> (?q + 1) * ?P"
    using assms(3) P(2) by (simp_all add: mult_left_mono)
  have "int64 ((?q + 1) * (ic + 1)) = (?q + 1) * (ic + 1)" using s e assms by (intro int64_id) auto
  moreover have "int64 (push_bit s ((?q + 1) * (ic + 1))) = (?q + 1) * ?P"
    using e x assms by (subst int64_id) (simp_all add: push_bit_eq_mult ac_simps)
  moreover have "int64 (load + (?q + 1) * ?P) = load + (?q + 1) * ?P"
    using e x assms by (intro int64_id) auto
  ultimately show ?thesis by (simp only: d dm q)
qed

text \<open>
  C38: the timer.  As long as the clock is far from the end of its range, a masked timer and one
  with count 0 are not programmed.  A periodic timer expires at the first multiple of the
  period after the current time, counted from the moment the count was loaded; a one-shot
  timer expires one period after that moment, and not at all once the count has run down.
\<close>

theorem timer_expiry_exact:
  assumes "0 \<le> apic_initial_count_load_time a" and "apic_initial_count_load_time a \<le> t"
    and "t + timer_period a < 2 ^ 63"
  shows "timer_expiry a t =
      (let load = apic_initial_count_load_time a; p = timer_period a
       in if apic_lvt a ! APIC_LVT_TIMER AND APIC_LVT_MASKED \<noteq> 0 \<or> apic_initial_count a = 0 then None
          else if apic_lvt a ! APIC_LVT_TIMER AND APIC_LVT_TIMER_PERIODIC \<noteq> 0
          then Some (load + ((t - load) div p + 1) * p)
          else if (t - load) div 2 ^ apic_count_shift a < uint (apic_initial_count a) then Some (load + p) else None) \<and>
    (\<forall>e. timer_expiry a t = Some e \<longrightarrow> t < e \<and> e \<le> t + timer_period a)"
proof -
  let ?load = "apic_initial_count_load_time a" and ?ic = "uint (apic_initial_count a)" and ?s = "apic_count_shift a"
  let ?p = "timer_period a"
  have p: "0 < ?p" by (simp add: timer_period_def)
  then have x: "0 \<le> t - ?load" "t - ?load < 2 ^ 63" using assms by linarith+
  have ic0: "?ic = 0 \<longleftrightarrow> apic_initial_count a = 0" by (simp add: uint_0_iff)
  have d: "drop_bit ?s (int64 (t - ?load)) = (t - ?load) div 2 ^ ?s" using x by (simp add: int64_id drop_bit_eq_div)
  have per: "int64 (?load + int64 (push_bit ?s (int64 ((drop_bit ?s (int64 (t - ?load)) mod 2 ^ 64 div (?ic + 1) + 1) * (?ic + 1))))) =
      ?load + ((t - ?load) div ?p + 1) * ?p"
    using periodic_expiry[of ?load t ?ic ?s] assms by (simp only: timer_period_def uint_ge_0 simp_thms)
  have one: "int64 (?load + int64 (push_bit ?s (?ic + 1))) = ?load + ?p"
  proof -
    have "push_bit ?s (?ic + 1) = ?p" by (simp add: push_bit_eq_mult timer_period_def)
    moreover have "int64 ?p = ?p" "int64 (?load + ?p) = ?load + ?p" using assms p by (intro int64_id; linarith)+
    ultimately show ?thesis by simp
  qed
  have eq: "timer_expiry a t =
      (if apic_lvt a ! APIC_LVT_TIMER AND APIC_LVT_MASKED \<noteq> 0 \<or> apic_initial_count a = 0 then None
       else if apic_lvt a ! APIC_LVT_TIMER AND APIC_LVT_TIMER_PERIODIC \<noteq> 0
       then Some (?load + ((t - ?load) div ?p + 1) * ?p)
       else if (t - ?load) div 2 ^ ?s < ?ic then Some (?load + ?p) else None)"
    using ic0 x unfolding timer_expiry_def Let_def per one by (auto simp: d pos_imp_zdiv_nonneg_iff not_le)
  have "t < ?load + ((t - ?load) div ?p + 1) * ?p \<and> ?load + ((t - ?load) div ?p + 1) * ?p \<le> t + ?p"
    using next_period[OF p x(1)] by auto
  moreover have "t < ?load + ?p \<and> ?load + ?p \<le> t + ?p" if "(t - ?load) div 2 ^ ?s < ?ic"
  proof -
    have "((t - ?load) div 2 ^ ?s + 1) * 2 ^ ?s \<le> ?ic * 2 ^ ?s" using that by (intro mult_right_mono) simp_all
    then have "t - ?load < ?ic * 2 ^ ?s" using next_period(1)[OF zero_less_power x(1), of 2 ?s]
      by (meson order_less_le_trans zero_less_numeral)
    moreover have "?p = ?ic * 2 ^ ?s + 2 ^ ?s" by (simp add: timer_period_def distrib_right)
    moreover have "0 < (2::int) ^ ?s" by simp
    ultimately show ?thesis using x(1) by linarith
  qed
  ultimately show ?thesis using eq by (auto simp: Let_def split: if_splits)
qed

theorem timer_expiry_exact_witness:
  "timer_expiry ((blank_apic 0)\<lparr>apic_initial_count := 9, apic_count_shift := 1, apic_lvt := replicate 6 0x20000\<rparr>) 45 = Some 60"
  using timer_expiry_exact[of "(blank_apic 0)\<lparr>apic_initial_count := 9, apic_count_shift := 1, apic_lvt := replicate 6 0x20000\<rparr>" 45]
  by (simp add: blank_apic_def timer_period_def)

end
