(* ===== verification/Ski_Forkall.thy ===== *)
theory Ski_Forkall
  imports Ski_Stats Ski_Input
begin

text \<open>
  The exploration loop (\<open>vmm/vl.c\<close>): the parent process forks one child per test, keeps a
  bounded number of them running, collects their statistics from the slot of the child that
  ended, learns from them where to preempt, and exits after the last round.  The operating
  system is a parameter: the identifier that \<open>fork\<close> returns, and for every call of \<open>wait\<close>
  the child that ended with what it had written to its slot.  The set of children not yet
  waited for is part of the state.  Messages and report files are output.
\<close>

section \<open>State\<close>

record forkall =
  fa_stats :: "ski_stats list"
  fa_self :: nat
  fa_available :: int
  fa_next_slot :: int
  fa_round :: int
  fa_rounds :: int
  fa_concurrency :: nat
  fa_k :: int
  fa_k_initial :: int
  fa_ipfilter :: "32 word list"
  fa_ipfilter_backup :: "32 word list"
  fa_input :: input_state
  fa_children :: "int list"

text \<open>The result of a call of \<open>wait\<close> and the statistics that the child left in its slot.\<close>

record wait_result =
  wr_pid :: int
  wr_signaled :: bool
  wr_exit :: int
  wr_points :: int
  wr_communication :: "32 word list"

datatype parent_result = Fork_again forkall | Exited int forkall

abbreviation (input) SKI_EXIT_OTHER :: int where "SKI_EXIT_OTHER \<equiv> -1"

section \<open>The filter of preemption points\<close>

definition ski_eipfilter_add :: "32 word list \<Rightarrow> 32 word \<Rightarrow> 32 word list res" where
  "ski_eipfilter_add hash eip =
    (if eip \<in> set hash then Inr hash
     else bind_res (c_assert (length hash < MAX_IPFILTER_HASH)) (\<lambda>_. Inr (hash @ [eip])))"

definition ski_eipfilter_add_stats :: "32 word list \<Rightarrow> ski_stats \<Rightarrow> 32 word list res" where
  "ski_eipfilter_add_stats hash st = fold_res ski_eipfilter_add hash (ss_communication_instructions st)"

definition is_hex :: "char \<Rightarrow> bool" where
  "is_hex c \<longleftrightarrow> is_digit c \<or> c \<in> set ''abcdefABCDEF''"

definition hex_digit :: "char \<Rightarrow> int" where
  "hex_digit c = (if is_digit c then of_char c - 48 else if (of_char c :: int) \<ge> 97 then of_char c - 87 else of_char c - 55)"

text \<open>\<open>sscanf\<close> with \<open>%x\<close>: a prefix \<open>0x\<close> alone reads as 0.\<close>

definition scan_hex :: "string \<Rightarrow> 32 word option" where
  "scan_hex s =
    (case scan_sign (dropWhile is_space s) of (neg, u) \<Rightarrow>
       let prefixed = (take 2 u = ''0x'' \<or> take 2 u = ''0X'');
           ds = takeWhile is_hex (if prefixed then drop 2 u else u);
           v = min (2 ^ 64 - 1) (foldl (\<lambda>a c. 16 * a + hex_digit c) 0 ds)
       in if ds = [] then (if prefixed then Some 0 else None)
          else Some (word_of_int (if neg then - v else v)))"

definition strip_comment :: "string \<Rightarrow> string" where
  "strip_comment l = takeWhile (\<lambda>c. c \<noteq> CHR ''#'') l"

text \<open>The argument is the list of lines that \<open>fgets\<close> returns, or \<open>None\<close> if the file cannot be opened.\<close>

fun load_filter_lines :: "32 word list \<Rightarrow> string list \<Rightarrow> 32 word list res" where
  "load_filter_lines hash [] = Inr hash"
| "load_filter_lines hash (l # ls) =
    bind_res (c_assert (length hash < MAX_IPFILTER_HASH)) (\<lambda>_.
      case scan_hex (strip_comment l) of
        None \<Rightarrow> Inl Assert_failed
      | Some eip \<Rightarrow> load_filter_lines (hash @ [eip]) ls)"

definition ski_ipfilter_loadfile_hash :: "forkall \<Rightarrow> string list option \<Rightarrow> forkall res" where
  "ski_ipfilter_loadfile_hash p file =
    (case file of
       None \<Rightarrow> Inl Assert_failed
     | Some ls \<Rightarrow> bind_res (load_filter_lines (fa_ipfilter p) ls) (\<lambda>hash.
         Inr (p\<lparr>fa_ipfilter := hash,
                fa_ipfilter_backup := fa_ipfilter_backup p @ drop (length (fa_ipfilter p)) hash\<rparr>)))"

definition ski_ipfilter_restore :: "forkall \<Rightarrow> forkall" where
  "ski_ipfilter_restore p = p\<lparr>fa_ipfilter := fa_ipfilter_backup p\<rparr>"

definition ski_eipfilter_count_entries :: "forkall \<Rightarrow> int" where
  "ski_eipfilter_count_entries p = int (length (fa_ipfilter p))"

section \<open>Preemption points of a child\<close>

text \<open>\<open>rs\<close> are the numbers that the generator of the C library gives, three per point.\<close>

definition forkall_random :: "int \<times> int \<times> int \<Rightarrow> int" where
  "forkall_random t = (case t of (a, b, c) \<Rightarrow> ((((a * 1000) XOR b) * 1000) XOR c))"

definition preemption_point :: "int \<Rightarrow> int list \<Rightarrow> int \<times> int \<times> int \<Rightarrow> int list res" where
  "preemption_point k points t =
    (if k = 0 then Inl Div_by_zero
     else let point = int32 (c_rem (forkall_random t) k + 1)
          in bind_res (c_assert (point > 0)) (\<lambda>_. Inr (points @ [point])))"

definition ski_forkall_init_preemptionlist :: "int \<Rightarrow> (int \<times> int \<times> int) list \<Rightarrow> int list res" where
  "ski_forkall_init_preemptionlist k rs =
    bind_res (c_assert (length rs < SKI_MAX_PREEMPTION_POINTS)) (\<lambda>_. fold_res (preemption_point k) [] rs)"

section \<open>The parent\<close>

definition upd_slot :: "nat \<Rightarrow> (ski_stats \<Rightarrow> ski_stats) \<Rightarrow> forkall \<Rightarrow> forkall" where
  "upd_slot i f p = p\<lparr>fa_stats := (fa_stats p)[i := f (fa_stats p ! i)]\<rparr>"

text \<open>The start of the loop: the slots are initialised and all of them are available.\<close>

definition forkall_start :: "32 word list option \<Rightarrow> forkall \<Rightarrow> forkall res" where
  "forkall_start addresses p =
    bind_res (ski_stats_init_all addresses (fa_concurrency p)) (\<lambda>all.
      Inr (p\<lparr>fa_stats := all, fa_available := int (fa_concurrency p), fa_next_slot := 0, fa_children := []\<rparr>))"

text \<open>From \<open>forkall_do_fork\<close> to the fork.\<close>

definition forkall_prepare :: "forkall \<Rightarrow> (forkall \<times> bool) res" where
  "forkall_prepare p =
    bind_res (ski_stats_set_self_slot (fa_stats p) (fa_next_slot p)) (\<lambda>self.
    bind_res (ski_input_fork_init (fa_input p)) (\<lambda>(inp, new_input).
      let p = p\<lparr>fa_self := self, fa_input := inp\<rparr>;
          p = (if new_input then (ski_ipfilter_restore p)\<lparr>fa_k := fa_k_initial p\<rparr> else p);
          p = upd_slot self (\<lambda>st. ski_stats_start st [fst (options_input_number inp), snd (options_input_number inp)]) p;
          p = upd_slot self (\<lambda>st. st\<lparr>ss_preemption_list_size := ski_eipfilter_count_entries p\<rparr>) p
      in Inr (p, new_input)))"

text \<open>What \<open>wait\<close> does: the child is gone, and its slot holds what it wrote.\<close>

definition os_wait :: "wait_result \<Rightarrow> forkall \<Rightarrow> forkall" where
  "os_wait w p = p\<lparr>fa_children := remove1 (wr_pid w) (fa_children p),
    fa_stats := map (\<lambda>st. if ss_pid st = wr_pid w
      then st\<lparr>ss_preemption_points_executed := wr_points w, ss_communication_instructions := wr_communication w\<rparr>
      else st) (fa_stats p)\<rparr>"

text \<open>Collecting the statistics of the child that ended, common to both uses.\<close>

definition collect :: "nat \<Rightarrow> forkall \<Rightarrow> forkall res" where
  "collect slot p =
    bind_res (ski_stats_set_self_slot (fa_stats p) (fa_next_slot p)) (\<lambda>self.
    bind_res (ski_eipfilter_add_stats (fa_ipfilter p) (fa_stats p ! slot)) (\<lambda>hash.
      Inr (p\<lparr>fa_self := self, fa_ipfilter := hash\<rparr>)))"

definition wait_one :: "wait_result \<Rightarrow> forkall \<Rightarrow> forkall res" where
  "wait_one w p =
    (let p = os_wait w p
     in bind_res (ski_stats_get_from_pid (fa_stats p) (wr_pid w)) (\<lambda>slot.
        let p = p\<lparr>fa_next_slot := ss_slot (fa_stats p ! slot)\<rparr>
        in bind_res (SKI_ASSERT_MSG (wr_exit w \<noteq> 0) SKI_EXIT_OTHER) (\<lambda>_.
           bind_res (collect slot p) (\<lambda>p.
           let points = ss_preemption_points_executed (fa_stats p ! slot);
               p = (if points > 0 then p\<lparr>fa_k := points * 11 div 10\<rparr> else p)
           in Inr (p\<lparr>fa_stats := ski_stats_reset_slot (fa_stats p) (nat (fa_next_slot p))\<rparr>)))))"

text \<open>The loop after the last round; \<open>n\<close> is the number of slots it takes to be in use.\<close>

fun wait_rest :: "nat \<Rightarrow> wait_result list \<Rightarrow> forkall \<Rightarrow> forkall res option" where
  "wait_rest 0 ws p = Some (Inr p)"
| "wait_rest (Suc n) [] p = None"
| "wait_rest (Suc n) (w # ws) p =
    (let p = os_wait w p
     in case bind_res (ski_stats_get_from_pid (fa_stats p) (wr_pid w)) (\<lambda>slot.
               collect slot (p\<lparr>fa_next_slot := ss_slot (fa_stats p ! slot)\<rparr>)) of
          Inl e \<Rightarrow> Some (Inl e)
        | Inr p \<Rightarrow> wait_rest n ws p)"

text \<open>
  \<open>ski_forkall_parent_wait\<close>, given the results of the calls of \<open>wait\<close> that it makes.  The
  value \<open>None\<close> means that it still waits when these are used up.
\<close>

definition ski_forkall_parent_wait :: "forkall \<Rightarrow> int \<Rightarrow> wait_result list \<Rightarrow> parent_result res option" where
  "ski_forkall_parent_wait p child_pid ws =
    (let p = upd_slot (fa_self p) (\<lambda>st. st\<lparr>ss_pid := child_pid\<rparr>) p;
         p = (if fa_available p > 0 then p\<lparr>fa_available := fa_available p - 1\<rparr> else p);
         finish = (\<lambda>p ws. let p = p\<lparr>fa_round := fa_round p + 1\<rparr>
           in if fa_round p \<ge> fa_rounds p
              then map_option (\<lambda>r. bind_res r (\<lambda>p. Inr (Exited 0 p)))
                     (wait_rest (nat (int (fa_concurrency p) - fa_available p - 1)) ws p)
              else Some (Inr (Fork_again p)))
     in if fa_available p = 0
        then case ws of
               [] \<Rightarrow> None
             | w # ws \<Rightarrow>
                 if wr_signaled w \<or> wr_pid w = -1 then Some (Inr (Exited 0 (os_wait w p)))
                 else (case wait_one w p of Inl e \<Rightarrow> Some (Inl e) | Inr p \<Rightarrow> finish p ws)
        else let p = p\<lparr>fa_next_slot := fa_next_slot p + 1\<rparr>
             in case ski_stats_set_self_slot (fa_stats p) (fa_next_slot p) of
                  Inl e \<Rightarrow> Some (Inl e)
                | Inr self \<Rightarrow> finish (p\<lparr>fa_self := self\<rparr>) ws)"

definition forkall_round :: "forkall \<Rightarrow> int \<Rightarrow> wait_result list \<Rightarrow> parent_result res option" where
  "forkall_round p child_pid ws =
    (case forkall_prepare p of
       Inl e \<Rightarrow> Some (Inl e)
     | Inr (p, new_input) \<Rightarrow>
         ski_forkall_parent_wait (p\<lparr>fa_children := fa_children p @ [child_pid]\<rparr>) child_pid ws)"

section \<open>The slots of the running children\<close>

definition pids :: "forkall \<Rightarrow> int list" where
  "pids p = map ss_pid (fa_stats p)"

definition slots_ok :: "forkall \<Rightarrow> bool" where
  "slots_ok p \<longleftrightarrow> map ss_slot (fa_stats p) = map int [0..<fa_concurrency p]"

text \<open>
  Every running child has a slot of its own, and a slot without a child has no process
  identifier.  \<open>t\<close> counts the forks: as long as slots are available they are handed out in
  order; afterwards one slot is free at a time.
\<close>

definition fa_inv :: "nat \<Rightarrow> forkall \<Rightarrow> bool" where
  "fa_inv t p \<longleftrightarrow> slots_ok p \<and> distinct (fa_children p) \<and> (\<forall>pid\<in>set (fa_children p). 0 < pid) \<and>
    mset (filter (\<lambda>pid. pid \<noteq> 0) (pids p)) = mset (fa_children p) \<and>
    0 \<le> fa_next_slot p \<and> fa_next_slot p < int (fa_concurrency p) \<and> pids p ! nat (fa_next_slot p) = 0 \<and>
    (if t < fa_concurrency p
     then fa_available p = int (fa_concurrency p) - int t \<and> length (fa_children p) = t \<and>
       fa_next_slot p = int t \<and> (\<forall>i. t \<le> i \<longrightarrow> i < fa_concurrency p \<longrightarrow> pids p ! i = 0)
     else fa_available p = 0 \<and> Suc (length (fa_children p)) = fa_concurrency p)"

lemma slots_ok_length: "slots_ok p \<Longrightarrow> length (fa_stats p) = fa_concurrency p"
  unfolding slots_ok_def by (metis length_map length_upt minus_nat.diff_0)

lemma slots_ok_nth: "slots_ok p \<Longrightarrow> i < fa_concurrency p \<Longrightarrow> ss_slot (fa_stats p ! i) = int i"
  using slots_ok_length[of p] unfolding slots_ok_def
  by (metis add.left_neutral diff_zero length_map length_upt nth_map nth_upt)

lemma set_self_slot_ok:
  assumes "slots_ok p" "0 \<le> k" "k < int (fa_concurrency p)"
  shows "ski_stats_set_self_slot (fa_stats p) k = Inr (nat k)"
  using assms slots_ok_length[of p] slots_ok_nth[of p "nat k"] by (simp add: ski_stats_set_self_slot_def)

lemma upd_slot_keeps:
  assumes "\<And>st. ss_pid (f st) = ss_pid st" "\<And>st. ss_slot (f st) = ss_slot st"
  shows "pids (upd_slot i f p) = pids p" "map ss_slot (fa_stats (upd_slot i f p)) = map ss_slot (fa_stats p)"
  using assms by (cases "i < length (fa_stats p)";
    simp add: pids_def upd_slot_def map_update list_update_beyond list_update_same_conv)+

lemma filter_nonzero_update:
  assumes "i < length (xs :: int list)"
  shows "mset (filter (\<lambda>x. x \<noteq> 0) (xs[i := v])) =
    (if v \<noteq> 0 then {#v#} else {#}) + (mset (filter (\<lambda>x. x \<noteq> 0) xs) - (if xs ! i \<noteq> 0 then {#xs ! i#} else {#}))"
  using assms by (simp add: mset_update filter_diff_mset)

lemma prepare_spec:
  assumes "fa_inv t p" "forkall_prepare p = Inr (p1, new)"
  shows "fa_inv t p1 \<and> fa_self p1 = nat (fa_next_slot p1) \<and> fa_children p1 = fa_children p \<and>
    fa_concurrency p1 = fa_concurrency p \<and> fa_round p1 = fa_round p \<and> fa_rounds p1 = fa_rounds p \<and>
    ski_input_fork_init (fa_input p) = Inr (fa_input p1, new)"
proof -
  have inv: "slots_ok p" "0 \<le> fa_next_slot p" "fa_next_slot p < int (fa_concurrency p)"
    using assms(1) by (simp_all add: fa_inv_def)
  from assms(2) obtain inp where inp: "ski_input_fork_init (fa_input p) = Inr (inp, new)"
    using set_self_slot_ok[OF inv] by (auto simp: forkall_prepare_def bind_res_eq_Inr Let_def)
  define q where "q = (let p = p\<lparr>fa_self := nat (fa_next_slot p), fa_input := inp\<rparr>
     in if new then (ski_ipfilter_restore p)\<lparr>fa_k := fa_k_initial p\<rparr> else p)"
  have p1: "p1 = upd_slot (nat (fa_next_slot p)) (\<lambda>st. st\<lparr>ss_preemption_list_size := ski_eipfilter_count_entries
        (upd_slot (nat (fa_next_slot p)) (\<lambda>st. ski_stats_start st [fst (options_input_number inp), snd (options_input_number inp)]) q)\<rparr>)
      (upd_slot (nat (fa_next_slot p)) (\<lambda>st. ski_stats_start st [fst (options_input_number inp), snd (options_input_number inp)]) q)"
    using assms(2) inp set_self_slot_ok[OF inv] by (simp add: forkall_prepare_def q_def Let_def)
  have q: "fa_stats q = fa_stats p" "fa_children q = fa_children p" "fa_available q = fa_available p" "fa_input q = inp"
    "fa_next_slot q = fa_next_slot p" "fa_concurrency q = fa_concurrency p" "fa_self q = nat (fa_next_slot p)"
    "fa_round q = fa_round p" "fa_rounds q = fa_rounds p"
    by (simp_all add: q_def ski_ipfilter_restore_def Let_def)
  have "pids p1 = pids p" "map ss_slot (fa_stats p1) = map ss_slot (fa_stats p)"
    unfolding p1 using q(1) by (simp_all add: upd_slot_keeps ski_stats_start_def) (simp add: pids_def)
  moreover have "fa_children p1 = fa_children p" "fa_available p1 = fa_available p" "fa_input p1 = inp"
    "fa_next_slot p1 = fa_next_slot p" "fa_concurrency p1 = fa_concurrency p" "fa_self p1 = nat (fa_next_slot p)"
    "fa_round p1 = fa_round p" "fa_rounds p1 = fa_rounds p"
    unfolding p1 using q by (simp_all add: upd_slot_def)
  ultimately show ?thesis using assms(1) inp by (simp add: fa_inv_def slots_ok_def)
qed

lemma add_stats_ok:
  assumes "length hash + length eips \<le> MAX_IPFILTER_HASH"
  shows "\<exists>hash'. fold_res ski_eipfilter_add hash eips = Inr hash' \<and> length hash' \<le> length hash + length eips"
  using assms
proof (induction eips arbitrary: hash)
  case (Cons e es)
  show ?case
  proof (cases "e \<in> set hash")
    case True
    then show ?thesis using Cons.IH[of hash] Cons.prems by (auto simp: ski_eipfilter_add_def)
  next
    case False
    then show ?thesis using Cons.IH[of "hash @ [e]"] Cons.prems by (auto simp: ski_eipfilter_add_def)
  qed
qed simp

lemma os_wait_fields [simp]:
  "pids (os_wait w p) = pids p" "slots_ok (os_wait w p) = slots_ok p" "length (fa_stats (os_wait w p)) = length (fa_stats p)"
  "fa_children (os_wait w p) = remove1 (wr_pid w) (fa_children p)" "fa_ipfilter (os_wait w p) = fa_ipfilter p"
  "fa_available (os_wait w p) = fa_available p" "fa_concurrency (os_wait w p) = fa_concurrency p"
  "fa_round (os_wait w p) = fa_round p" "fa_rounds (os_wait w p) = fa_rounds p" "fa_input (os_wait w p) = fa_input p"
  by (simp_all add: os_wait_def pids_def slots_ok_def comp_def if_distrib cong: if_cong)

lemma get_from_pid_ok:
  assumes "pid \<in> set (pids p)"
  shows "\<exists>j<length (fa_stats p). ski_stats_get_from_pid (fa_stats p) pid = Inr j \<and> ss_pid (fa_stats p ! j) = pid"
proof -
  obtain j where "index_from (\<lambda>s. ss_pid s = pid) 0 (fa_stats p) = Some j"
    using assms index_from_None[of "\<lambda>s. ss_pid s = pid" 0 "fa_stats p"] by (auto simp: pids_def)
  then show ?thesis using index_from_Some[of "\<lambda>s. ss_pid s = pid" 0 "fa_stats p" j]
    by (auto simp: ski_stats_get_from_pid_def)
qed

text \<open>The statistics of a child that ended are found in its slot.\<close>

lemma reap_spec:
  assumes "slots_ok p" "wr_pid w \<in> set (pids p)"
  shows "\<exists>j. j < fa_concurrency p \<and> pids p ! j = wr_pid w \<and> ss_slot (fa_stats (os_wait w p) ! j) = int j \<and>
    ski_stats_get_from_pid (fa_stats (os_wait w p)) (wr_pid w) = Inr j \<and>
    collect j ((os_wait w p)\<lparr>fa_next_slot := int j\<rparr>) =
      bind_res (fold_res ski_eipfilter_add (fa_ipfilter p) (wr_communication w)) (\<lambda>hash.
        Inr ((os_wait w p)\<lparr>fa_next_slot := int j, fa_self := j, fa_ipfilter := hash\<rparr>))"
proof -
  let ?q = "os_wait w p"
  obtain j where j: "j < length (fa_stats p)" "ski_stats_get_from_pid (fa_stats ?q) (wr_pid w) = Inr j"
    "ss_pid (fa_stats ?q ! j) = wr_pid w"
    using get_from_pid_ok[of "wr_pid w" ?q] assms(2) by auto
  have n: "j < fa_concurrency p" using j(1) slots_ok_length[OF assms(1)] by simp
  have slot: "ss_slot (fa_stats ?q ! j) = int j" using slots_ok_nth[of ?q j] assms(1) n by simp
  have "pids ?q ! j = wr_pid w" using j(1,3) by (simp add: pids_def del: os_wait_fields(1))
  then have pid: "pids p ! j = wr_pid w" by simp
  then have comm: "ss_communication_instructions (fa_stats ?q ! j) = wr_communication w"
    using j(1) by (simp add: os_wait_def pids_def)
  have "ski_stats_set_self_slot (fa_stats ?q) (int j) = Inr j"
    using set_self_slot_ok[of ?q "int j"] assms(1) n by simp
  then have "collect j (?q\<lparr>fa_next_slot := int j\<rparr>) =
      bind_res (fold_res ski_eipfilter_add (fa_ipfilter p) (wr_communication w)) (\<lambda>hash.
        Inr (?q\<lparr>fa_next_slot := int j, fa_self := j, fa_ipfilter := hash\<rparr>))"
    using comm by (simp add: collect_def ski_eipfilter_add_stats_def)
  then show ?thesis using n pid j(2) slot by blast
qed

definition capacity :: "forkall \<Rightarrow> wait_result list \<Rightarrow> bool" where
  "capacity p ws \<longleftrightarrow> length (fa_ipfilter p) + sum_list (map (length \<circ> wr_communication) ws) \<le> MAX_IPFILTER_HASH"

lemma wait_rest_spec:
  assumes "slots_ok p" "set (fa_children p) \<subseteq> set (pids p)" "distinct (map wr_pid ws)"
    and "wr_pid ` set ws \<subseteq> set (fa_children p)" "n \<le> length ws" "capacity p ws"
  shows "\<exists>p'. wait_rest n ws p = Some (Inr p') \<and> length (fa_children p') = length (fa_children p) - n"
  using assms
proof (induction n arbitrary: ws p)
  case (Suc n)
  then obtain w ws' where ws: "ws = w # ws'" by (cases ws) auto
  have w: "wr_pid w \<in> set (fa_children p)" using Suc.prems(4) ws by simp
  obtain hash where hash: "fold_res ski_eipfilter_add (fa_ipfilter p) (wr_communication w) = Inr hash"
    "length hash \<le> length (fa_ipfilter p) + length (wr_communication w)"
    using add_stats_ok[of "fa_ipfilter p" "wr_communication w"] Suc.prems(6) ws by (auto simp: capacity_def)
  then obtain j where j: "ski_stats_get_from_pid (fa_stats (os_wait w p)) (wr_pid w) = Inr j"
    "collect j ((os_wait w p)\<lparr>fa_next_slot := ss_slot (fa_stats (os_wait w p) ! j)\<rparr>) =
      Inr ((os_wait w p)\<lparr>fa_next_slot := int j, fa_self := j, fa_ipfilter := hash\<rparr>)"
    using reap_spec[OF Suc.prems(1), of w] w Suc.prems(2) by fastforce
  let ?p = "(os_wait w p)\<lparr>fa_next_slot := int j, fa_self := j, fa_ipfilter := hash\<rparr>"
  have "\<exists>p'. wait_rest n ws' ?p = Some (Inr p') \<and> length (fa_children p') = length (fa_children ?p) - n"
  proof (rule Suc.IH)
    have "pids ?p = pids (os_wait w p)" "slots_ok ?p = slots_ok (os_wait w p)"
      unfolding pids_def slots_ok_def by simp_all
    then show "slots_ok ?p" "set (fa_children ?p) \<subseteq> set (pids ?p)"
      using Suc.prems(1,2) set_remove1_subset[of "wr_pid w" "fa_children p"] by auto
    show "wr_pid ` set ws' \<subseteq> set (fa_children ?p)"
    proof (rule image_subsetI)
      fix x
      assume "x \<in> set ws'"
      then have "wr_pid x \<noteq> wr_pid w" "wr_pid x \<in> set (fa_children p)" using Suc.prems(3,4) ws by (auto simp: image_iff dest!: sym[of "wr_pid x"])
      then show "wr_pid x \<in> set (fa_children ?p)" by (simp add: in_set_remove1)
    qed
  qed (use Suc.prems ws hash(2) in \<open>auto simp: capacity_def\<close>)
  then show ?case using j(1,2) ws w by (auto simp: length_remove1)
qed auto

section \<open>A round\<close>

definition forked :: "forkall \<Rightarrow> int \<Rightarrow> forkall" where
  "forked p child_pid =
    (let p = upd_slot (fa_self p) (\<lambda>st. st\<lparr>ss_pid := child_pid\<rparr>) (p\<lparr>fa_children := fa_children p @ [child_pid]\<rparr>)
     in if fa_available p > 0 then p\<lparr>fa_available := fa_available p - 1\<rparr> else p)"

text \<open>The state after the \<open>t\<close>-th fork.\<close>

definition fork_inv :: "nat \<Rightarrow> forkall \<Rightarrow> bool" where
  "fork_inv t p \<longleftrightarrow> slots_ok p \<and> distinct (fa_children p) \<and> (\<forall>pid\<in>set (fa_children p). 0 < pid) \<and>
    mset (filter (\<lambda>pid. pid \<noteq> 0) (pids p)) = mset (fa_children p) \<and>
    fa_available p = int (fa_concurrency p - t) \<and> length (fa_children p) = min t (fa_concurrency p) \<and>
    (t < fa_concurrency p \<longrightarrow> fa_next_slot p = int t - 1 \<and> (\<forall>i. t \<le> i \<longrightarrow> i < fa_concurrency p \<longrightarrow> pids p ! i = 0))"

lemma forked_fields [simp]:
  "fa_children (forked p c) = fa_children p @ [c]" "fa_concurrency (forked p c) = fa_concurrency p"
  "fa_round (forked p c) = fa_round p" "fa_rounds (forked p c) = fa_rounds p" "fa_input (forked p c) = fa_input p"
  "fa_ipfilter (forked p c) = fa_ipfilter p" "fa_next_slot (forked p c) = fa_next_slot p"
  by (simp_all add: forked_def upd_slot_def Let_def)

lemma forked_spec:
  assumes "fa_inv t p" "fa_self p = nat (fa_next_slot p)" "0 < child" "child \<notin> set (fa_children p)"
  shows "fork_inv (Suc t) (forked p child)"
proof -
  let ?q = "forked p child" and ?i = "nat (fa_next_slot p)"
  have inv: "slots_ok p" "0 \<le> fa_next_slot p" "fa_next_slot p < int (fa_concurrency p)" "pids p ! ?i = 0"
    using assms(1) by (simp_all add: fa_inv_def)
  then have i: "?i < length (pids p)" using slots_ok_length[OF inv(1)] by (simp add: pids_def)
  have pids: "pids ?q = (pids p)[?i := child]"
    using assms(2) by (simp add: pids_def forked_def upd_slot_def map_update Let_def)
  have "map ss_slot (fa_stats ?q) = map ss_slot (fa_stats p)"
    using i assms(2) by (simp add: forked_def upd_slot_def map_update Let_def list_update_same_conv pids_def)
  then have "slots_ok ?q" using inv(1) by (simp add: slots_ok_def)
  moreover have "mset (filter (\<lambda>pid. pid \<noteq> 0) (pids ?q)) = mset (fa_children ?q)"
    using filter_nonzero_update[OF i, of child] inv(4) assms(1,3) by (simp add: pids fa_inv_def)
  moreover have "fa_available ?q = (if fa_available p > 0 then fa_available p - 1 else fa_available p)"
    by (simp add: forked_def upd_slot_def Let_def)
  ultimately show ?thesis using assms i unfolding fork_inv_def fa_inv_def
    by (cases "t < fa_concurrency p") (auto simp: pids nth_list_update)
qed

text \<open>The end of a round: the next one, or the wait for the children that are left.\<close>

definition round_end :: "forkall \<Rightarrow> wait_result list \<Rightarrow> parent_result res option" where
  "round_end p ws =
    (if fa_round p + 1 \<ge> fa_rounds p
     then map_option (\<lambda>r. bind_res r (\<lambda>p. Inr (Exited 0 p)))
       (wait_rest (nat (int (fa_concurrency p) - fa_available p - 1)) ws (p\<lparr>fa_round := fa_round p + 1\<rparr>))
     else Some (Inr (Fork_again (p\<lparr>fa_round := fa_round p + 1\<rparr>))))"

lemma forkall_round_forked:
  assumes "forkall_prepare p = Inr (p1, new)"
  shows "forkall_round p child ws =
    (let q = forked p1 child
     in if fa_available q = 0
        then case ws of
               [] \<Rightarrow> None
             | w # ws \<Rightarrow>
                 if wr_signaled w \<or> wr_pid w = -1 then Some (Inr (Exited 0 (os_wait w q)))
                 else (case wait_one w q of Inl e \<Rightarrow> Some (Inl e) | Inr p2 \<Rightarrow> round_end p2 ws)
        else case ski_stats_set_self_slot (fa_stats q) (fa_next_slot q + 1) of
               Inl e \<Rightarrow> Some (Inl e)
             | Inr self \<Rightarrow> round_end (q\<lparr>fa_next_slot := fa_next_slot q + 1, fa_self := self\<rparr>) ws)"
  using assms
  by (simp add: forkall_round_def ski_forkall_parent_wait_def forked_def round_end_def Let_def upd_slot_def
      split: sum.splits list.splits)

lemma fork_inv_children: "fork_inv t q \<Longrightarrow> set (fa_children q) \<subseteq> set (pids q)"
  unfolding fork_inv_def by (metis filter_is_subset set_mset_mset)

lemma if_fa_k: "(if b then p\<lparr>fa_k := k\<rparr> else p) = p\<lparr>fa_k := if b then k else fa_k p\<rparr>"
  by simp

lemma fa_inv_children: "fa_inv t p \<Longrightarrow> set (fa_children p) \<subseteq> set (pids p)"
  unfolding fa_inv_def by (metis filter_is_subset set_mset_mset)

lemma wait_one_spec:
  assumes "fork_inv t q" "fa_concurrency q \<le> t" "wr_pid w \<in> set (fa_children q)" "wait_one w q = Inr p"
  shows "fa_inv t p \<and> fa_children p = remove1 (wr_pid w) (fa_children q) \<and>
    fa_concurrency p = fa_concurrency q \<and> fa_input p = fa_input q \<and> fa_round p = fa_round q \<and> fa_rounds p = fa_rounds q"
proof -
  have ok: "slots_ok q" and pid: "wr_pid w \<in> set (pids q)" "0 < wr_pid w"
    using assms(1,3) fork_inv_children[OF assms(1)] by (auto simp: fork_inv_def)
  obtain j where j: "j < fa_concurrency q" "pids q ! j = wr_pid w" "ss_slot (fa_stats (os_wait w q) ! j) = int j"
    "ski_stats_get_from_pid (fa_stats (os_wait w q)) (wr_pid w) = Inr j"
    and c: "collect j ((os_wait w q)\<lparr>fa_next_slot := int j\<rparr>) =
      bind_res (fold_res ski_eipfilter_add (fa_ipfilter q) (wr_communication w)) (\<lambda>hash.
        Inr ((os_wait w q)\<lparr>fa_next_slot := int j, fa_self := j, fa_ipfilter := hash\<rparr>))"
    using reap_spec[OF ok pid(1)] by blast
  obtain hash k where p: "p = (os_wait w q)\<lparr>fa_next_slot := int j, fa_self := j, fa_ipfilter := hash, fa_k := k,
      fa_stats := ski_stats_reset_slot (fa_stats (os_wait w q)) j\<rparr>"
    using assms(4) j(3,4) c by (auto simp: wait_one_def bind_res_eq_Inr Let_def if_fa_k)
  have len: "length (fa_stats (os_wait w q)) = fa_concurrency q" using slots_ok_length[of "os_wait w q"] ok by simp
  have jl: "j < length (pids q)" using j(1) slots_ok_length[OF ok] by (simp add: pids_def)
  have "pids p = (pids (os_wait w q))[j := 0]" by (simp add: p pids_def ski_stats_reset_slot_def map_update)
  then have pids: "pids p = (pids q)[j := 0]" by simp
  have "map ss_slot (fa_stats p) = (map ss_slot (fa_stats (os_wait w q)))[j := int j]"
    by (simp add: p ski_stats_reset_slot_def map_update)
  also have "\<dots> = map ss_slot (fa_stats (os_wait w q))" using j(1,3) len by (simp add: list_update_same_conv)
  also have "\<dots> = map int [0..<fa_concurrency q]" using ok os_wait_fields(2)[of w q] by (simp add: slots_ok_def)
  finally have "slots_ok p" by (simp add: slots_ok_def p)
  moreover have "mset (filter (\<lambda>pid. pid \<noteq> 0) (pids p)) = mset (remove1 (wr_pid w) (fa_children q))"
    using filter_nonzero_update[OF jl, of 0] j(2) pid(2) assms(1) by (simp add: pids fork_inv_def)
  moreover have "pids p ! j = 0" using jl by (simp add: pids)
  ultimately show ?thesis
    using assms(1,2,3) j(1) notin_set_remove1[of _ "fa_children q" "wr_pid w"]
    by (auto simp: fork_inv_def fa_inv_def p length_remove1 distinct_remove1)
qed

lemma wait_one_ok:
  assumes "fork_inv t q" "wr_pid w \<in> set (fa_children q)" "wr_exit w \<noteq> 0" "capacity q (w # ws)"
  shows "\<exists>p. wait_one w q = Inr p \<and> capacity p ws"
proof -
  have ok: "slots_ok q" and pid: "wr_pid w \<in> set (pids q)"
    using assms(1,2) fork_inv_children[OF assms(1)] by (auto simp: fork_inv_def)
  obtain hash where "fold_res ski_eipfilter_add (fa_ipfilter q) (wr_communication w) = Inr hash"
    "length hash \<le> length (fa_ipfilter q) + length (wr_communication w)"
    using add_stats_ok[of "fa_ipfilter q" "wr_communication w"] assms(4) by (auto simp: capacity_def)
  then show ?thesis using reap_spec[OF ok pid] assms(3,4)
    by (auto simp: wait_one_def capacity_def SKI_ASSERT_MSG_def Let_def)
qed

lemma next_slot_spec:
  assumes "fork_inv t q" "t < fa_concurrency q"
  shows "ski_stats_set_self_slot (fa_stats q) (fa_next_slot q + 1) = Inr t"
    "fa_inv t (q\<lparr>fa_next_slot := fa_next_slot q + 1, fa_self := self\<rparr>)"
proof -
  let ?p = "q\<lparr>fa_next_slot := fa_next_slot q + 1, fa_self := self\<rparr>"
  have same: "pids ?p = pids q" "slots_ok ?p = slots_ok q" by (simp_all add: pids_def slots_ok_def)
  show "ski_stats_set_self_slot (fa_stats q) (fa_next_slot q + 1) = Inr t"
    using assms set_self_slot_ok[of q "int t"] by (simp add: fork_inv_def)
  show "fa_inv t ?p" using assms unfolding fa_inv_def same by (auto simp: fork_inv_def)
qed

lemma round_end_again:
  assumes "round_end p ws = Some (Inr (Fork_again p'))"
  shows "p' = p\<lparr>fa_round := fa_round p + 1\<rparr>"
  using assms by (auto simp: round_end_def bind_res_eq_Inr split: if_splits)

lemma fa_inv_round [simp]: "fa_inv t (p\<lparr>fa_round := r\<rparr>) = fa_inv t p"
  by (simp add: fa_inv_def slots_ok_def pids_def)

lemma round_again:
  assumes "fa_inv t p" "forkall_prepare p = Inr (p1, new)" "0 < child" "child \<notin> set (fa_children p)"
    and "\<forall>w\<in>set (take 1 ws). wr_pid w = -1 \<or> wr_pid w \<in> set (fa_children p @ [child])"
    and "forkall_round p child ws = Some (Inr (Fork_again p'))"
  shows "fa_inv (Suc t) p' \<and> fa_concurrency p' = fa_concurrency p \<and> fa_input p' = fa_input p1 \<and>
    fa_round p' = fa_round p + 1 \<and> fa_rounds p' = fa_rounds p"
proof -
  let ?q = "forked p1 child"
  note prep = prepare_spec[OF assms(1,2)]
  have inv: "fork_inv (Suc t) ?q" using forked_spec[of t p1 child] prep assms(3,4) by simp
  have r: "forkall_round p child ws = Some (Inr (Fork_again p'))" by (fact assms(6))
  show ?thesis
  proof (cases "fa_available ?q = 0")
    case True
    then obtain w us p2 where ws: "ws = w # us" "wr_pid w \<noteq> -1" and p2: "wait_one w ?q = Inr p2"
      and e: "round_end p2 us = Some (Inr (Fork_again p'))"
      using r unfolding forkall_round_forked[OF assms(2)]
      by (auto simp: Let_def split: list.splits sum.splits if_splits)
    have n: "fa_concurrency ?q \<le> Suc t" using inv True by (simp add: fork_inv_def)
    have "wr_pid w \<in> set (fa_children ?q)" using assms(5) ws prep by simp
    then show ?thesis using wait_one_spec[OF inv n _ p2] round_end_again[OF e] prep by simp
  next
    case False
    then have n: "Suc t < fa_concurrency ?q" using inv by (simp add: fork_inv_def)
    then have "round_end (?q\<lparr>fa_next_slot := fa_next_slot ?q + 1, fa_self := Suc t\<rparr>) ws = Some (Inr (Fork_again p'))"
      using r False next_slot_spec(1)[OF inv n] unfolding forkall_round_forked[OF assms(2)] by (simp add: Let_def)
    then show ?thesis using round_end_again next_slot_spec(2)[OF inv n] prep by fastforce
  qed
qed

lemma init_all_slots:
  assumes "ski_stats_init_all addresses n = Inr all"
  shows "map ss_slot all = map int [0..<n] \<and> map ss_pid all = replicate n 0"
proof -
  have "fold_res (\<lambda>all slot. bind_res (ski_stats_init_slot addresses slot) (\<lambda>s. Inr (all @ [s]))) acc is = Inr all \<Longrightarrow>
      map ss_slot all = map ss_slot acc @ map int is \<and> map ss_pid all = map ss_pid acc @ replicate (length is) 0" for acc "is"
  proof (induction "is" arbitrary: acc)
    case (Cons i "is")
    then obtain s where s: "ski_stats_init_slot addresses i = Inr s" by (auto simp: bind_res_eq_Inr)
    then have "ss_slot s = int i" "ss_pid s = 0"
      by (auto simp: ski_stats_init_slot_def bind_res_eq_Inr Let_def split: option.splits)
    then show ?case using Cons s by simp
  qed simp
  from this[of "[]" "[0..<n]"] show ?thesis using assms by (simp add: ski_stats_init_all_def)
qed

lemma start_inv:
  assumes "forkall_start addresses p0 = Inr p" "0 < fa_concurrency p0"
  shows "fa_inv 0 p \<and> fa_concurrency p = fa_concurrency p0 \<and> fa_input p = fa_input p0 \<and>
    fa_round p = fa_round p0 \<and> fa_rounds p = fa_rounds p0"
proof -
  obtain all where all: "ski_stats_init_all addresses (fa_concurrency p0) = Inr all"
    "p = p0\<lparr>fa_stats := all, fa_available := int (fa_concurrency p0), fa_next_slot := 0, fa_children := []\<rparr>"
    using assms(1) by (auto simp: forkall_start_def bind_res_eq_Inr)
  show ?thesis using init_all_slots[OF all(1)] assms(2) by (simp add: all(2) fa_inv_def slots_ok_def pids_def)
qed

section \<open>Runs of the parent\<close>

text \<open>
  A run is a sequence of rounds that each end with the next fork; its trace holds the input,
  the seed and the new-input flag of every child.  \<open>fork\<close> gives a positive identifier that no
  running child has, and \<open>wait\<close> one of the running children or \<open>-1\<close>.
\<close>

inductive forkall_run :: "forkall \<Rightarrow> ((int \<times> int) \<times> int \<times> bool) list \<Rightarrow> forkall \<Rightarrow> bool" where
  start: "forkall_run p [] p"
| round: "forkall_run p ts p1 \<Longrightarrow> forkall_prepare p1 = Inr (p2, new) \<Longrightarrow>
    0 < child \<Longrightarrow> child \<notin> set (fa_children p1) \<Longrightarrow>
    \<forall>w\<in>set (take 1 ws). wr_pid w = -1 \<or> wr_pid w \<in> set (fa_children p1 @ [child]) \<Longrightarrow>
    forkall_round p1 child ws = Some (Inr (Fork_again p3)) \<Longrightarrow>
    forkall_run p (ts @ [(options_input_number (fa_input p2), options_seed (fa_input p2), new)]) p3"

lemma run_inv:
  assumes "forkall_run p ts p'" "fa_inv 0 p"
  shows "fa_inv (length ts) p' \<and> fa_concurrency p' = fa_concurrency p \<and> fa_rounds p' = fa_rounds p \<and>
    fa_round p' = fa_round p + int (length ts) \<and> fork_inits (length ts) (fa_input p) = Inr (ts, fa_input p')"
  using assms
proof (induction rule: forkall_run.induct)
  case (round p ts p1 p2 new child ws p3)
  then have IH: "fa_inv (length ts) p1" "fork_inits (length ts) (fa_input p) = Inr (ts, fa_input p1)" by simp_all
  have "fork_inits (length ts + 1) (fa_input p) =
      Inr (ts @ [(options_input_number (fa_input p2), options_seed (fa_input p2), new)], fa_input p2)"
    unfolding fork_inits_add using IH(2) prepare_spec[OF IH(1) round.hyps(2)] by simp
  then show ?case using round_again[OF IH(1) round.hyps(2-6)] round by simp
qed simp

definition round_result :: "forkall \<Rightarrow> nat \<Rightarrow> parent_result res option \<Rightarrow> bool" where
  "round_result p left r \<longleftrightarrow>
    (if fa_round p + 1 < fa_rounds p then \<exists>p'. r = Some (Inr (Fork_again p'))
     else \<exists>p'. r = Some (Inr (Exited 0 p')) \<and> length (fa_children p') = left)"

lemma round_end_ok:
  assumes "fa_inv t p" "distinct (map wr_pid ws)" "wr_pid ` set ws \<subseteq> set (fa_children p)"
    and "length (fa_children p) \<le> length ws" "capacity p ws"
  shows "round_result p (if t < fa_concurrency p then min t 1 else 0) (round_end p ws)"
proof (cases "fa_round p + 1 < fa_rounds p")
  case False
  let ?p = "p\<lparr>fa_round := fa_round p + 1\<rparr>"
  let ?n = "nat (int (fa_concurrency p) - fa_available p - 1)"
  have sub: "set (fa_children ?p) \<subseteq> set (pids ?p)"
    using fa_inv_children[of t ?p] assms(1) by simp
  have ok: "slots_ok ?p" using assms(1) by (simp add: fa_inv_def slots_ok_def)
  have n: "?n = (if t < fa_concurrency p then t - 1 else length (fa_children p))"
    and len: "t < fa_concurrency p \<Longrightarrow> length (fa_children p) = t"
    using assms(1) by (auto simp: fa_inv_def)
  have "\<exists>p'. wait_rest ?n ws ?p = Some (Inr p') \<and> length (fa_children p') = length (fa_children ?p) - ?n"
  proof (rule wait_rest_spec[OF ok sub assms(2)])
    show "wr_pid ` set ws \<subseteq> set (fa_children ?p)" "capacity ?p ws" using assms(3,5) by (simp_all add: capacity_def)
    show "?n \<le> length ws" using n len assms(4) by (auto split: if_splits)
  qed
  then show ?thesis using False n len by (auto simp: round_result_def round_end_def)
qed (simp add: round_result_def round_end_def)

lemma round_ok:
  assumes "fa_inv t p" "forkall_prepare p = Inr (p1, new)" "0 < child" "child \<notin> set (fa_children p)"
    and ws: "mset (map wr_pid ws) = mset (fa_children p @ [child])"
    and out: "list_all (\<lambda>w. wr_exit w \<noteq> 0 \<and> \<not> wr_signaled w) ws" and cap: "capacity p1 ws"
  shows "round_result p (if Suc t < fa_concurrency p then 1 else 0) (forkall_round p child ws)"
proof -
  let ?q = "forked p1 child"
  note prep = prepare_spec[OF assms(1,2)]
  have inv: "fork_inv (Suc t) ?q" using forked_spec[of t p1 child] prep assms(3,4) by simp
  have ch: "fa_children ?q = fa_children p @ [child]" using prep by simp
  have dist: "distinct (map wr_pid ws)" using inv ws unfolding fork_inv_def ch by (metis mset_eq_imp_distinct_iff)
  have set: "wr_pid ` set ws = set (fa_children ?q)" using ws unfolding ch by (metis list.set_map set_mset_mset)
  have len: "length ws = length (fa_children ?q)" using ws unfolding ch by (metis length_map size_mset)
  have capq: "capacity ?q ws" using cap by (simp add: capacity_def)
  show ?thesis
  proof (cases "fa_available ?q = 0")
    case True
    then have n: "fa_concurrency ?q \<le> Suc t" using inv by (simp add: fork_inv_def)
    obtain w us where w: "ws = w # us" using len ch by (cases ws) auto
    have mem: "wr_pid w \<in> set (fa_children ?q)" using set unfolding w by auto
    then have pos: "0 < wr_pid w" using inv unfolding fork_inv_def by blast
    obtain p2 where p2: "wait_one w ?q = Inr p2" "capacity p2 us"
      using wait_one_ok[OF inv mem, of us] out capq w by auto
    note s = wait_one_spec[OF inv n mem p2(1)]
    have sub: "wr_pid ` set us \<subseteq> set (fa_children p2)"
    proof -
      have "distinct (fa_children ?q)" using inv by (simp only: fork_inv_def)
      then have "set (fa_children p2) = wr_pid ` set (w # us) - {wr_pid w}" using s set w by (metis set_remove1_eq)
      then show ?thesis using dist unfolding w by auto
    qed
    have "length (fa_children p2) = length (fa_children ?q) - 1"
      using s mem by (simp add: length_remove1)
    then have "round_result p2 0 (round_end p2 us)"
      using round_end_ok[of "Suc t" p2 us] s sub dist p2(2) n len w by auto
    then show ?thesis using True p2(1) w out pos s n prep unfolding forkall_round_forked[OF assms(2)]
      by (simp add: Let_def round_result_def)
  next
    case False
    then have n: "Suc t < fa_concurrency ?q" using inv by (simp add: fork_inv_def)
    let ?p = "?q\<lparr>fa_next_slot := fa_next_slot ?q + 1, fa_self := Suc t\<rparr>"
    have "round_result ?p 1 (round_end ?p ws)"
      using round_end_ok[OF next_slot_spec(2)[OF inv n, of "Suc t"], of ws] dist set len capq n by (simp add: capacity_def)
    then show ?thesis using False n prep next_slot_spec(1)[OF inv n] unfolding forkall_round_forked[OF assms(2)]
      by (simp add: Let_def round_result_def)
  qed
qed

text \<open>
  C4: along every run of the parent from its start, whatever children \<open>fork\<close> gives and in
  whatever order they end, the slots that carry a process identifier are exactly the running
  children, one slot each; the next slot exists and is free; fewer children run than the
  concurrency allows, so the next fork stays within it; and the children get, one per round,
  the consecutive inputs and seeds of \<open>ski_input_fork_init\<close>.
\<close>

theorem forkall_slots:
  assumes "forkall_start addresses p0 = Inr p" "0 < fa_concurrency p0" "forkall_run p ts p'"
  shows "distinct (fa_children p') \<and>
    mset (filter (\<lambda>pid. pid \<noteq> 0) (map ss_pid (fa_stats p'))) = mset (fa_children p') \<and>
    0 \<le> fa_next_slot p' \<and> fa_next_slot p' < int (length (fa_stats p')) \<and>
    ss_pid (fa_stats p' ! nat (fa_next_slot p')) = 0 \<and>
    length (fa_children p') < fa_concurrency p0 \<and>
    fa_round p' = fa_round p0 + int (length ts) \<and>
    fork_inits (length ts) (fa_input p0) = Inr (ts, fa_input p')"
proof -
  have inv: "fa_inv (length ts) p'" "fa_concurrency p' = fa_concurrency p0"
    "fa_round p' = fa_round p0 + int (length ts)" "fork_inits (length ts) (fa_input p0) = Inr (ts, fa_input p')"
    using run_inv[OF assms(3)] start_inv[OF assms(1,2)] by simp_all
  moreover have "length (fa_stats p') = fa_concurrency p'"
    using inv(1) slots_ok_length by (simp add: fa_inv_def)
  ultimately show ?thesis by (auto simp: fa_inv_def pids_def split: if_splits)
qed

text \<open>
  C21: the end of the exploration.  When all children of a round end without a signal and with
  a non-zero status, are returned by \<open>wait\<close> once each, and the filter has room for what they
  report, the round leads to the next fork, and the last one to an exit with status 0.  The
  exit leaves no child unwaited when the slots had been filled; when fewer children than slots
  were ever forked it leaves exactly one, whose statistics are lost.
\<close>

theorem forkall_exit:
  assumes "forkall_start addresses p0 = Inr p" "0 < fa_concurrency p0" "forkall_run p ts p'"
    and "forkall_prepare p' = Inr (p1, new)" "0 < child" "child \<notin> set (fa_children p')"
    and "mset (map wr_pid ws) = mset (fa_children p' @ [child])"
    and "list_all (\<lambda>w. wr_exit w \<noteq> 0 \<and> \<not> wr_signaled w) ws"
    and "length (fa_ipfilter p1) + sum_list (map (length \<circ> wr_communication) ws) \<le> MAX_IPFILTER_HASH"
  shows "if fa_round p0 + int (length ts) + 1 < fa_rounds p0
    then \<exists>q. forkall_round p' child ws = Some (Inr (Fork_again q))
    else \<exists>q. forkall_round p' child ws = Some (Inr (Exited 0 q)) \<and>
      length (fa_children q) = (if length ts + 1 < fa_concurrency p0 then 1 else 0)"
proof -
  have inv: "fa_inv (length ts) p'" "fa_concurrency p' = fa_concurrency p0"
    "fa_round p' = fa_round p0 + int (length ts)" "fa_rounds p' = fa_rounds p0"
    using run_inv[OF assms(3)] start_inv[OF assms(1,2)] by simp_all
  have "capacity p1 ws" using assms(9) by (simp only: capacity_def)
  from round_ok[OF inv(1) assms(4-8) this] show ?thesis by (simp add: round_result_def inv(2-4))
qed

definition sample_parent :: forkall where
  "sample_parent = \<lparr>fa_stats = [], fa_self = 0, fa_available = 0, fa_next_slot = 0, fa_round = 0, fa_rounds = 2,
     fa_concurrency = 1, fa_k = 10, fa_k_initial = 10, fa_ipfilter = [], fa_ipfilter_backup = [],
     fa_input = sample_input, fa_children = []\<rparr>"

definition sample_child :: wait_result where
  "sample_child = \<lparr>wr_pid = 7, wr_signaled = False, wr_exit = 1, wr_points = 30, wr_communication = [0xc0100000]\<rparr>"

lemma sample_fork_init: "\<exists>st'. ski_input_fork_init sample_input = Inr (st', True)"
  by (simp add: ski_input_fork_init_def next_inputs_def sample_input_def zero_range_def
      ski_input_get_current_def ski_input_get_current_relative_def range_at_def)

lemma start_ok:
  "\<exists>all. forkall_start None p =
    Inr (p\<lparr>fa_stats := all, fa_available := int (fa_concurrency p), fa_next_slot := 0, fa_children := []\<rparr>)"
proof -
  have "\<exists>all. fold_res (\<lambda>all slot. bind_res (ski_stats_init_slot None slot) (\<lambda>s. Inr (all @ [s]))) acc is = Inr all" for acc "is"
    by (induction "is" arbitrary: acc) (auto simp: ski_stats_init_slot_def ski_instruction_detector_load_def)
  from this[of "[]" "[0..<fa_concurrency p]"] show ?thesis by (auto simp: forkall_start_def ski_stats_init_all_def)
qed

lemma prepare_ok:
  assumes "fa_inv t p" "ski_input_fork_init (fa_input p) = Inr (inp, new)"
  shows "\<exists>p1. forkall_prepare p = Inr (p1, new) \<and>
    fa_ipfilter p1 = (if new then fa_ipfilter_backup p else fa_ipfilter p)"
  using assms set_self_slot_ok[of p "fa_next_slot p"]
  by (simp add: forkall_prepare_def fa_inv_def Let_def upd_slot_def ski_ipfilter_restore_def)

text \<open>Two rounds with one slot: the first child ends, and the run goes on to the second.\<close>

lemma sample_parent_run:
  "\<exists>p t p'. forkall_start None sample_parent = Inr p \<and> forkall_run p [t] p' \<and> length (fa_stats p') = 1"
proof -
  obtain p where p: "forkall_start None sample_parent = Inr p" using start_ok[of sample_parent] by blast
  then have inv: "fa_inv 0 p" "fa_input p = sample_input" "fa_round p = 0" "fa_rounds p = 2" "fa_children p = []"
    "fa_ipfilter_backup p = []" "fa_concurrency p = 1"
    using start_inv[OF p] start_ok[of sample_parent] by (auto simp: sample_parent_def)
  obtain st where "ski_input_fork_init (fa_input p) = Inr (st, True)" using sample_fork_init inv(2) by auto
  from prepare_ok[OF inv(1) this] obtain p1 where p1: "forkall_prepare p = Inr (p1, True)" "fa_ipfilter p1 = []"
    using inv(6) by auto
  have "round_result p 0 (forkall_round p 7 [sample_child])"
    using round_ok[OF inv(1) p1(1), of 7 "[sample_child]"] inv p1(2) by (simp add: sample_child_def capacity_def)
  then obtain p' where r: "forkall_round p 7 [sample_child] = Some (Inr (Fork_again p'))"
    using inv by (auto simp: round_result_def)
  have run: "forkall_run p [(options_input_number (fa_input p1), options_seed (fa_input p1), True)] p'"
    using forkall_run.round[OF forkall_run.start p1(1) _ _ _ r] inv by (simp add: sample_child_def)
  have "length (fa_stats p') = 1"
    using run_inv[OF run inv(1)] slots_ok_length[of p'] inv(7) by (simp add: fa_inv_def)
  then show ?thesis using p run by blast
qed

theorem forkall_slots_witness:
  "\<exists>p ts p'. forkall_start None sample_parent = Inr p \<and> forkall_run p ts p' \<and> length ts = 1 \<and>
    fa_children p' = [] \<and> map ss_pid (fa_stats p') = [0] \<and>
    fork_inits 1 sample_input = Inr (ts, fa_input p')"
proof -
  obtain p t p' where p: "forkall_start None sample_parent = Inr p" "forkall_run p [t] p'" "length (fa_stats p') = 1"
    using sample_parent_run by blast
  have conc: "fa_concurrency sample_parent = 1" "fa_input sample_parent = sample_input" by (simp_all add: sample_parent_def)
  then show ?thesis using forkall_slots[OF p(1) _ p(2)] p by (cases "fa_stats p'") auto
qed

text \<open>One round with two slots: the only child is not waited for.\<close>

theorem forkall_exit_witness:
  "\<exists>p q. forkall_start None (sample_parent\<lparr>fa_rounds := 1, fa_concurrency := 2\<rparr>) = Inr p \<and>
    forkall_round p 7 [sample_child] = Some (Inr (Exited 0 q)) \<and> length (fa_children q) = 1"
proof -
  let ?s = "sample_parent\<lparr>fa_rounds := 1, fa_concurrency := 2\<rparr>"
  obtain p where p: "forkall_start None ?s = Inr p" using start_ok[of ?s] by blast
  then have inv: "fa_inv 0 p" "fa_input p = sample_input" "fa_children p = []" "fa_ipfilter_backup p = []"
    using start_inv[OF p] start_ok[of ?s] by (auto simp: sample_parent_def)
  obtain st where "ski_input_fork_init (fa_input p) = Inr (st, True)" using sample_fork_init inv(2) by auto
  from prepare_ok[OF inv(1) this] obtain p1 where p1: "forkall_prepare p = Inr (p1, True)" "fa_ipfilter p1 = []"
    using inv(4) by auto
  show ?thesis using forkall_exit[OF p _ forkall_run.start p1(1), of 7 "[sample_child]"] inv p1(2) p
    by (simp add: sample_parent_def sample_child_def)
qed

end
