(* ===== verification/Ski_Memfs.thy ===== *)
theory Ski_Memfs
  imports Ski_State
begin

text \<open>
  The in-memory file system (\<open>vmm/ski-memfs.c\<close>): the children of an exploration share the
  files of the host, so the calls that open, read and write files are intercepted and served
  from private copies.  A file is a private mapping of its contents at the first open, followed
  by an extra block for growth; it is shared by all handles that were opened on its inode.  The
  results of the calls of the operating system are arguments of the operations.  The model is
  of the normal mode: the test mode repeats every call on the real file and compares.
\<close>

unbundle bit_operations_syntax

section \<open>Data\<close>

type_synonym byte = "8 word"

record memfs_support =
  ms_filename :: string
  ms_inode :: int
  ms_mmap :: "nat \<Rightarrow> byte"
  ms_mmap_length :: nat
  ms_extra :: "nat \<Rightarrow> byte"
  ms_extra_length :: nat
  ms_length :: nat

record memfs_file =
  mf_id :: nat
  mf_filename :: string
  mf_fd :: int
  mf_file :: "int option"
  mf_closed :: bool
  mf_off :: nat
  mf_sup :: nat

record memfs =
  sups :: "memfs_support list"
  files :: "memfs_file list"
  ignorelist :: "string list"
  ski_memfs_enabled :: bool

text \<open>A \<open>FILE\<close> pointer: an element of \<open>files\<close>, or a stream of the C library.\<close>

datatype stream = Mem nat | Os int

text \<open>
  What the system reports of the file that a call opened: its descriptor, inode and size, the
  bytes that the private mapping shows, and whether the two mappings succeed.
\<close>

record os_file =
  of_fd :: int
  of_stat :: "(int \<times> nat) option"
  of_content :: "nat \<Rightarrow> byte"
  of_mmap_ok :: bool
  of_extra_ok :: bool

abbreviation (input) MEMFS_MAX_FILENAME :: nat where "MEMFS_MAX_FILENAME \<equiv> 256"
abbreviation (input) MEMFS_MAX_FILES :: nat where "MEMFS_MAX_FILES \<equiv> 50"
abbreviation (input) MEMFS_MMAP_EXTRA_SPACE :: nat where "MEMFS_MMAP_EXTRA_SPACE \<equiv> 536870912"
abbreviation (input) MEMFS_FD_START :: int where "MEMFS_FD_START \<equiv> 100"
abbreviation (input) SKI_EXIT_MEMFS :: int where "SKI_EXIT_MEMFS \<equiv> 3"
abbreviation (input) SKI_EXIT_MEMFS_LOWMEM :: int where "SKI_EXIT_MEMFS_LOWMEM \<equiv> 3"
abbreviation (input) O_APPEND :: int where "O_APPEND \<equiv> 1024"

definition MEMFS_ASSERT :: "bool \<Rightarrow> unit res" where
  "MEMFS_ASSERT b = SKI_ASSERT_MSG b SKI_EXIT_MEMFS"

text \<open>The value of an expression stored into a \<open>size_t\<close>.\<close>

definition size_t :: "int \<Rightarrow> nat" where
  "size_t v = nat (v mod 2 ^ 64)"

text \<open>
  The first intercepted call reads the options and clears the table of handles; \<open>test_env\<close> and
  \<open>enabled_env\<close> are the numbers in the environment, if set.
\<close>

definition init_wrappers :: "bool \<Rightarrow> int option \<Rightarrow> int option \<Rightarrow> memfs \<Rightarrow> memfs res" where
  "init_wrappers wrappers_initialized test_env enabled_env m =
    (if wrappers_initialized then Inr m
     else let test_mode = (case test_env of None \<Rightarrow> 0 | Some v \<Rightarrow> v);
              enabled = (case enabled_env of None \<Rightarrow> 1 | Some v \<Rightarrow> v)
          in bind_res (MEMFS_ASSERT (\<not> (test_mode \<noteq> 0 \<and> enabled = 0))) (\<lambda>_.
               Inr (m\<lparr>files := [], ski_memfs_enabled := (enabled \<noteq> 0)\<rparr>)))"

section \<open>Which files are intercepted\<close>

definition str_ends_with :: "string \<Rightarrow> string \<Rightarrow> bool" where
  "str_ends_with str suffix =
    (if length str < length suffix then False else drop (length str - length suffix) str = suffix)"

fun strstr :: "string \<Rightarrow> string \<Rightarrow> bool" where
  "strstr [] t \<longleftrightarrow> t = []"
| "strstr (c # cs) t \<longleftrightarrow> take (length t) (c # cs) = t \<or> strstr cs t"

definition memfs_intercept_filename :: "string \<Rightarrow> bool" where
  "memfs_intercept_filename pathname =
    (if str_ends_with pathname ''.ipfilter'' then False
     else if str_ends_with pathname ''.txt'' \<and> strstr pathname ''trace_'' then False
     else if str_ends_with pathname ''.txt'' \<and> strstr pathname ''msg_'' then False
     else if str_ends_with pathname ''.txt'' \<and> strstr pathname ''console_'' then False
     else if str_ends_with pathname ''.txt'' \<and> strstr pathname ''heuristics_'' then False
     else if str_ends_with pathname ''.txt'' \<and> strstr pathname ''run_'' then False
     else if str_ends_with pathname ''.txt'' \<and> strstr pathname ''forkall_'' then False
     else if str_ends_with pathname ''.txt'' \<and> strstr pathname ''console'' then False
     else \<not> strstr pathname ''/dev/null'')"

definition memfs_ignorelist_add :: "memfs \<Rightarrow> string \<Rightarrow> memfs res" where
  "memfs_ignorelist_add m filename =
    bind_res (MEMFS_ASSERT (length (ignorelist m) < MEMFS_MAX_FILES)) (\<lambda>_.
    bind_res (MEMFS_ASSERT (length filename < MEMFS_MAX_FILENAME)) (\<lambda>_.
      Inr (m\<lparr>ignorelist := ignorelist m @ [filename]\<rparr>)))"

section \<open>Lookup\<close>

definition memfs_get_file :: "memfs \<Rightarrow> stream \<Rightarrow> nat option res" where
  "memfs_get_file m fp =
    (case fp of
       Mem i \<Rightarrow>
         if i < length (files m)
         then bind_res (MEMFS_ASSERT (\<not> mf_closed (files m ! i))) (\<lambda>_. Inr (Some i))
         else Inr None
     | Os p \<Rightarrow> Inr None)"

definition memfs_get_fd :: "memfs \<Rightarrow> int \<Rightarrow> nat option res" where
  "memfs_get_fd m fd =
    (let f_index = fd - MEMFS_FD_START
     in if f_index \<ge> 0 \<and> f_index < int (length (files m))
        then bind_res (MEMFS_ASSERT (\<not> mf_closed (files m ! nat f_index))) (\<lambda>_. Inr (Some (nat f_index)))
        else Inr None)"

definition memfs_get_filename :: "memfs \<Rightarrow> string \<Rightarrow> nat option" where
  "memfs_get_filename m filename =
    find (\<lambda>i. \<not> mf_closed (files m ! i) \<and> mf_filename (files m ! i) = filename) [0..<length (files m)]"

definition upd_file :: "nat \<Rightarrow> (memfs_file \<Rightarrow> memfs_file) \<Rightarrow> memfs \<Rightarrow> memfs" where
  "upd_file i f m = m\<lparr>files := (files m)[i := f (files m ! i)]\<rparr>"

definition sup_of :: "memfs \<Rightarrow> nat \<Rightarrow> memfs_support" where
  "sup_of m i = sups m ! mf_sup (files m ! i)"

definition upd_sup :: "nat \<Rightarrow> memfs_support \<Rightarrow> memfs \<Rightarrow> memfs" where
  "upd_sup i s m = m\<lparr>sups := (sups m)[mf_sup (files m ! i) := s]\<rparr>"

section \<open>Opening and closing\<close>

definition memfs_close :: "memfs \<Rightarrow> nat \<Rightarrow> memfs \<times> int" where
  "memfs_close m i = (upd_file i (\<lambda>f. f\<lparr>mf_closed := True\<rparr>) m, 0)"

definition new_support :: "string \<Rightarrow> int \<Rightarrow> nat \<Rightarrow> os_file \<Rightarrow> memfs_support res" where
  "new_support path inode st_size osf =
    bind_res (MEMFS_ASSERT (st_size > 0 \<longrightarrow> of_mmap_ok osf)) (\<lambda>_.
    bind_res (MEMFS_ASSERT (of_extra_ok osf)) (\<lambda>_.
      Inr \<lparr>ms_filename = path, ms_inode = inode, ms_mmap = of_content osf, ms_mmap_length = st_size,
           ms_extra = (\<lambda>_. 0), ms_extra_length = MEMFS_MMAP_EXTRA_SPACE, ms_length = st_size\<rparr>))"

definition memfs_support_open :: "memfs \<Rightarrow> string \<Rightarrow> int \<Rightarrow> os_file \<Rightarrow> (memfs \<times> nat) res" where
  "memfs_support_open m path fd osf =
    bind_res (MEMFS_ASSERT (fd \<noteq> 0)) (\<lambda>_.
    case of_stat osf of
      None \<Rightarrow> bind_res (MEMFS_ASSERT False) (\<lambda>_. Inr (m, 0))
    | Some (st_ino, st_size) \<Rightarrow>
        let inode = int32 st_ino
        in case find (\<lambda>i. ms_inode (sups m ! i) = inode) [0..<length (sups m)] of
             Some i \<Rightarrow> Inr (m, i)
           | None \<Rightarrow>
               bind_res (MEMFS_ASSERT (length path < MEMFS_MAX_FILENAME - 1)) (\<lambda>_.
               bind_res (MEMFS_ASSERT (length (sups m) < MEMFS_MAX_FILES)) (\<lambda>_.
               bind_res (new_support path inode st_size osf) (\<lambda>s.
                 Inr (m\<lparr>sups := sups m @ [s]\<rparr>, length (sups m))))))"

definition memfs_open :: "memfs \<Rightarrow> string \<Rightarrow> int \<Rightarrow> int option \<Rightarrow> os_file \<Rightarrow> (memfs \<times> nat) res" where
  "memfs_open m path fd file osf =
    bind_res (MEMFS_ASSERT (fd = 0 \<longrightarrow> file \<noteq> None)) (\<lambda>_.
    let (fd, file) = (if fd = 0 then (of_fd osf, file) else (fd, None))
    in bind_res (MEMFS_ASSERT (length path < MEMFS_MAX_FILENAME - 1)) (\<lambda>_.
       bind_res (MEMFS_ASSERT (length (sups m) < MEMFS_MAX_FILES)) (\<lambda>_.
       if length (files m) \<ge> MEMFS_MAX_FILES then Inl Out_of_bounds
       else bind_res (memfs_support_open m path fd osf) (\<lambda>(m, k).
         Inr (m\<lparr>files := files m @ [\<lparr>mf_id = length (files m), mf_filename = path, mf_fd = fd,
                  mf_file = file, mf_closed = False, mf_off = 0, mf_sup = k\<rparr>]\<rparr>, length (files m))))))"

section \<open>Reading and writing\<close>

text \<open>
  \<open>memfs_read\<close> and \<open>memfs_write\<close> work on the support of the handle and then move its
  offset if asked to; the first parts are \<open>sup_read\<close> and \<open>sup_write\<close>.  A buffer \<open>None\<close> is the
  null pointer, which writes zeroes.
\<close>

definition mem_read :: "(nat \<Rightarrow> byte) \<Rightarrow> nat \<Rightarrow> nat \<Rightarrow> byte list" where
  "mem_read mem a n = map (\<lambda>i. mem (a + i)) [0..<n]"

definition mem_copy :: "(nat \<Rightarrow> byte) \<Rightarrow> nat \<Rightarrow> byte list \<Rightarrow> nat \<Rightarrow> byte" where
  "mem_copy mem a bs = (\<lambda>i. if a \<le> i \<and> i < a + length bs then bs ! (i - a) else mem i)"

definition buffer_part :: "byte list option \<Rightarrow> nat \<Rightarrow> nat \<Rightarrow> byte list res" where
  "buffer_part ptr from n =
    (case ptr of
       None \<Rightarrow> Inr (replicate n 0)
     | Some bs \<Rightarrow> if from + n \<le> length bs then Inr (take n (drop from bs)) else Inl Out_of_bounds)"

definition read_blocks :: "memfs_support \<Rightarrow> nat \<Rightarrow> nat \<Rightarrow> byte list res" where
  "read_blocks s off len =
    (let mmap_read_length = (if off < ms_mmap_length s then min (ms_mmap_length s - off) len else 0);
         front = mem_read (ms_mmap s) off mmap_read_length
     in if mmap_read_length \<noteq> len
        then let extra_read_length = len - mmap_read_length;
                 extra_off = (if mmap_read_length \<noteq> 0 then 0 else off - ms_mmap_length s)
             in bind_res (MEMFS_ASSERT (size_t (int extra_off + int extra_read_length) \<le> ms_extra_length s)) (\<lambda>_.
                  Inr (front @ mem_read (ms_extra s) extra_off extra_read_length))
        else Inr front)"

definition sup_read :: "memfs_support \<Rightarrow> nat \<Rightarrow> nat \<Rightarrow> nat \<Rightarrow> byte list option res" where
  "sup_read s sz nmemb off =
    (let len = size_t (int sz * int nmemb)
     in if off > ms_length s then Inr None
        else if off = ms_length s then Inr None
        else if size_t (int off + int len) > ms_length s
        then if sz = 0 then Inl Div_by_zero
             else bind_res (read_blocks s off ((ms_length s - off) div sz * sz)) (\<lambda>bs. Inr (Some bs))
        else bind_res (read_blocks s off len) (\<lambda>bs. Inr (Some bs)))"

text \<open>At or after the end of the file nothing is read and the offset stays.\<close>

definition memfs_read :: "memfs \<Rightarrow> nat \<Rightarrow> nat \<Rightarrow> nat \<Rightarrow> nat \<Rightarrow> bool \<Rightarrow> (memfs \<times> byte list) res" where
  "memfs_read m sz nmemb off i update_off =
    bind_res (sup_read (sup_of m i) sz nmemb off) (\<lambda>r.
      case r of
        None \<Rightarrow> Inr (m, [])
      | Some bs \<Rightarrow>
          Inr (if update_off then upd_file i (\<lambda>f. f\<lparr>mf_off := size_t (int off + int (length bs))\<rparr>) m else m, bs))"

definition write_blocks :: "byte list option \<Rightarrow> nat \<Rightarrow> nat \<Rightarrow> memfs_support \<Rightarrow> memfs_support res" where
  "write_blocks ptr len off s =
    (let mmap_write_length = (if off < ms_mmap_length s then min (ms_mmap_length s - off) len else 0)
     in bind_res (if off < ms_mmap_length s
          then bind_res (buffer_part ptr 0 mmap_write_length) (\<lambda>bs.
            Inr (s\<lparr>ms_mmap := mem_copy (ms_mmap s) off bs\<rparr>))
          else Inr s) (\<lambda>s.
        bind_res (if mmap_write_length \<noteq> len
          then let extra_write_length = len - mmap_write_length;
                   extra_off = (if mmap_write_length \<noteq> 0 then 0 else off - ms_mmap_length s)
               in bind_res (SKI_ASSERT_MSG (size_t (int extra_off + int extra_write_length) \<le> ms_extra_length s)
                    SKI_EXIT_MEMFS_LOWMEM) (\<lambda>_.
                  bind_res (buffer_part ptr mmap_write_length extra_write_length) (\<lambda>bs.
                    Inr (s\<lparr>ms_extra := mem_copy (ms_extra s) extra_off bs\<rparr>)))
          else Inr s) (\<lambda>s.
        Inr (s\<lparr>ms_length := max (ms_length s) (size_t (int off + int len))\<rparr>))))"

function sup_write :: "byte list option \<Rightarrow> nat \<Rightarrow> nat \<Rightarrow> nat \<Rightarrow> memfs_support \<Rightarrow> (memfs_support \<times> nat) res" where
  "sup_write ptr sz nmemb off s =
    (let len = size_t (int sz * int nmemb)
     in bind_res (if off > ms_length s
          then bind_res (sup_write None (off - ms_length s) 1 (ms_length s) s) (\<lambda>(s, _).
               bind_res (MEMFS_ASSERT (off \<le> ms_length s)) (\<lambda>_. Inr s))
          else Inr s) (\<lambda>s.
        bind_res (write_blocks ptr len off s) (\<lambda>s. Inr (s, len))))"
  by pat_completeness auto
termination
  by (relation "measure (\<lambda>(ptr, sz, nmemb, off, s). off - ms_length s)") auto

declare sup_write.simps [simp del]

definition memfs_write :: "memfs \<Rightarrow> byte list option \<Rightarrow> nat \<Rightarrow> nat \<Rightarrow> nat \<Rightarrow> nat \<Rightarrow> bool \<Rightarrow> (memfs \<times> nat) res" where
  "memfs_write m ptr sz nmemb off i update_off =
    bind_res (sup_write ptr sz nmemb off (sup_of m i)) (\<lambda>(s, len).
      let m = upd_sup i s m
      in Inr (if update_off then upd_file i (\<lambda>f. f\<lparr>mf_off := size_t (int off + int len)\<rparr>) m else m, len))"

section \<open>The intercepted calls\<close>

text \<open>The result \<open>None\<close> means that the call is passed on to the C library with its arguments.\<close>

type_synonym 'a hook = "(memfs \<times> 'a) option res"

definition on_stream :: "memfs \<Rightarrow> stream \<Rightarrow> (nat \<Rightarrow> (memfs \<times> 'a) res) \<Rightarrow> 'a hook" where
  "on_stream m fp body =
    (if ski_memfs_enabled m
     then bind_res (memfs_get_file m fp) (\<lambda>f.
       case f of None \<Rightarrow> Inr None | Some i \<Rightarrow> bind_res (body i) (\<lambda>r. Inr (Some r)))
     else Inr None)"

definition on_fd :: "memfs \<Rightarrow> int \<Rightarrow> (nat \<Rightarrow> (memfs \<times> 'a) res) \<Rightarrow> 'a hook" where
  "on_fd m fd body =
    (if ski_memfs_enabled m
     then bind_res (memfs_get_fd m fd) (\<lambda>f.
       case f of None \<Rightarrow> Inr None | Some i \<Rightarrow> bind_res (body i) (\<lambda>r. Inr (Some r)))
     else Inr None)"

text \<open>\<open>fopen\<close>; \<open>r\<close> is what the library returned, \<open>None\<close> for the null pointer.\<close>

definition hook_fopen :: "memfs \<Rightarrow> string \<Rightarrow> string \<Rightarrow> (int \<times> os_file) option \<Rightarrow> (memfs \<times> stream option) res" where
  "hook_fopen m path mode r =
    (if ski_memfs_enabled m
     then if \<not> memfs_intercept_filename path
       then bind_res (memfs_ignorelist_add m path) (\<lambda>m. Inr (m, map_option (\<lambda>(file, _). Os file) r))
       else case r of
         None \<Rightarrow> Inr (m, None)
       | Some (file, osf) \<Rightarrow>
           bind_res (MEMFS_ASSERT (take 1 mode \<noteq> ''a'')) (\<lambda>_.
           bind_res (memfs_open m path 0 (Some file) osf) (\<lambda>(m, f). Inr (m, Some (Mem f))))
     else Inr (m, map_option (\<lambda>(file, _). Os file) r))"

definition hook_fclose :: "memfs \<Rightarrow> stream \<Rightarrow> (memfs \<times> int) res" where
  "hook_fclose m fp =
    bind_res (on_stream m fp (\<lambda>i. Inr (memfs_close m i))) (\<lambda>r.
      Inr (case r of None \<Rightarrow> (m, 0) | Some x \<Rightarrow> x))"

definition hook_fread :: "memfs \<Rightarrow> nat \<Rightarrow> nat \<Rightarrow> stream \<Rightarrow> (byte list \<times> nat) hook" where
  "hook_fread m sz nmemb fp = on_stream m fp (\<lambda>i.
    bind_res (memfs_read m sz nmemb (mf_off (files m ! i)) i True) (\<lambda>(m, bs).
      if sz = 0 then Inl Div_by_zero else Inr (m, bs, length bs div sz)))"

definition hook_fwrite :: "memfs \<Rightarrow> byte list \<Rightarrow> nat \<Rightarrow> nat \<Rightarrow> stream \<Rightarrow> nat hook" where
  "hook_fwrite m ptr sz nmemb fp = on_stream m fp (\<lambda>i.
    bind_res (memfs_write m (Some ptr) sz nmemb (mf_off (files m ! i)) i True) (\<lambda>(m, bytes).
      if sz = 0 then Inl Div_by_zero else Inr (m, bytes div sz)))"

text \<open>
  \<open>fprintf\<close> of a text; \<open>rest\<close> is what the buffer on the stack holds after the terminator.
\<close>

definition hook_fprintf :: "memfs \<Rightarrow> byte list \<Rightarrow> (nat \<Rightarrow> byte) \<Rightarrow> stream \<Rightarrow> int hook" where
  "hook_fprintf m text rest fp = on_stream m fp (\<lambda>i.
    bind_res (MEMFS_ASSERT (length text < 1024)) (\<lambda>_.
    bind_res (hook_fwrite m (text @ 0 # map rest [0..<1023 - length text]) 1024 1 fp) (\<lambda>r.
      case r of
        None \<Rightarrow> Inr (m, int (length text))
      | Some (m, fwrite_ret) \<Rightarrow>
          bind_res (MEMFS_ASSERT (fwrite_ret = 1)) (\<lambda>_. Inr (m, int (length text))))))"

definition hook_clearerr :: "memfs \<Rightarrow> stream \<Rightarrow> unit hook" where
  "hook_clearerr m fp = on_stream m fp (\<lambda>i. bind_res (MEMFS_ASSERT False) (\<lambda>_. Inr (m, ())))"

definition hook_feof :: "memfs \<Rightarrow> stream \<Rightarrow> int hook" where
  "hook_feof m fp = on_stream m fp (\<lambda>i. bind_res (MEMFS_ASSERT False) (\<lambda>_. Inr (m, 0)))"

definition hook_ferror :: "memfs \<Rightarrow> stream \<Rightarrow> int hook" where
  "hook_ferror m fp = on_stream m fp (\<lambda>i. bind_res (MEMFS_ASSERT False) (\<lambda>_. Inr (m, 0)))"

definition hook_fileno :: "memfs \<Rightarrow> stream \<Rightarrow> int hook" where
  "hook_fileno m fp = on_stream m fp (\<lambda>i. Inr (m, int (mf_id (files m ! i)) + MEMFS_FD_START))"

text \<open>The switch on \<open>whence\<close> (0, 1 and 2 for start, current and end) with its checks.\<close>

definition seek :: "memfs \<Rightarrow> nat \<Rightarrow> int \<Rightarrow> int \<Rightarrow> memfs res" where
  "seek m i offset whence =
    bind_res (if whence = 0 then Inr (size_t offset)
      else if whence = 1 then Inr (size_t (int (mf_off (files m ! i)) + offset))
      else if whence = 2 then Inr (size_t (int (ms_length (sup_of m i)) + offset))
      else bind_res (MEMFS_ASSERT False) (\<lambda>_. Inr 0)) (\<lambda>off.
    bind_res (MEMFS_ASSERT (off \<ge> 0)) (\<lambda>_.
    bind_res (MEMFS_ASSERT (off \<le> ms_length (sup_of m i))) (\<lambda>_.
      Inr (upd_file i (\<lambda>f. f\<lparr>mf_off := off\<rparr>) m))))"

definition hook_fseek :: "memfs \<Rightarrow> stream \<Rightarrow> int \<Rightarrow> int \<Rightarrow> int hook" where
  "hook_fseek m fp offset whence = on_stream m fp (\<lambda>i.
    bind_res (seek m i offset whence) (\<lambda>m. Inr (m, 0)))"

definition hook_ftell :: "memfs \<Rightarrow> stream \<Rightarrow> int hook" where
  "hook_ftell m fp = on_stream m fp (\<lambda>i. Inr (m, int (mf_off (files m ! i))))"

definition hook_rewind :: "memfs \<Rightarrow> stream \<Rightarrow> unit hook" where
  "hook_rewind m fp = on_stream m fp (\<lambda>i. Inr (upd_file i (\<lambda>f. f\<lparr>mf_off := 0\<rparr>) m, ()))"

text \<open>\<open>open\<close>; the descriptor that the system returned is part of \<open>osf\<close>.\<close>

definition hook_open :: "memfs \<Rightarrow> string \<Rightarrow> int \<Rightarrow> os_file \<Rightarrow> (memfs \<times> int) res" where
  "hook_open m pathname flags osf =
    (if \<not> ski_memfs_enabled m \<or> \<not> memfs_intercept_filename pathname
     then bind_res (memfs_ignorelist_add m pathname) (\<lambda>m. Inr (m, of_fd osf))
     else if of_fd osf \<noteq> 0
     then bind_res (memfs_open m pathname (of_fd osf) None osf) (\<lambda>(m, f).
       let m = (if flags AND O_APPEND \<noteq> 0
                then upd_file f (\<lambda>x. x\<lparr>mf_off := ms_length (sup_of m f)\<rparr>) m else m)
       in Inr (m, int (mf_id (files m ! f)) + MEMFS_FD_START))
     else Inr (m, 0))"

text \<open>The flags are \<open>O_CREAT|O_WRONLY|O_TRUNC\<close>.\<close>

definition hook_creat :: "memfs \<Rightarrow> string \<Rightarrow> os_file \<Rightarrow> int hook" where
  "hook_creat m pathname osf =
    (if ski_memfs_enabled m then bind_res (hook_open m pathname (64 OR 1 OR 512) osf) (\<lambda>r. Inr (Some r)) else Inr None)"

definition hook_close :: "memfs \<Rightarrow> int \<Rightarrow> (memfs \<times> int) res" where
  "hook_close m fd =
    bind_res (on_fd m fd (\<lambda>i. Inr (memfs_close m i))) (\<lambda>r.
      Inr (case r of None \<Rightarrow> (m, 0) | Some x \<Rightarrow> x))"

definition hook_read :: "memfs \<Rightarrow> int \<Rightarrow> nat \<Rightarrow> byte list hook" where
  "hook_read m fd n = on_fd m fd (\<lambda>i. memfs_read m 1 n (mf_off (files m ! i)) i True)"

definition hook_pread :: "memfs \<Rightarrow> int \<Rightarrow> nat \<Rightarrow> int \<Rightarrow> byte list hook" where
  "hook_pread m fd n offset = on_fd m fd (\<lambda>i. memfs_read m 1 n (size_t offset) i False)"

definition hook_write :: "memfs \<Rightarrow> int \<Rightarrow> byte list \<Rightarrow> nat hook" where
  "hook_write m fd ptr = on_fd m fd (\<lambda>i. memfs_write m (Some ptr) 1 (length ptr) (mf_off (files m ! i)) i True)"

definition hook_pwrite :: "memfs \<Rightarrow> int \<Rightarrow> byte list \<Rightarrow> int \<Rightarrow> nat hook" where
  "hook_pwrite m fd ptr offset = on_fd m fd (\<lambda>i. memfs_write m (Some ptr) 1 (length ptr) (size_t offset) i False)"

definition hook_ftruncate :: "memfs \<Rightarrow> int \<Rightarrow> int \<Rightarrow> int hook" where
  "hook_ftruncate m fd l = on_fd m fd (\<lambda>i.
    if size_t l > ms_length (sup_of m i) then bind_res (MEMFS_ASSERT False) (\<lambda>_. Inr (m, 0))
    else Inr (upd_sup i ((sup_of m i)\<lparr>ms_length := size_t l\<rparr>) m, 0))"

definition hook_lseek :: "memfs \<Rightarrow> int \<Rightarrow> int \<Rightarrow> int \<Rightarrow> int hook" where
  "hook_lseek m fd offset whence = on_fd m fd (\<lambda>i.
    bind_res (seek m i offset whence) (\<lambda>m. Inr (m, int (mf_off (files m ! i)))))"

text \<open>Sets of descriptors are lists, and \<open>None\<close> is the null pointer.\<close>

definition FD_ISSET :: "int \<Rightarrow> int list option \<Rightarrow> bool res" where
  "FD_ISSET fd fds = bind_res (null_check fds) (\<lambda>l. Inr (fd \<in> set l))"

definition fd_isset_opt :: "int \<Rightarrow> int list option \<Rightarrow> bool" where
  "fd_isset_opt fd fds = (case fds of None \<Rightarrow> False | Some l \<Rightarrow> fd \<in> set l)"

definition select_own :: "memfs_file \<Rightarrow> int list option \<Rightarrow> int list option \<Rightarrow> int list option \<Rightarrow> unit res" where
  "select_own f readfds writefds exceptfds =
    (let fd = int (mf_id f) + MEMFS_FD_START
     in MEMFS_ASSERT (\<not> (\<not> mf_closed f \<and>
          (fd_isset_opt fd readfds \<or> fd_isset_opt fd writefds \<or> fd_isset_opt fd exceptfds))))"

definition hook_select :: "memfs \<Rightarrow> int list option \<Rightarrow> int list option \<Rightarrow> int list option \<Rightarrow> unit res" where
  "hook_select m readfds writefds exceptfds = fold_res (\<lambda>_ f.
    bind_res (MEMFS_ASSERT (\<not> (\<not> mf_closed f \<and>
        (fd_isset_opt (mf_fd f) readfds \<or> fd_isset_opt (mf_fd f) writefds \<or> fd_isset_opt (mf_fd f) exceptfds)))) (\<lambda>_.
      select_own f readfds writefds exceptfds)) () (files m)"

definition hook_pselect :: "memfs \<Rightarrow> int list option \<Rightarrow> int list option \<Rightarrow> int list option \<Rightarrow> unit res" where
  "hook_pselect m readfds writefds exceptfds = fold_res (\<lambda>_ f.
    bind_res (FD_ISSET (mf_fd f) readfds) (\<lambda>r.
    bind_res (FD_ISSET (mf_fd f) writefds) (\<lambda>w.
    bind_res (FD_ISSET (mf_fd f) exceptfds) (\<lambda>e.
    bind_res (MEMFS_ASSERT (\<not> (\<not> mf_closed f \<and> (r \<or> w \<or> e)))) (\<lambda>_.
      select_own f readfds writefds exceptfds))))) () (files m)"

text \<open>The result and size that the system reports, and those that the caller gets.\<close>

definition hook_stat :: "memfs \<Rightarrow> string \<Rightarrow> int \<times> nat \<Rightarrow> (int \<times> nat) res" where
  "hook_stat m path st =
    (if ski_memfs_enabled m
     then case memfs_get_filename m path of
            None \<Rightarrow> Inr st
          | Some i \<Rightarrow> bind_res (MEMFS_ASSERT (fst st = 0)) (\<lambda>_. Inr (fst st, ms_length (sup_of m i)))
     else Inr st)"

text \<open>\<open>sys\<close> is the system's answer for a descriptor.\<close>

definition hook_fstat :: "memfs \<Rightarrow> int \<Rightarrow> (int \<Rightarrow> int \<times> nat) \<Rightarrow> (int \<times> nat) res" where
  "hook_fstat m fd sys =
    bind_res (on_fd m fd (\<lambda>i.
      bind_res (MEMFS_ASSERT (fst (sys (mf_fd (files m ! i))) = 0)) (\<lambda>_.
        Inr (m, fst (sys (mf_fd (files m ! i))), ms_length (sup_of m i))))) (\<lambda>r.
      Inr (case r of None \<Rightarrow> sys fd | Some (_, st) \<Rightarrow> st))"

text \<open>
  \<open>fgets\<close> reads into a local array first.  The size is an \<open>int\<close> that is compared and passed on
  as a \<open>size_t\<close>.
\<close>

definition first_line :: "byte list \<Rightarrow> byte list" where
  "first_line bs =
    (let str = takeWhile (\<lambda>b. b \<noteq> 0) bs; line = takeWhile (\<lambda>b. b \<noteq> 10) str
     in if length line < length str then line @ [10] else line)"

definition hook_fgets :: "memfs \<Rightarrow> int \<Rightarrow> stream \<Rightarrow> byte list option hook" where
  "hook_fgets m sz fp = on_stream m fp (\<lambda>i.
    bind_res (MEMFS_ASSERT (size_t sz < 4096)) (\<lambda>_.
    bind_res (memfs_read m 1 (size_t (sz - 1)) (mf_off (files m ! i)) i False) (\<lambda>(m, bs).
    if length bs > 4096 then Inl Out_of_bounds
    else bind_res (MEMFS_ASSERT (length bs < size_t sz)) (\<lambda>_.
      let str = first_line bs;
          m = upd_file i (\<lambda>f. f\<lparr>mf_off := size_t (int (mf_off f) + int (length str))\<rparr>) m
      in Inr (m, if str \<noteq> [] then Some str else None)))))"

text \<open>The commands that are passed on, with the descriptor that the caller gave.\<close>

definition hook_fcntl :: "int \<Rightarrow> unit res" where
  "hook_fcntl cmd = MEMFS_ASSERT (cmd \<in> {0, 1030, 1, 2, 3, 4})"

definition hook_dup :: "memfs \<Rightarrow> int \<Rightarrow> unit res" where
  "hook_dup m oldfd =
    (if ski_memfs_enabled m then fold_res (\<lambda>_ f. MEMFS_ASSERT (mf_fd f \<noteq> oldfd)) () (files m) else Inr ())"

definition hook_dup2 :: "memfs \<Rightarrow> int \<Rightarrow> int \<Rightarrow> unit res" where
  "hook_dup2 m oldfd newfd =
    (if ski_memfs_enabled m
     then fold_res (\<lambda>_ f. MEMFS_ASSERT (\<not> (mf_fd f = oldfd \<or> mf_fd f = newfd))) () (files m) else Inr ())"

section \<open>The contents of a file\<close>

definition byte_at :: "memfs_support \<Rightarrow> nat \<Rightarrow> byte" where
  "byte_at s i = (if i < ms_mmap_length s then ms_mmap s i else ms_extra s (i - ms_mmap_length s))"

definition contents :: "memfs_support \<Rightarrow> byte list" where
  "contents s = map (byte_at s) [0..<ms_length s]"

definition sup_capacity :: "memfs_support \<Rightarrow> nat" where
  "sup_capacity s = ms_mmap_length s + ms_extra_length s"

definition sup_wf :: "memfs_support \<Rightarrow> bool" where
  "sup_wf s \<longleftrightarrow> ms_length s \<le> sup_capacity s \<and> sup_capacity s < 2 ^ 63"

text \<open>Reading and writing a list of bytes at an offset.\<close>

definition file_read :: "byte list \<Rightarrow> nat \<Rightarrow> nat \<Rightarrow> nat \<Rightarrow> byte list" where
  "file_read xs off sz nmemb =
    take (if off + sz * nmemb \<le> length xs then sz * nmemb else (length xs - off) div sz * sz) (drop off xs)"

definition file_write :: "byte list \<Rightarrow> nat \<Rightarrow> byte list \<Rightarrow> byte list" where
  "file_write xs off bs =
    (let ys = xs @ replicate (off - length xs) 0 in take off ys @ bs @ drop (off + length bs) ys)"

lemma size_t_id [simp]: "n < 2 ^ 64 \<Longrightarrow> size_t (int n) = n"
  by (simp add: size_t_def nat_mod_as_int[symmetric] nat_mod_distrib)

lemma length_contents [simp]: "length (contents s) = ms_length s"
  by (simp add: contents_def)

lemma nth_contents: "i < ms_length s \<Longrightarrow> contents s ! i = byte_at s i"
  by (simp add: contents_def)

lemma contents_eqI:
  assumes "ms_length s = length xs" "\<And>i. i < length xs \<Longrightarrow> byte_at s i = xs ! i"
  shows "contents s = xs"
  using assms by (intro nth_equalityI) (simp_all add: nth_contents)

lemma length_file_write: "length (file_write xs off bs) = max (length xs) (off + length bs)"
  by (simp add: file_write_def Let_def)

lemma nth_file_write:
  assumes "i < max (length xs) (off + length bs)"
  shows "file_write xs off bs ! i =
    (if off \<le> i \<and> i < off + length bs then bs ! (i - off) else if i < length xs then xs ! i else 0)"
  using assms by (auto simp: file_write_def Let_def nth_append min_def max_def split: if_splits)

text \<open>How a range of the file divides into a part of the mapping and a part of the extra block.\<close>

definition front_part :: "memfs_support \<Rightarrow> nat \<Rightarrow> nat \<Rightarrow> nat" where
  "front_part s off n = (if off < ms_mmap_length s then min (ms_mmap_length s - off) n else 0)"

definition extra_start :: "memfs_support \<Rightarrow> nat \<Rightarrow> nat \<Rightarrow> nat" where
  "extra_start s off n = (if front_part s off n \<noteq> 0 then 0 else off - ms_mmap_length s)"

lemma front_le: "front_part s off n \<le> n"
  by (simp add: front_part_def)

lemma front_outside: "\<not> off < ms_mmap_length s \<Longrightarrow> front_part s off n = 0"
  by (simp add: front_part_def)

lemma front_byte: "i < front_part s off n \<Longrightarrow> off + i < ms_mmap_length s"
  by (auto simp: front_part_def split: if_splits)

lemma extra_byte:
  "front_part s off n \<le> i \<Longrightarrow> i < n \<Longrightarrow>
    ms_mmap_length s \<le> off + i \<and> extra_start s off n + (i - front_part s off n) = off + i - ms_mmap_length s"
  by (auto simp: front_part_def extra_start_def split: if_splits)

lemma extra_room:
  assumes "front_part s off n \<noteq> n"
  shows "extra_start s off n + (n - front_part s off n) \<le> ms_extra_length s \<longleftrightarrow> off + n \<le> sup_capacity s"
  using assms by (auto simp: front_part_def extra_start_def sup_capacity_def split: if_splits)

lemma extra_size:
  assumes "front_part s off n \<noteq> n" "off + n < 2 ^ 64"
  shows "size_t (int (extra_start s off n) + int (n - front_part s off n)) = extra_start s off n + (n - front_part s off n)"
proof -
  have "extra_start s off n + (n - front_part s off n) < 2 ^ 64"
    using assms by (auto simp: front_part_def extra_start_def split: if_splits)
  from size_t_id[OF this] show ?thesis by (simp only: of_nat_add)
qed

lemma read_blocks_alt:
  "read_blocks s off n =
    (if front_part s off n \<noteq> n
     then bind_res (MEMFS_ASSERT (size_t (int (extra_start s off n) + int (n - front_part s off n)) \<le> ms_extra_length s)) (\<lambda>_.
       Inr (mem_read (ms_mmap s) off (front_part s off n) @
            mem_read (ms_extra s) (extra_start s off n) (n - front_part s off n)))
     else Inr (mem_read (ms_mmap s) off (front_part s off n)))"
  unfolding read_blocks_def Let_def extra_start_def front_part_def by (rule refl)

lemma read_blocks_spec:
  assumes "sup_wf s" "off + n \<le> ms_length s"
  shows "read_blocks s off n = Inr (take n (drop off (contents s)))"
proof -
  let ?k = "front_part s off n" and ?e = "extra_start s off n"
  have "off + n \<le> sup_capacity s" "off + n < 2 ^ 64" using assms by (auto simp: sup_wf_def)
  then have "read_blocks s off n = Inr (mem_read (ms_mmap s) off ?k @ (if ?k \<noteq> n then mem_read (ms_extra s) ?e (n - ?k) else []))"
    using extra_size[of s off n] extra_room[of s off n]
    by (simp add: read_blocks_alt MEMFS_ASSERT_def SKI_ASSERT_MSG_def)
  moreover have "mem_read (ms_mmap s) off ?k @ (if ?k \<noteq> n then mem_read (ms_extra s) ?e (n - ?k) else []) =
      take n (drop off (contents s))"
  proof (rule nth_equalityI)
    show "length (mem_read (ms_mmap s) off ?k @ (if ?k \<noteq> n then mem_read (ms_extra s) ?e (n - ?k) else [])) =
        length (take n (drop off (contents s)))"
      using assms(2) front_le[of s off n] by (simp add: mem_read_def)
    fix i
    assume "i < length (mem_read (ms_mmap s) off ?k @ (if ?k \<noteq> n then mem_read (ms_extra s) ?e (n - ?k) else []))"
    then have i: "i < n" using front_le[of s off n] by (auto simp: mem_read_def split: if_splits)
    then show "(mem_read (ms_mmap s) off ?k @ (if ?k \<noteq> n then mem_read (ms_extra s) ?e (n - ?k) else [])) ! i =
        take n (drop off (contents s)) ! i"
      using front_byte[of i s off n] extra_byte[of s off n i] assms(2)
      by (cases "i < ?k") (simp_all add: mem_read_def nth_append nth_contents byte_at_def)
  qed
  ultimately show ?thesis by simp
qed

lemma sup_read_spec:
  assumes "sup_wf s" "sz * nmemb < 2 ^ 63"
  shows "sup_read s sz nmemb off =
    Inr (if off \<ge> ms_length s then None else Some (file_read (contents s) off sz nmemb))"
proof (cases "off \<ge> ms_length s")
  case False
  have len: "size_t (int sz * int nmemb) = sz * nmemb" "size_t (int off + int (sz * nmemb)) = off + sz * nmemb"
    using size_t_id[of "sz * nmemb"] size_t_id[of "off + sz * nmemb"] False assms
    by (simp_all add: sup_wf_def)
  have "sz \<noteq> 0" if "off + sz * nmemb > ms_length s" using that False by (cases sz) auto
  moreover have "off + (ms_length s - off) div sz * sz \<le> ms_length s"
    using False div_times_less_eq_dividend[of "ms_length s - off" sz] by linarith
  ultimately show ?thesis using False len read_blocks_spec[OF assms(1)]
    by (simp add: sup_read_def file_read_def Let_def)
qed (auto simp: sup_read_def Let_def)

definition ptr_ok :: "byte list option \<Rightarrow> nat \<Rightarrow> bool" where
  "ptr_ok ptr n \<longleftrightarrow> (case ptr of None \<Rightarrow> True | Some bs \<Rightarrow> n \<le> length bs)"

definition ptr_data :: "byte list option \<Rightarrow> nat \<Rightarrow> byte list" where
  "ptr_data ptr n = (case ptr of None \<Rightarrow> replicate n 0 | Some bs \<Rightarrow> take n bs)"

lemma length_ptr_data: "ptr_ok ptr n \<Longrightarrow> length (ptr_data ptr n) = n"
  by (simp add: ptr_ok_def ptr_data_def split: option.splits)

lemma buffer_part_ok:
  "ptr_ok ptr n \<Longrightarrow> from + k \<le> n \<Longrightarrow> buffer_part ptr from k = Inr (take k (drop from (ptr_data ptr n)))"
  by (auto simp: ptr_ok_def ptr_data_def buffer_part_def drop_take min_def split: option.splits)

definition written :: "byte list \<Rightarrow> nat \<Rightarrow> memfs_support \<Rightarrow> memfs_support" where
  "written d off s = s\<lparr>
     ms_mmap := mem_copy (ms_mmap s) off (take (front_part s off (length d)) d),
     ms_extra := mem_copy (ms_extra s) (extra_start s off (length d)) (drop (front_part s off (length d)) d),
     ms_length := max (ms_length s) (off + length d)\<rparr>"

lemma mem_copy_Nil [simp]: "mem_copy mem a [] = mem"
  by (rule ext) (auto simp: mem_copy_def)

lemma write_blocks_alt:
  assumes "ptr_ok ptr n" "off + n < 2 ^ 64"
  shows "write_blocks ptr n off s =
    (if front_part s off n \<noteq> n \<and> \<not> off + n \<le> sup_capacity s then Inl (Ski_exit SKI_EXIT_MEMFS_LOWMEM)
     else Inr (written (ptr_data ptr n) off s))"
proof -
  let ?d = "ptr_data ptr n" and ?k = "front_part s off n" and ?e = "extra_start s off n"
  let ?s1 = "s\<lparr>ms_mmap := mem_copy (ms_mmap s) off (take ?k ?d)\<rparr>"
  have d: "length ?d = n" using length_ptr_data[OF assms(1)] .
  have fr: "buffer_part ptr 0 ?k = Inr (take ?k ?d)"
    using buffer_part_ok[OF assms(1), of 0 ?k] front_le by simp
  have bk: "buffer_part ptr ?k (n - ?k) = Inr (drop ?k ?d)"
    using buffer_part_ok[OF assms(1), of ?k "n - ?k"] front_le[of s off n] d by simp
  have one: "(if off < ms_mmap_length s then bind_res (buffer_part ptr 0 ?k) (\<lambda>bs. Inr (s\<lparr>ms_mmap := mem_copy (ms_mmap s) off bs\<rparr>))
      else Inr s) = Inr ?s1"
    using fr front_outside[of off s n] by (cases "off < ms_mmap_length s") simp_all
  have "write_blocks ptr n off s =
      bind_res (if ?k \<noteq> n
        then bind_res (SKI_ASSERT_MSG (size_t (int ?e + int (n - ?k)) \<le> ms_extra_length ?s1) SKI_EXIT_MEMFS_LOWMEM) (\<lambda>_.
             bind_res (buffer_part ptr ?k (n - ?k)) (\<lambda>bs. Inr (?s1\<lparr>ms_extra := mem_copy (ms_extra ?s1) ?e bs\<rparr>)))
        else Inr ?s1) (\<lambda>s. Inr (s\<lparr>ms_length := max (ms_length s) (size_t (int off + int n))\<rparr>))"
    unfolding write_blocks_def Let_def front_part_def[symmetric] one by (simp add: extra_start_def)
  moreover have "size_t (int off + int n) = off + n" using size_t_id[OF assms(2)] by simp
  ultimately show ?thesis
    using extra_size[of s off n] extra_room[of s off n] assms(2) bk d
    by (simp add: written_def SKI_ASSERT_MSG_def)
qed

lemma byte_at_written:
  "byte_at (written d off s) i = (if off \<le> i \<and> i < off + length d then d ! (i - off) else byte_at s i)"
proof (cases "i < ms_mmap_length s")
  case True
  have "off \<le> i \<and> i < off + front_part s off (length d) \<longleftrightarrow> off \<le> i \<and> i < off + length d"
    using True by (auto simp: front_part_def)
  then show ?thesis using True front_le[of s off "length d"] by (auto simp: byte_at_def written_def mem_copy_def)
next
  case False
  let ?k = "front_part s off (length d)" and ?e = "extra_start s off (length d)" and ?j = "i - ms_mmap_length s"
  have "?e \<le> ?j \<and> ?j < ?e + (length d - ?k) \<longleftrightarrow> off \<le> i \<and> i < off + length d"
    and "off \<le> i \<Longrightarrow> i < off + length d \<Longrightarrow> ?k + (?j - ?e) = i - off"
    using False by (auto simp: front_part_def extra_start_def split: if_splits)
  then show ?thesis using False by (auto simp: byte_at_def written_def mem_copy_def)
qed

lemma written_fields [simp]:
  "ms_inode (written d off s) = ms_inode s" "sup_capacity (written d off s) = sup_capacity s"
  "ms_length (written d off s) = max (ms_length s) (off + length d)"
  by (simp_all add: written_def sup_capacity_def)

lemma written_spec:
  assumes "sup_wf s" "off \<le> ms_length s" "off + length d \<le> sup_capacity s"
  shows "sup_wf (written d off s)" "contents (written d off s) = file_write (contents s) off d"
proof -
  show "sup_wf (written d off s)" using assms by (simp add: sup_wf_def)
  show "contents (written d off s) = file_write (contents s) off d"
    by (rule contents_eqI) (use assms(2) in \<open>auto simp: length_file_write nth_file_write byte_at_written nth_contents\<close>)
qed

lemma write_blocks_spec:
  assumes "sup_wf s" "off \<le> ms_length s" "ptr_ok ptr n" "n < 2 ^ 63"
  shows "write_blocks ptr n off s =
    (if off + n \<le> sup_capacity s then Inr (written (ptr_data ptr n) off s) else Inl (Ski_exit SKI_EXIT_MEMFS_LOWMEM))"
proof -
  have "off + n < 2 ^ 64" using assms by (auto simp: sup_wf_def)
  moreover have "off + n \<le> sup_capacity s" if "front_part s off n = n"
    using that assms(1,2) by (auto simp: front_part_def sup_capacity_def sup_wf_def split: if_splits)
  ultimately show ?thesis using write_blocks_alt[OF assms(3)] by auto
qed

lemma file_write_end [simp]: "file_write xs (length xs) ys = xs @ ys"
  by (simp add: file_write_def)

lemma file_write_gap:
  assumes "length xs < off"
  shows "file_write (xs @ replicate (off - length xs) 0) off ys = file_write xs off ys"
  using assms by (simp add: file_write_def)

lemma sup_write_within:
  assumes "sup_wf s" "off \<le> ms_length s" "ptr_ok ptr (sz * nmemb)" "sz * nmemb < 2 ^ 63"
  shows "sup_write ptr sz nmemb off s =
    (if off + sz * nmemb \<le> sup_capacity s then Inr (written (ptr_data ptr (sz * nmemb)) off s, sz * nmemb)
     else Inl (Ski_exit SKI_EXIT_MEMFS_LOWMEM))"
proof -
  have "size_t (int sz * int nmemb) = sz * nmemb" using size_t_id[of "sz * nmemb"] assms(4) by simp
  then show ?thesis using write_blocks_spec[OF assms] assms(2) by (simp add: sup_write.simps[of ptr] Let_def)
qed

lemma sup_write_spec:
  assumes "sup_wf s" "ptr_ok ptr (sz * nmemb)" "sz * nmemb < 2 ^ 63" "off < 2 ^ 64"
  shows "if off + sz * nmemb \<le> sup_capacity s
    then \<exists>s'. sup_write ptr sz nmemb off s = Inr (s', sz * nmemb) \<and> sup_wf s' \<and> ms_inode s' = ms_inode s \<and>
      sup_capacity s' = sup_capacity s \<and> contents s' = file_write (contents s) off (ptr_data ptr (sz * nmemb))
    else sup_write ptr sz nmemb off s = Inl (Ski_exit SKI_EXIT_MEMFS_LOWMEM)"
proof (cases "off \<le> ms_length s")
  case True
  then show ?thesis using sup_write_within[OF assms(1) True assms(2,3)] written_spec[OF assms(1) True]
      length_ptr_data[OF assms(2)] by simp
next
  case False
  let ?k = "off - ms_length s"
  let ?z = "replicate ?k (0 :: byte)"
  have len: "size_t (int sz * int nmemb) = sz * nmemb" using size_t_id[of "sz * nmemb"] assms(3) by simp
  have blk: "write_blocks None ?k (ms_length s) s =
      (if off \<le> sup_capacity s then Inr (written ?z (ms_length s) s) else Inl (Ski_exit SKI_EXIT_MEMFS_LOWMEM))"
  proof -
    have "front_part s (ms_length s) ?k \<noteq> ?k" if "\<not> off \<le> sup_capacity s"
      using that False by (auto simp: front_part_def sup_capacity_def split: if_splits)
    then show ?thesis using write_blocks_alt[of None ?k "ms_length s" s] False assms(4)
      by (auto simp: ptr_ok_def ptr_data_def)
  qed
  have ext: "sup_write None ?k 1 (ms_length s) s =
      (if off \<le> sup_capacity s then Inr (written ?z (ms_length s) s, ?k) else Inl (Ski_exit SKI_EXIT_MEMFS_LOWMEM))"
    using blk assms(4) size_t_id[of ?k] by (subst sup_write.simps) (simp add: Let_def)
  show ?thesis
  proof (cases "off \<le> sup_capacity s")
    case True
    let ?s = "written ?z (ms_length s) s"
    have s: "sup_wf ?s" "contents ?s = contents s @ ?z" "ms_length ?s = off" "sup_capacity ?s = sup_capacity s"
      using written_spec[OF assms(1), of "ms_length s" ?z] True False file_write_end[of "contents s" ?z] by simp_all
    have "sup_write ptr sz nmemb off s = bind_res (write_blocks ptr (sz * nmemb) off ?s) (\<lambda>s. Inr (s, sz * nmemb))"
      using False True ext s(3) len
      by (subst sup_write.simps) (simp add: Let_def MEMFS_ASSERT_def SKI_ASSERT_MSG_def)
    moreover have "file_write (contents ?s) off d = file_write (contents s) off d" for d
      using file_write_gap[of "contents s" off d] s(2) False by simp
    ultimately show ?thesis
      using write_blocks_spec[OF s(1), of off ptr "sz * nmemb"] written_spec[OF s(1), of off] s(3,4) assms(2,3)
        length_ptr_data[OF assms(2)]
      by simp
  next
    case F: False
    then show ?thesis using False ext len by (subst sup_write.simps) (simp add: Let_def)
  qed
qed

text \<open>
  What the system relies on of a file: reading and writing act on a list of bytes, up to a
  capacity.
\<close>

locale byte_file =
  fixes wf :: "'f \<Rightarrow> bool" and bytes :: "'f \<Rightarrow> byte list" and room :: "'f \<Rightarrow> nat"
    and rd :: "'f \<Rightarrow> nat \<Rightarrow> nat \<Rightarrow> nat \<Rightarrow> byte list option res"
    and wr :: "byte list option \<Rightarrow> nat \<Rightarrow> nat \<Rightarrow> nat \<Rightarrow> 'f \<Rightarrow> ('f \<times> nat) res"
  assumes rd_law: "wf s \<Longrightarrow> sz * n < 2 ^ 63 \<Longrightarrow>
      rd s sz n off = Inr (if off \<ge> length (bytes s) then None else Some (file_read (bytes s) off sz n))"
    and wr_law: "wf s \<Longrightarrow> ptr_ok ptr (sz * n) \<Longrightarrow> sz * n < 2 ^ 63 \<Longrightarrow> off < 2 ^ 64 \<Longrightarrow>
      off + sz * n \<le> room s \<Longrightarrow> \<exists>s'. wr ptr sz n off s = Inr (s', sz * n) \<and> wf s' \<and>
        bytes s' = file_write (bytes s) off (ptr_data ptr (sz * n)) \<and> room s' = room s"
    and wr_full: "wf s \<Longrightarrow> ptr_ok ptr (sz * n) \<Longrightarrow> sz * n < 2 ^ 63 \<Longrightarrow> off < 2 ^ 64 \<Longrightarrow>
      \<not> off + sz * n \<le> room s \<Longrightarrow> wr ptr sz n off s = Inl (Ski_exit SKI_EXIT_MEMFS_LOWMEM)"
begin

lemma wr_result:
  assumes "wf s" "length bs < 2 ^ 63" "off < 2 ^ 64" "wr (Some bs) 1 (length bs) off s = Inr (s', k)"
  shows "wf s'" "bytes s' = file_write (bytes s) off bs" "room s' = room s" "k = length bs"
  using wr_law[of s "Some bs" 1 "length bs" off] wr_full[of s "Some bs" 1 "length bs" off] assms
  by (cases "off + length bs \<le> room s"; auto simp: ptr_ok_def ptr_data_def)+

text \<open>A range that was just written reads back, and a range before or after it is as it was.\<close>

lemma read_written:
  assumes "wf s" "length bs < 2 ^ 63" "off < 2 ^ 64" "wr (Some bs) 1 (length bs) off s = Inr (s', k)" "bs \<noteq> []"
  shows "rd s' 1 (length bs) off = Inr (Some bs)"
proof -
  note r = wr_result[OF assms(1-4)]
  have "take (length bs) (drop off (file_write (bytes s) off bs)) = bs"
    by (simp add: file_write_def Let_def)
  then show ?thesis using rd_law[OF r(1), of 1 "length bs" off] assms(2,5) r(2)
    by (auto simp: file_read_def length_file_write)
qed

lemma read_elsewhere:
  assumes "wf s" "length bs < 2 ^ 63" "off < 2 ^ 64" "wr (Some bs) 1 (length bs) off s = Inr (s', k)"
    and "0 < n" "n < 2 ^ 63" "a + n \<le> length (bytes s)" "a + n \<le> off \<or> off + length bs \<le> a"
  shows "rd s' 1 n a = rd s 1 n a"
proof -
  note r = wr_result[OF assms(1-4)]
  have "take n (drop a (file_write (bytes s) off bs)) = take n (drop a (bytes s))"
    by (rule nth_equalityI) (use assms(7,8) in \<open>auto simp: length_file_write nth_file_write\<close>)
  then show ?thesis
    using rd_law[OF r(1), of 1 n a] rd_law[OF assms(1), of 1 n a] assms(5-7) r(2)
    by (simp add: file_read_def length_file_write)
qed

end

interpretation support: byte_file sup_wf contents sup_capacity sup_read sup_write
proof unfold_locales
  fix s and sz n off :: nat
  assume s: "sup_wf s" "sz * n < 2 ^ 63"
  show "sup_read s sz n off =
      Inr (if off \<ge> length (contents s) then None else Some (file_read (contents s) off sz n))"
    using sup_read_spec[OF s] by simp
next
  fix s ptr and sz n off :: nat
  assume s: "sup_wf s" "ptr_ok ptr (sz * n)" "sz * n < 2 ^ 63" "off < 2 ^ 64"
  show "\<exists>s'. sup_write ptr sz n off s = Inr (s', sz * n) \<and> sup_wf s' \<and>
      contents s' = file_write (contents s) off (ptr_data ptr (sz * n)) \<and> sup_capacity s' = sup_capacity s"
    if "off + sz * n \<le> sup_capacity s"
    using sup_write_spec[OF s] that by auto
  show "sup_write ptr sz n off s = Inl (Ski_exit SKI_EXIT_MEMFS_LOWMEM)" if "\<not> off + sz * n \<le> sup_capacity s"
    using sup_write_spec[OF s] that by auto
qed

end
