(* ===== verification/Ski_Files.thy ===== *)
theory Ski_Files
  imports Ski_Memfs
begin

text \<open>
  The contract of the in-memory file system: an abstract system of byte lists and handles, and
  the proof that every sequence of intercepted calls behaves as in the abstract system, in its
  results, its errors and the state it leaves.
\<close>

section \<open>Calls\<close>

datatype fs_op =
    Open string int os_file
  | Fopen string string "(int \<times> os_file) option"
  | Close int
  | Fclose stream
  | Read int nat
  | Pread int nat int
  | Fread nat nat stream
  | Write int "byte list"
  | Pwrite int "byte list" int
  | Fwrite "byte list" nat nat stream
  | Lseek int int int
  | Fseek stream int int
  | Rewind stream
  | Ftruncate int int

datatype fs_result =
    Value int
  | Stream "stream option"
  | Data "byte list"
  | Passed_on

definition reply :: "('a \<Rightarrow> fs_result) \<Rightarrow> memfs \<Rightarrow> 'a hook \<Rightarrow> (memfs \<times> fs_result) res" where
  "reply f m h = bind_res h (\<lambda>r. Inr (case r of None \<Rightarrow> (m, Passed_on) | Some (m', x) \<Rightarrow> (m', f x)))"

fun fs_exec :: "memfs \<Rightarrow> fs_op \<Rightarrow> (memfs \<times> fs_result) res" where
  "fs_exec m (Open path flags osf) = bind_res (hook_open m path flags osf) (\<lambda>(m, fd). Inr (m, Value fd))"
| "fs_exec m (Fopen path mode r) = bind_res (hook_fopen m path mode r) (\<lambda>(m, fp). Inr (m, Stream fp))"
| "fs_exec m (Close fd) = bind_res (hook_close m fd) (\<lambda>(m, r). Inr (m, Value r))"
| "fs_exec m (Fclose fp) = bind_res (hook_fclose m fp) (\<lambda>(m, r). Inr (m, Value r))"
| "fs_exec m (Read fd n) = reply Data m (hook_read m fd n)"
| "fs_exec m (Pread fd n offset) = reply Data m (hook_pread m fd n offset)"
| "fs_exec m (Fread sz n fp) = reply (\<lambda>(bs, _). Data bs) m (hook_fread m sz n fp)"
| "fs_exec m (Write fd bs) = reply (\<lambda>n. Value (int n)) m (hook_write m fd bs)"
| "fs_exec m (Pwrite fd bs offset) = reply (\<lambda>n. Value (int n)) m (hook_pwrite m fd bs offset)"
| "fs_exec m (Fwrite bs sz n fp) = reply (\<lambda>n. Value (int n)) m (hook_fwrite m bs sz n fp)"
| "fs_exec m (Lseek fd offset whence) = reply Value m (hook_lseek m fd offset whence)"
| "fs_exec m (Fseek fp offset whence) = reply Value m (hook_fseek m fp offset whence)"
| "fs_exec m (Rewind fp) = reply (\<lambda>_. Value 0) m (hook_rewind m fp)"
| "fs_exec m (Ftruncate fd l) = reply Value m (hook_ftruncate m fd l)"

fun fs_run :: "memfs \<Rightarrow> fs_op list \<Rightarrow> (memfs \<times> fs_result list) res" where
  "fs_run m [] = Inr (m, [])"
| "fs_run m (op # ops) =
    bind_res (fs_exec m op) (\<lambda>(m, r). bind_res (fs_run m ops) (\<lambda>(m, rs). Inr (m, r # rs)))"

section \<open>The abstract system\<close>

record afile =
  af_inode :: int
  af_room :: nat
  af_bytes :: "byte list"

record ahandle =
  ah_file :: nat
  ah_off :: nat
  ah_open :: bool

record afs =
  a_files :: "afile list"
  a_handles :: "ahandle list"
  a_ignored :: nat

abbreviation (input) stop :: "'a res" where "stop \<equiv> Inl (Ski_exit SKI_EXIT_MEMFS)"

definition a_file :: "afs \<Rightarrow> nat \<Rightarrow> afile" where
  "a_file a i = a_files a ! ah_file (a_handles a ! i)"

definition a_seek :: "nat \<Rightarrow> nat \<Rightarrow> afs \<Rightarrow> afs" where
  "a_seek i off a = a\<lparr>a_handles := (a_handles a)[i := (a_handles a ! i)\<lparr>ah_off := off\<rparr>]\<rparr>"

definition a_put :: "nat \<Rightarrow> byte list \<Rightarrow> afs \<Rightarrow> afs" where
  "a_put i bs a = a\<lparr>a_files := (a_files a)[ah_file (a_handles a ! i) := (a_file a i)\<lparr>af_bytes := bs\<rparr>]\<rparr>"

text \<open>The handle that a descriptor or a stream names; closed handles must not be used.\<close>

fun fd_of_stream :: "stream \<Rightarrow> int" where
  "fd_of_stream (Mem i) = int i + MEMFS_FD_START"
| "fd_of_stream (Os p) = 0"

definition a_on :: "afs \<Rightarrow> int \<Rightarrow> fs_result \<Rightarrow> (nat \<Rightarrow> (afs \<times> fs_result) res) \<Rightarrow> (afs \<times> fs_result) res" where
  "a_on a fd other body =
    (let i = nat (fd - MEMFS_FD_START)
     in if fd < MEMFS_FD_START \<or> i \<ge> length (a_handles a) then Inr (a, other)
        else if ah_open (a_handles a ! i) then body i else stop)"

definition a_read :: "afs \<Rightarrow> nat \<Rightarrow> nat \<Rightarrow> int \<Rightarrow> bool \<Rightarrow> nat \<Rightarrow> (afs \<times> fs_result) res" where
  "a_read a sz n off move i =
    (let xs = af_bytes (a_file a i)
     in if off < 0 \<or> off \<ge> int (length xs) then Inr (a, Data [])
        else let bs = file_read xs (nat off) sz n
             in Inr (if move then a_seek i (nat off + length bs) a else a, Data bs))"

definition a_write :: "afs \<Rightarrow> byte list \<Rightarrow> int \<Rightarrow> bool \<Rightarrow> int \<Rightarrow> nat \<Rightarrow> (afs \<times> fs_result) res" where
  "a_write a bs off move r i =
    (if off < 0 \<or> off + int (length bs) > int (af_room (a_file a i)) then stop
     else let a = a_put i (file_write (af_bytes (a_file a i)) (nat off) bs) a
          in Inr (if move then a_seek i (nat off + length bs) a else a, Value r))"

definition a_move :: "afs \<Rightarrow> int \<Rightarrow> int \<Rightarrow> bool \<Rightarrow> nat \<Rightarrow> (afs \<times> fs_result) res" where
  "a_move a offset whence tell i =
    (let l = int (length (af_bytes (a_file a i)));
         off = offset + (if whence = 0 then 0 else if whence = 1 then int (ah_off (a_handles a ! i)) else l)
     in if whence \<in> {0, 1, 2} \<and> 0 \<le> off \<and> off \<le> l
        then Inr (a_seek i (nat off) a, Value (if tell then off else 0)) else stop)"

definition a_ignore :: "afs \<Rightarrow> string \<Rightarrow> fs_result \<Rightarrow> (afs \<times> fs_result) res" where
  "a_ignore a path r =
    (if a_ignored a < MEMFS_MAX_FILES \<and> length path < MEMFS_MAX_FILENAME
     then Inr (a\<lparr>a_ignored := a_ignored a + 1\<rparr>, r) else stop)"

text \<open>
  Opening: a handle on the file of the same inode if there is one, otherwise on a new file.
  The number of files is checked, that of handles is not.
\<close>

definition a_open :: "afs \<Rightarrow> string \<Rightarrow> int \<Rightarrow> os_file \<Rightarrow> (afs \<times> nat) res" where
  "a_open a path fd osf =
    (if \<not> (length path < MEMFS_MAX_FILENAME - 1 \<and> length (a_files a) < MEMFS_MAX_FILES) then stop
     else if length (a_handles a) \<ge> MEMFS_MAX_FILES then Inl Out_of_bounds
     else if fd = 0 then stop
     else case of_stat osf of
       None \<Rightarrow> stop
     | Some (ino, n) \<Rightarrow>
         let h = (\<lambda>k. \<lparr>ah_file = k, ah_off = 0, ah_open = True\<rparr>)
         in case find (\<lambda>i. af_inode (a_files a ! i) = int32 ino) [0..<length (a_files a)] of
              Some k \<Rightarrow> Inr (a\<lparr>a_handles := a_handles a @ [h k]\<rparr>, length (a_handles a))
            | None \<Rightarrow>
                if (n > 0 \<longrightarrow> of_mmap_ok osf) \<and> of_extra_ok osf
                then Inr (a\<lparr>a_files := a_files a @ [\<lparr>af_inode = int32 ino, af_room = n + MEMFS_MMAP_EXTRA_SPACE,
                              af_bytes = map (of_content osf) [0..<n]\<rparr>],
                            a_handles := a_handles a @ [h (length (a_files a))]\<rparr>, length (a_handles a))
                else stop)"

fun afs_exec :: "afs \<Rightarrow> fs_op \<Rightarrow> (afs \<times> fs_result) res" where
  "afs_exec a (Open path flags osf) =
    (if \<not> memfs_intercept_filename path then a_ignore a path (Value (of_fd osf))
     else if of_fd osf = 0 then Inr (a, Value 0)
     else bind_res (a_open a path (of_fd osf) osf) (\<lambda>(a, i).
       Inr (if flags AND O_APPEND \<noteq> 0 then a_seek i (length (af_bytes (a_file a i))) a else a,
            Value (int i + MEMFS_FD_START))))"
| "afs_exec a (Fopen path mode r) =
    (if \<not> memfs_intercept_filename path then a_ignore a path (Stream (map_option (\<lambda>(file, _). Os file) r))
     else case r of
       None \<Rightarrow> Inr (a, Stream None)
     | Some (file, osf) \<Rightarrow>
         if take 1 mode = ''a'' then stop
         else bind_res (a_open a path (of_fd osf) osf) (\<lambda>(a, i). Inr (a, Stream (Some (Mem i)))))"
| "afs_exec a (Close fd) = a_on a fd (Value 0) (\<lambda>i.
    Inr (a\<lparr>a_handles := (a_handles a)[i := (a_handles a ! i)\<lparr>ah_open := False\<rparr>]\<rparr>, Value 0))"
| "afs_exec a (Fclose fp) = a_on a (fd_of_stream fp) (Value 0) (\<lambda>i.
    Inr (a\<lparr>a_handles := (a_handles a)[i := (a_handles a ! i)\<lparr>ah_open := False\<rparr>]\<rparr>, Value 0))"
| "afs_exec a (Read fd n) = a_on a fd Passed_on (\<lambda>i. a_read a 1 n (int (ah_off (a_handles a ! i))) True i)"
| "afs_exec a (Pread fd n offset) = a_on a fd Passed_on (\<lambda>i. a_read a 1 n offset False i)"
| "afs_exec a (Fread sz n fp) = a_on a (fd_of_stream fp) Passed_on (\<lambda>i.
    if sz = 0 then Inl Div_by_zero else a_read a sz n (int (ah_off (a_handles a ! i))) True i)"
| "afs_exec a (Write fd bs) = a_on a fd Passed_on (\<lambda>i. a_write a bs (int (ah_off (a_handles a ! i))) True (int (length bs)) i)"
| "afs_exec a (Pwrite fd bs offset) = a_on a fd Passed_on (\<lambda>i. a_write a bs offset False (int (length bs)) i)"
| "afs_exec a (Fwrite bs sz n fp) = a_on a (fd_of_stream fp) Passed_on (\<lambda>i.
    bind_res (a_write a (take (sz * n) bs) (int (ah_off (a_handles a ! i))) True (int n) i) (\<lambda>r.
      if sz = 0 then Inl Div_by_zero else Inr r))"
| "afs_exec a (Lseek fd offset whence) = a_on a fd Passed_on (a_move a offset whence True)"
| "afs_exec a (Fseek fp offset whence) = a_on a (fd_of_stream fp) Passed_on (a_move a offset whence False)"
| "afs_exec a (Rewind fp) = a_on a (fd_of_stream fp) Passed_on (\<lambda>i. Inr (a_seek i 0 a, Value 0))"
| "afs_exec a (Ftruncate fd l) = a_on a fd Passed_on (\<lambda>i.
    if l < 0 \<or> l > int (length (af_bytes (a_file a i))) then stop
    else Inr (a_put i (take (nat l) (af_bytes (a_file a i))) a, Value 0))"

fun afs_run :: "afs \<Rightarrow> fs_op list \<Rightarrow> (afs \<times> fs_result list) res" where
  "afs_run a [] = Inr (a, [])"
| "afs_run a (op # ops) =
    bind_res (afs_exec a op) (\<lambda>(a, r). bind_res (afs_run a ops) (\<lambda>(a, rs). Inr (a, r # rs)))"

section \<open>Abstraction\<close>

definition abs_file :: "memfs_support \<Rightarrow> afile" where
  "abs_file s = \<lparr>af_inode = ms_inode s, af_room = sup_capacity s, af_bytes = contents s\<rparr>"

definition abs_handle :: "memfs_file \<Rightarrow> ahandle" where
  "abs_handle f = \<lparr>ah_file = mf_sup f, ah_off = mf_off f, ah_open = (\<not> mf_closed f)\<rparr>"

definition abs_fs :: "memfs \<Rightarrow> afs" where
  "abs_fs m = \<lparr>a_files = map abs_file (sups m), a_handles = map abs_handle (files m), a_ignored = length (ignorelist m)\<rparr>"

definition handle_wf :: "memfs \<Rightarrow> nat \<Rightarrow> bool" where
  "handle_wf m i \<longleftrightarrow> mf_id (files m ! i) = i \<and> mf_sup (files m ! i) < length (sups m) \<and>
    mf_off (files m ! i) \<le> sup_capacity (sup_of m i)"

definition memfs_wf :: "memfs \<Rightarrow> bool" where
  "memfs_wf m \<longleftrightarrow> ski_memfs_enabled m \<and> list_all sup_wf (sups m) \<and> list_all (handle_wf m) [0..<length (files m)]"

text \<open>What the callers and the system guarantee: sizes that fit into \<open>ssize_t\<close> and \<open>off_t\<close>.\<close>

definition off_ok :: "int \<Rightarrow> bool" where
  "off_ok v \<longleftrightarrow> - (2 ^ 63) \<le> v \<and> v < 2 ^ 63"

definition os_ok :: "os_file \<Rightarrow> bool" where
  "os_ok osf \<longleftrightarrow> (case of_stat osf of None \<Rightarrow> True | Some (_, n) \<Rightarrow> n + MEMFS_MMAP_EXTRA_SPACE < 2 ^ 63)"

fun op_ok :: "fs_op \<Rightarrow> bool" where
  "op_ok (Open path flags osf) = os_ok osf"
| "op_ok (Fopen path mode r) = (case r of None \<Rightarrow> True | Some (_, osf) \<Rightarrow> os_ok osf)"
| "op_ok (Read fd n) \<longleftrightarrow> n < 2 ^ 63"
| "op_ok (Pread fd n offset) \<longleftrightarrow> n < 2 ^ 63 \<and> off_ok offset"
| "op_ok (Fread sz n fp) \<longleftrightarrow> sz * n < 2 ^ 63"
| "op_ok (Write fd bs) \<longleftrightarrow> length bs < 2 ^ 63"
| "op_ok (Pwrite fd bs offset) \<longleftrightarrow> length bs < 2 ^ 63 \<and> off_ok offset"
| "op_ok (Fwrite bs sz n fp) \<longleftrightarrow> sz * n < 2 ^ 63 \<and> sz * n \<le> length bs"
| "op_ok (Lseek fd offset whence) = off_ok offset"
| "op_ok (Fseek fp offset whence) = off_ok offset"
| "op_ok (Ftruncate fd l) = off_ok l"
| "op_ok _ = True"

text \<open>A result refines an abstract one: the same error, or the same reply and related states.\<close>

definition refines :: "(memfs \<times> 'r) res \<Rightarrow> (afs \<times> 'r) res \<Rightarrow> bool" where
  "refines r r' \<longleftrightarrow>
    (case r of Inl e \<Rightarrow> r' = Inl e | Inr (m, x) \<Rightarrow> memfs_wf m \<and> r' = Inr (abs_fs m, x))"

lemma refines_Inl [simp]: "refines (Inl e) r' \<longleftrightarrow> r' = Inl e"
  by (simp add: refines_def)

lemma refines_Inr [simp]: "refines (Inr (m, x)) r' \<longleftrightarrow> memfs_wf m \<and> r' = Inr (abs_fs m, x)"
  by (simp add: refines_def)

lemma refines_bind:
  assumes "refines r r'" "\<And>m x. memfs_wf m \<Longrightarrow> refines (f (m, x)) (g (abs_fs m, x))"
  shows "refines (bind_res r f) (bind_res r' g)"
proof (cases r)
  case (Inr p)
  then show ?thesis using assms by (cases p) simp
qed (use assms(1) in simp)

lemma abs_fs_simps [simp]:
  "length (a_files (abs_fs m)) = length (sups m)" "length (a_handles (abs_fs m)) = length (files m)"
  "a_ignored (abs_fs m) = length (ignorelist m)"
  by (simp_all add: abs_fs_def)

lemma a_handles_abs [simp]: "i < length (files m) \<Longrightarrow> a_handles (abs_fs m) ! i = abs_handle (files m ! i)"
  by (simp add: abs_fs_def)

lemma abs_handle_simps [simp]:
  "ah_file (abs_handle f) = mf_sup f" "ah_off (abs_handle f) = mf_off f" "ah_open (abs_handle f) = (\<not> mf_closed f)"
  by (simp_all add: abs_handle_def)

lemma abs_file_simps [simp]:
  "af_inode (abs_file s) = ms_inode s" "af_room (abs_file s) = sup_capacity s" "af_bytes (abs_file s) = contents s"
  by (simp_all add: abs_file_def)

lemma wf_handle: "memfs_wf m \<Longrightarrow> i < length (files m) \<Longrightarrow> handle_wf m i"
  by (simp add: memfs_wf_def list_all_iff)

lemma a_file_abs [simp]:
  "memfs_wf m \<Longrightarrow> i < length (files m) \<Longrightarrow> a_file (abs_fs m) i = abs_file (sup_of m i)"
  using wf_handle[of m i] by (simp add: a_file_def abs_fs_def sup_of_def handle_wf_def)

lemma wf_sup: "memfs_wf m \<Longrightarrow> i < length (files m) \<Longrightarrow> sup_wf (sup_of m i)"
  using wf_handle[of m i] by (simp add: memfs_wf_def sup_of_def handle_wf_def list_all_length)

section \<open>Updates\<close>

lemma sup_of_upd_file [simp]: "mf_sup (f (files m ! i)) = mf_sup (files m ! i) \<Longrightarrow> sup_of (upd_file i f m) j = sup_of m j"
  by (cases "i < length (files m)"; cases "i = j") (simp_all add: sup_of_def upd_file_def list_update_beyond)

lemma upd_file_fields [simp]:
  "sups (upd_file i f m) = sups m" "ignorelist (upd_file i f m) = ignorelist m"
  "ski_memfs_enabled (upd_file i f m) = ski_memfs_enabled m" "length (files (upd_file i f m)) = length (files m)"
  by (simp_all add: upd_file_def)

lemma upd_sup_fields [simp]:
  "files (upd_sup i s m) = files m" "ignorelist (upd_sup i s m) = ignorelist m"
  "ski_memfs_enabled (upd_sup i s m) = ski_memfs_enabled m" "length (sups (upd_sup i s m)) = length (sups m)"
  by (simp_all add: upd_sup_def)

lemma upd_file_wf:
  assumes "memfs_wf m" "i < length (files m)" "mf_id (f (files m ! i)) = i" "mf_sup (f (files m ! i)) = mf_sup (files m ! i)"
    and "mf_off (f (files m ! i)) \<le> sup_capacity (sup_of m i)"
  shows "memfs_wf (upd_file i f m)"
proof -
  have "handle_wf (upd_file i f m) j" if "j < length (files m)" for j
    using wf_handle[OF assms(1) that] assms that
    by (cases "j = i") (simp_all add: handle_wf_def, simp_all add: upd_file_def)
  then show ?thesis using assms(1) by (simp add: memfs_wf_def list_all_iff)
qed

lemma upd_sup_wf:
  assumes "memfs_wf m" "i < length (files m)" "sup_wf s" "sup_capacity s = sup_capacity (sup_of m i)"
  shows "memfs_wf (upd_sup i s m)"
proof -
  have "sup_capacity (sup_of (upd_sup i s m) j) = sup_capacity (sup_of m j)" for j
    using wf_handle[OF assms(1,2)] assms(4)
    by (cases "mf_sup (files m ! j) = mf_sup (files m ! i)") (simp_all add: sup_of_def upd_sup_def handle_wf_def)
  then have "handle_wf (upd_sup i s m) j" if "j < length (files m)" for j
    using wf_handle[OF assms(1) that] by (simp add: handle_wf_def)
  moreover have "list_all sup_wf (sups (upd_sup i s m))"
    using assms(1,3) set_update_subset_insert[of "sups m" "mf_sup (files m ! i)" s]
    by (auto simp: memfs_wf_def list_all_iff upd_sup_def)
  ultimately show ?thesis using assms(1) by (simp add: memfs_wf_def list_all_iff)
qed

lemma abs_upd_off:
  "i < length (files m) \<Longrightarrow> abs_fs (upd_file i (\<lambda>f. f\<lparr>mf_off := off\<rparr>) m) = a_seek i off (abs_fs m)"
  by (simp add: abs_fs_def a_seek_def upd_file_def map_update abs_handle_def)

lemma abs_upd_closed:
  "i < length (files m) \<Longrightarrow> abs_fs (upd_file i (\<lambda>f. f\<lparr>mf_closed := True\<rparr>) m) =
    (abs_fs m)\<lparr>a_handles := (a_handles (abs_fs m))[i := (a_handles (abs_fs m) ! i)\<lparr>ah_open := False\<rparr>]\<rparr>"
  by (simp add: abs_fs_def upd_file_def map_update abs_handle_def)

lemma abs_upd_sup:
  assumes "memfs_wf m" "i < length (files m)" "ms_inode s = ms_inode (sup_of m i)" "sup_capacity s = sup_capacity (sup_of m i)"
  shows "abs_fs (upd_sup i s m) = a_put i (contents s) (abs_fs m)"
  using wf_handle[OF assms(1,2)] assms
  by (simp add: a_put_def) (simp add: abs_fs_def upd_sup_def map_update abs_file_def)

text \<open>Finding the handle.\<close>

lemma on_fd_refines:
  assumes "memfs_wf m"
    and "\<And>i. i < length (files m) \<Longrightarrow> \<not> mf_closed (files m ! i) \<Longrightarrow>
      refines (bind_res (body i) (\<lambda>(m, x). Inr (m, f x))) (abody i)"
  shows "refines (bind_res (on_fd m fd body) (\<lambda>r. Inr (case r of None \<Rightarrow> (m, other) | Some (m', x) \<Rightarrow> (m', f x))))
    (a_on (abs_fs m) fd other abody)"
proof (cases "fd < MEMFS_FD_START \<or> nat (fd - MEMFS_FD_START) \<ge> length (files m)")
  case True
  then have "memfs_get_fd m fd = Inr None" by (auto simp: memfs_get_fd_def Let_def)
  then show ?thesis using True assms(1) by (simp add: on_fd_def a_on_def Let_def memfs_wf_def)
next
  case False
  let ?i = "nat (fd - MEMFS_FD_START)"
  have "memfs_get_fd m fd = (if mf_closed (files m ! ?i) then stop else Inr (Some ?i))"
    using False by (auto simp: memfs_get_fd_def Let_def MEMFS_ASSERT_def SKI_ASSERT_MSG_def)
  then show ?thesis using False assms(2)[of ?i] assms(1)
    by (auto simp: on_fd_def a_on_def Let_def memfs_wf_def case_prod_unfold)
qed

lemma on_stream_fd: "memfs_get_file m fp = memfs_get_fd m (fd_of_stream fp)"
  by (cases fp) (auto simp: memfs_get_file_def memfs_get_fd_def Let_def)

lemma on_stream_on_fd: "on_stream m fp body = on_fd m (fd_of_stream fp) body"
  by (simp add: on_stream_def on_fd_def on_stream_fd)

section \<open>Each call refines its abstract counterpart\<close>

lemma size_t_off: "off_ok v \<Longrightarrow> size_t v = (if v < 0 then nat (v + 2 ^ 64) else nat v)"
proof (cases "v < 0")
  case True
  assume "off_ok v"
  then have "(v + 2 ^ 64) mod 2 ^ 64 = v + 2 ^ 64" using True by (intro mod_pos_pos_trivial) (simp_all add: off_ok_def)
  then show ?thesis using True by (simp add: size_t_def)
qed (simp add: size_t_def off_ok_def)

lemma size_t_outside:
  assumes "off_ok v" "n < 2 ^ 63"
  shows "n \<le> size_t v \<longleftrightarrow> v < 0 \<or> int n \<le> v" "n < size_t v \<longleftrightarrow> v < 0 \<or> int n < v"
  using assms by (auto simp: size_t_off off_ok_def)

lemma pow_63_64: "(2 :: nat) ^ 63 < 2 ^ 64"
  by simp

lemma wf_bounds:
  assumes "memfs_wf m" "i < length (files m)"
  shows "ms_length (sup_of m i) \<le> sup_capacity (sup_of m i)" "sup_capacity (sup_of m i) < 2 ^ 63"
    "mf_off (files m ! i) \<le> sup_capacity (sup_of m i)" "off_ok (int (mf_off (files m ! i)))"
    "size_t (int (mf_off (files m ! i))) = mf_off (files m ! i)"
proof -
  show b: "ms_length (sup_of m i) \<le> sup_capacity (sup_of m i)" "sup_capacity (sup_of m i) < 2 ^ 63"
    "mf_off (files m ! i) \<le> sup_capacity (sup_of m i)"
    using wf_sup[OF assms] wf_handle[OF assms] by (simp_all add: sup_wf_def handle_wf_def)
  then have "mf_off (files m ! i) < 2 ^ 63" by linarith
  then show "off_ok (int (mf_off (files m ! i)))" "size_t (int (mf_off (files m ! i))) = mf_off (files m ! i)"
    by (simp_all add: off_ok_def)
qed

lemma off_update_wf:
  assumes "memfs_wf m" "i < length (files m)" "off \<le> sup_capacity (sup_of m i)"
  shows "memfs_wf (upd_file i (\<lambda>f. f\<lparr>mf_off := off\<rparr>) m)"
  by (rule upd_file_wf) (use assms wf_handle[OF assms(1,2)] in \<open>simp_all add: handle_wf_def\<close>)

lemma read_refines:
  assumes "memfs_wf m" "i < length (files m)" "sz * n < 2 ^ 63" "off_ok off"
  shows "refines (bind_res (memfs_read m sz n (size_t off) i move) (\<lambda>(m, bs). Inr (m, Data bs)))
    (a_read (abs_fs m) sz n off move i)"
proof -
  let ?s = "sup_of m i"
  note b = wf_bounds[OF assms(1,2)]
  have len: "ms_length ?s < 2 ^ 63" using b by linarith
  note rd = support.rd_law[OF wf_sup[OF assms(1,2)] assms(3), of "size_t off"]
  show ?thesis
  proof (cases "off < 0 \<or> int (ms_length ?s) \<le> off")
    case True
    then show ?thesis using rd size_t_outside(1)[OF assms(4) len] assms(1,2)
      by (auto simp: memfs_read_def a_read_def Let_def)
  next
    case False
    let ?bs = "file_read (contents ?s) (nat off) sz n"
    have off: "size_t off = nat off" using size_t_off[OF assms(4)] False by simp
    have "length ?bs \<le> ms_length ?s - nat off"
      by (simp only: file_read_def length_take length_drop length_contents min.cobounded1)
    then have "nat off + length ?bs \<le> ms_length ?s" using False by linarith
    then have "nat off + length ?bs \<le> sup_capacity ?s" "nat off + length ?bs < 2 ^ 64" using b(1,2) pow_63_64 by linarith+
    moreover from size_t_id[OF this(2)] have "size_t (int (nat off) + int (length ?bs)) = nat off + length ?bs"
      by (simp only: of_nat_add)
    ultimately show ?thesis
      using rd False off size_t_outside(1)[OF assms(4) len] assms(1,2)
      by (auto simp: memfs_read_def a_read_def Let_def abs_upd_off off_update_wf)
  qed
qed

lemma write_refines:
  assumes "memfs_wf m" "i < length (files m)" "sz * n < 2 ^ 63" "sz * n \<le> length bs" "off_ok off"
  shows "refines (bind_res (memfs_write m (Some bs) sz n (size_t off) i move) (\<lambda>(m, k). Inr (m, Value (f k))))
    (a_write (abs_fs m) (take (sz * n) bs) off move (f (sz * n)) i)"
proof -
  let ?s = "sup_of m i"
  note b = wf_bounds[OF assms(1,2)]
  have ptr: "ptr_ok (Some bs) (sz * n)" "ptr_data (Some bs) (sz * n) = take (sz * n) bs"
    using assms(4) by (simp_all add: ptr_ok_def ptr_data_def)
  have lt: "size_t off < 2 ^ 64" using assms(5) by (simp add: size_t_off off_ok_def nat_less_iff)
  note w = sup_write_spec[OF wf_sup[OF assms(1,2)] ptr(1) assms(3) lt]
  show ?thesis
  proof (cases "off < 0 \<or> off + int (sz * n) > int (sup_capacity ?s)")
    case True
    have "\<not> size_t off + sz * n \<le> sup_capacity ?s"
    proof (cases "off < 0")
      case True
      then show ?thesis using size_t_outside(2)[OF assms(5) b(2)] by simp
    next
      case F: False
      have "int (nat off + sz * n) > int (sup_capacity ?s)" using True F by simp
      then show ?thesis using F size_t_off[OF assms(5)] by (simp only: of_nat_less_iff not_le if_False)
    qed
    then show ?thesis using w True assms(1,2,4) by (simp add: memfs_write_def a_write_def)
  next
    case False
    then have off: "size_t off = nat off" using size_t_off[OF assms(5)] by simp
    have "int (nat off + sz * n) \<le> int (sup_capacity ?s)" using False by simp
    then have room: "nat off + sz * n \<le> sup_capacity ?s" by (simp only: of_nat_le_iff)
    then obtain s' where s': "sup_write (Some bs) sz n (nat off) ?s = Inr (s', sz * n)" "sup_wf s'"
      "ms_inode s' = ms_inode ?s" "sup_capacity s' = sup_capacity ?s"
      "contents s' = file_write (contents ?s) (nat off) (take (sz * n) bs)"
      using w ptr(2) off room by auto
    let ?m = "upd_sup i s' m"
    have m: "memfs_wf ?m" "abs_fs ?m = a_put i (contents s') (abs_fs m)" "sup_capacity (sup_of ?m i) = sup_capacity ?s"
      using upd_sup_wf[OF assms(1,2) s'(2,4)] abs_upd_sup[OF assms(1,2) s'(3,4)] s'(4) wf_handle[OF assms(1,2)]
      by (simp_all add: sup_of_def upd_sup_def handle_wf_def)
    have "nat off + sz * n < 2 ^ 64" using room b(2) pow_63_64 by linarith
    from size_t_id[OF this] have "size_t (int (nat off) + int (sz * n)) = nat off + sz * n" by (simp only: of_nat_add)
    then show ?thesis
      using s'(1,5) off room False m assms(1,2,4) off_update_wf[OF m(1), of i] abs_upd_off[of i ?m]
      by (simp add: memfs_write_def a_write_def Let_def)
  qed
qed

lemma size_t_seek:
  assumes "- (2 ^ 63) \<le> v" "v < 2 ^ 64" "l < 2 ^ 63"
  shows "size_t v \<le> l \<longleftrightarrow> 0 \<le> v \<and> v \<le> int l" "0 \<le> v \<Longrightarrow> size_t v = nat v"
proof -
  show pos: "0 \<le> v \<Longrightarrow> size_t v = nat v" using assms(2) by (simp add: size_t_def)
  show "size_t v \<le> l \<longleftrightarrow> 0 \<le> v \<and> v \<le> int l"
  proof (cases "0 \<le> v")
    case False
    then have "v mod 2 ^ 64 = v + 2 ^ 64" using assms(1) mod_pos_pos_trivial[of "v + 2 ^ 64" "2 ^ 64"] by simp
    then show ?thesis using False assms(1,3) by (simp add: size_t_def)
  qed (use pos in auto)
qed

lemma seek_refines:
  assumes "memfs_wf m" "i < length (files m)" "off_ok offset"
  shows "refines (bind_res (seek m i offset whence) (\<lambda>m. Inr (m, Value (if tell then int (mf_off (files m ! i)) else 0))))
    (a_move (abs_fs m) offset whence tell i)"
proof -
  let ?l = "ms_length (sup_of m i)"
  define base where "base = (if whence = 0 then 0 else if whence = 1 then int (mf_off (files m ! i)) else int ?l)"
  note b = wf_bounds[OF assms(1,2)]
  have l: "?l < 2 ^ 63" using b(1,2) by linarith
  have "0 \<le> base" "base < 2 ^ 63" using b(4) l by (auto simp: base_def off_ok_def)
  then have v: "- (2 ^ 63) \<le> base + offset" "base + offset < 2 ^ 64" using assms(3) by (simp_all add: off_ok_def)
  have "seek m i offset whence =
      (if whence \<in> {0, 1, 2} \<and> size_t (base + offset) \<le> ?l
       then Inr (upd_file i (\<lambda>f. f\<lparr>mf_off := size_t (base + offset)\<rparr>) m) else stop)"
    by (auto simp: seek_def base_def MEMFS_ASSERT_def SKI_ASSERT_MSG_def)
  moreover have "a_move (abs_fs m) offset whence tell i =
      (if whence \<in> {0, 1, 2} \<and> 0 \<le> base + offset \<and> base + offset \<le> int ?l
       then Inr (a_seek i (nat (base + offset)) (abs_fs m), Value (if tell then base + offset else 0)) else stop)"
    using assms(1,2) by (auto simp: a_move_def base_def Let_def add.commute)
  moreover have "memfs_wf (upd_file i (\<lambda>f. f\<lparr>mf_off := nat (base + offset)\<rparr>) m)" if "base + offset \<le> int ?l"
    using off_update_wf[OF assms(1,2), of "nat (base + offset)"] that b(1) by simp
  ultimately show ?thesis using size_t_seek[OF v l] assms(2)
    by (auto simp: abs_upd_off) (simp_all add: upd_file_def)
qed

lemma truncate_refines:
  assumes "memfs_wf m" "i < length (files m)" "off_ok l"
  shows "refines (bind_res (if size_t l > ms_length (sup_of m i) then bind_res (MEMFS_ASSERT False) (\<lambda>_. Inr (m, 0))
      else Inr (upd_sup i ((sup_of m i)\<lparr>ms_length := size_t l\<rparr>) m, 0)) (\<lambda>(m, x). Inr (m, Value x)))
    (if l < 0 \<or> l > int (length (af_bytes (a_file (abs_fs m) i))) then stop
     else Inr (a_put i (take (nat l) (af_bytes (a_file (abs_fs m) i))) (abs_fs m), Value 0))"
proof -
  let ?s = "sup_of m i"
  note b = wf_bounds[OF assms(1,2)]
  have len: "ms_length ?s < 2 ^ 63" using b(1,2) by linarith
  show ?thesis
  proof (cases "l < 0 \<or> l > int (ms_length ?s)")
    case True
    then show ?thesis using size_t_outside(2)[OF assms(3) len] assms(1,2)
      by (auto simp: MEMFS_ASSERT_def SKI_ASSERT_MSG_def)
  next
    case False
    let ?t = "?s\<lparr>ms_length := nat l\<rparr>"
    have t: "sup_capacity ?t = sup_capacity ?s" "sup_wf ?t" "contents ?t = take (nat l) (contents ?s)"
      using False wf_sup[OF assms(1,2)] b(1,2)
      by (auto simp: sup_capacity_def sup_wf_def contents_def take_map byte_at_def[abs_def])
    then show ?thesis
      using False size_t_off[OF assms(3)] assms(1,2) upd_sup_wf[OF assms(1,2) t(2,1)] abs_upd_sup[OF assms(1,2) _ t(1)]
      by auto
  qed
qed

definition fresh_support :: "string \<Rightarrow> int \<Rightarrow> nat \<Rightarrow> os_file \<Rightarrow> memfs_support" where
  "fresh_support path inode n osf =
    \<lparr>ms_filename = path, ms_inode = inode, ms_mmap = of_content osf, ms_mmap_length = n,
     ms_extra = (\<lambda>_. 0), ms_extra_length = MEMFS_MMAP_EXTRA_SPACE, ms_length = n\<rparr>"

lemma new_support_spec:
  "new_support path inode n osf =
    (if (n > 0 \<longrightarrow> of_mmap_ok osf) \<and> of_extra_ok osf then Inr (fresh_support path inode n osf) else stop)"
  by (auto simp: new_support_def fresh_support_def MEMFS_ASSERT_def SKI_ASSERT_MSG_def)

lemma fresh_support_wf: "n + MEMFS_MMAP_EXTRA_SPACE < 2 ^ 63 \<Longrightarrow> sup_wf (fresh_support path inode n osf)"
  by (simp add: sup_wf_def sup_capacity_def fresh_support_def)

lemma abs_fresh_support:
  "abs_file (fresh_support path inode n osf) =
    \<lparr>af_inode = inode, af_room = n + MEMFS_MMAP_EXTRA_SPACE, af_bytes = map (of_content osf) [0..<n]\<rparr>"
proof -
  have "contents (fresh_support path inode n osf) = map (of_content osf) [0..<n]"
    by (rule contents_eqI) (simp_all add: fresh_support_def byte_at_def)
  then show ?thesis by (simp add: abs_file_def) (simp add: fresh_support_def sup_capacity_def)
qed

lemma add_handle:
  assumes "memfs_wf m" "k < length (sups m @ ss)" "list_all sup_wf ss"
    and f: "f = \<lparr>mf_id = length (files m), mf_filename = path, mf_fd = fd, mf_file = file, mf_closed = False,
      mf_off = 0, mf_sup = k\<rparr>"
  shows "memfs_wf (m\<lparr>sups := sups m @ ss, files := files m @ [f]\<rparr>)"
    "abs_fs (m\<lparr>sups := sups m @ ss, files := files m @ [f]\<rparr>) =
      (abs_fs m)\<lparr>a_files := a_files (abs_fs m) @ map abs_file ss,
        a_handles := a_handles (abs_fs m) @ [\<lparr>ah_file = k, ah_off = 0, ah_open = True\<rparr>]\<rparr>"
proof -
  let ?m = "m\<lparr>sups := sups m @ ss, files := files m @ [f]\<rparr>"
  have "handle_wf ?m i" if "i < Suc (length (files m))" for i
  proof (cases "i < length (files m)")
    case True
    then show ?thesis using wf_handle[OF assms(1) True]
      by (simp add: handle_wf_def sup_of_def nth_append)
  next
    case False
    then show ?thesis using that assms(2) by (simp add: handle_wf_def f nth_append)
  qed
  then show "memfs_wf ?m" using assms(1,3) by (auto simp: memfs_wf_def list_all_iff simp del: upt_Suc)
  show "abs_fs ?m = (abs_fs m)\<lparr>a_files := a_files (abs_fs m) @ map abs_file ss,
        a_handles := a_handles (abs_fs m) @ [\<lparr>ah_file = k, ah_off = 0, ah_open = True\<rparr>]\<rparr>"
    by (simp add: abs_fs_def f abs_handle_def)
qed

lemma find_inode: "find (\<lambda>i. af_inode (a_files (abs_fs m) ! i) = ino) [0..<length (sups m)] =
    find (\<lambda>i. ms_inode (sups m ! i) = ino) [0..<length (sups m)]"
  by (rule find_cong) (simp_all add: abs_fs_def)

lemma open_refines:
  assumes "memfs_wf m" "os_ok osf" "fd = 0 \<longrightarrow> file \<noteq> None"
  shows "refines (memfs_open m path fd file osf) (a_open (abs_fs m) path (if fd = 0 then of_fd osf else fd) osf)"
proof -
  define fd' where "fd' = (if fd = 0 then of_fd osf else fd)"
  define file' where "file' = (if fd = 0 then file else None)"
  have m: "memfs_open m path fd file osf =
      (if \<not> (length path < MEMFS_MAX_FILENAME - 1 \<and> length (sups m) < MEMFS_MAX_FILES) then stop
       else if length (files m) \<ge> MEMFS_MAX_FILES then Inl Out_of_bounds
       else bind_res (memfs_support_open m path fd' osf) (\<lambda>(m, k).
         Inr (m\<lparr>files := files m @ [\<lparr>mf_id = length (files m), mf_filename = path, mf_fd = fd',
                  mf_file = file', mf_closed = False, mf_off = 0, mf_sup = k\<rparr>]\<rparr>, length (files m))))"
    using assms(3) by (auto simp: memfs_open_def Let_def MEMFS_ASSERT_def SKI_ASSERT_MSG_def fd'_def file'_def)
  show ?thesis
  proof (cases "length path < MEMFS_MAX_FILENAME - 1 \<and> length (sups m) < MEMFS_MAX_FILES \<and>
      length (files m) < MEMFS_MAX_FILES \<and> fd' \<noteq> 0 \<and> of_stat osf \<noteq> None")
    case False
    then show ?thesis unfolding m fd'_def[symmetric]
      by (cases "of_stat osf") (auto simp: a_open_def memfs_support_open_def MEMFS_ASSERT_def SKI_ASSERT_MSG_def)
  next
    case True
    then obtain ino n where st: "of_stat osf = Some (ino, n)" by auto
    then have n: "n + MEMFS_MMAP_EXTRA_SPACE < 2 ^ 63" using assms(2) by (simp add: os_ok_def)
    show ?thesis
    proof (cases "find (\<lambda>i. ms_inode (sups m ! i) = int32 ino) [0..<length (sups m)]")
      case (Some k)
      then have "k < length (sups m)" by (auto simp: find_Some_iff)
      with Some show ?thesis using True st add_handle[OF assms(1) _ _ refl, of k "[]"] find_inode[of m "int32 ino"]
        unfolding m fd'_def[symmetric]
        by (simp add: a_open_def memfs_support_open_def MEMFS_ASSERT_def SKI_ASSERT_MSG_def)
    next
      case None
      let ?s = "fresh_support path (int32 ino) n osf"
      have e: "memfs_support_open m path fd' osf = bind_res (new_support path (int32 ino) n osf) (\<lambda>s.
          Inr (m\<lparr>sups := sups m @ [s]\<rparr>, length (sups m)))"
        using None True st by (simp add: memfs_support_open_def MEMFS_ASSERT_def SKI_ASSERT_MSG_def)
      show ?thesis using True None st add_handle[OF assms(1) _ _ refl, of "length (sups m)" "[?s]"] fresh_support_wf[OF n]
          find_inode[of m "int32 ino"]
        unfolding m fd'_def[symmetric] e new_support_spec by (simp add: a_open_def abs_fresh_support)
    qed
  qed
qed

lemma ignore_refines:
  assumes "memfs_wf m"
  shows "refines (bind_res (memfs_ignorelist_add m path) (\<lambda>m. Inr (m, r))) (a_ignore (abs_fs m) path r)"
proof -
  have "handle_wf (m\<lparr>ignorelist := x\<rparr>) = handle_wf m" for x by (auto simp: handle_wf_def sup_of_def)
  then have "memfs_wf (m\<lparr>ignorelist := x\<rparr>)" for x using assms by (simp add: memfs_wf_def)
  then show ?thesis
    by (simp add: memfs_ignorelist_add_def a_ignore_def MEMFS_ASSERT_def SKI_ASSERT_MSG_def abs_fs_def)
qed

lemma read_at_off:
  assumes "memfs_wf m" "i < length (files m)" "sz * n < 2 ^ 63"
  shows "refines (bind_res (memfs_read m sz n (mf_off (files m ! i)) i True) (\<lambda>(m, bs). Inr (m, Data bs)))
    (a_read (abs_fs m) sz n (int (ah_off (a_handles (abs_fs m) ! i))) True i)"
  using read_refines[OF assms wf_bounds(4)[OF assms(1,2)], of True] wf_bounds(5)[OF assms(1,2)] assms(2) by simp

lemma fread_refines:
  assumes "memfs_wf m" "i < length (files m)" "sz * n < 2 ^ 63"
  shows "refines (bind_res (bind_res (memfs_read m sz n (mf_off (files m ! i)) i True) (\<lambda>(m, bs).
      if sz = 0 then Inl Div_by_zero else Inr (m, bs, length bs div sz))) (\<lambda>(m, x). Inr (m, case x of (bs, _) \<Rightarrow> Data bs)))
    (if sz = 0 then Inl Div_by_zero else a_read (abs_fs m) sz n (int (ah_off (a_handles (abs_fs m) ! i))) True i)"
proof (cases "sz = 0")
  case True
  have "\<exists>r. memfs_read m sz n (mf_off (files m ! i)) i True = Inr r"
    using support.rd_law[OF wf_sup[OF assms(1,2)] assms(3), of "mf_off (files m ! i)"]
    by (auto simp: memfs_read_def)
  then show ?thesis using True by (auto simp: case_prod_unfold)
next
  case False
  then show ?thesis using read_at_off[OF assms]
    by (cases "memfs_read m sz n (mf_off (files m ! i)) i True") (auto simp: case_prod_unfold)
qed

lemma write_at_off:
  assumes "memfs_wf m" "i < length (files m)" "sz * n < 2 ^ 63" "sz * n \<le> length bs"
  shows "refines (bind_res (memfs_write m (Some bs) sz n (mf_off (files m ! i)) i True) (\<lambda>(m, k). Inr (m, Value (f k))))
    (a_write (abs_fs m) (take (sz * n) bs) (int (ah_off (a_handles (abs_fs m) ! i))) True (f (sz * n)) i)"
  using write_refines[OF assms wf_bounds(4)[OF assms(1,2)], of True f] wf_bounds(5)[OF assms(1,2)] assms(2) by simp

lemma fwrite_refines:
  assumes "memfs_wf m" "i < length (files m)" "sz * n < 2 ^ 63" "sz * n \<le> length bs"
  shows "refines (bind_res (bind_res (memfs_write m (Some bs) sz n (mf_off (files m ! i)) i True) (\<lambda>(m, bytes).
      if sz = 0 then Inl Div_by_zero else Inr (m, bytes div sz))) (\<lambda>(m, k). Inr (m, Value (int k))))
    (bind_res (a_write (abs_fs m) (take (sz * n) bs) (int (ah_off (a_handles (abs_fs m) ! i))) True (int n) i) (\<lambda>r.
      if sz = 0 then Inl Div_by_zero else Inr r))"
proof (cases "sz = 0")
  case True
  then show ?thesis using write_at_off[OF assms, of "\<lambda>_. int n"]
    by (cases "memfs_write m (Some bs) sz n (mf_off (files m ! i)) i True") (auto simp: case_prod_unfold)
next
  case False
  then show ?thesis using write_at_off[OF assms, of "\<lambda>k. int (k div sz)"]
    by (cases "memfs_write m (Some bs) sz n (mf_off (files m ! i)) i True") (auto simp: case_prod_unfold)
qed

lemma close_refines:
  assumes "memfs_wf m" "i < length (files m)"
  shows "refines (Inr (upd_file i (\<lambda>f. f\<lparr>mf_closed := True\<rparr>) m, Value 0))
    (Inr ((abs_fs m)\<lparr>a_handles := (a_handles (abs_fs m))[i := (a_handles (abs_fs m) ! i)\<lparr>ah_open := False\<rparr>]\<rparr>, Value 0))"
proof -
  have "memfs_wf (upd_file i (\<lambda>f. f\<lparr>mf_closed := True\<rparr>) m)"
    by (rule upd_file_wf) (use assms wf_handle[OF assms] in \<open>simp_all add: handle_wf_def\<close>)
  then show ?thesis using abs_upd_closed[OF assms(2)] by simp
qed

lemma open_hook_refines:
  assumes "memfs_wf m" "os_ok osf"
  shows "refines (fs_exec m (Open path flags osf)) (afs_exec (abs_fs m) (Open path flags osf))"
proof -
  have en: "ski_memfs_enabled m" using assms(1) by (simp add: memfs_wf_def)
  consider "\<not> memfs_intercept_filename path" | "memfs_intercept_filename path" "of_fd osf = 0"
    | "memfs_intercept_filename path" "of_fd osf \<noteq> 0" by blast
  then show ?thesis
  proof cases
    case 1
    then show ?thesis using ignore_refines[OF assms(1), of path "Value (of_fd osf)"] by (simp add: hook_open_def)
  next
    case 2
    then show ?thesis using assms(1) en by (simp add: hook_open_def)
  next
    case 3
    have r: "refines (memfs_open m path (of_fd osf) None osf) (a_open (abs_fs m) path (of_fd osf) osf)"
      using open_refines[OF assms, of "of_fd osf" None path] 3 by simp
    show ?thesis
    proof (cases "memfs_open m path (of_fd osf) None osf")
      case (Inl e)
      then show ?thesis using r 3 en by (simp add: hook_open_def)
    next
      case (Inr p)
      then obtain m' i where p: "memfs_open m path (of_fd osf) None osf = Inr (m', i)" by (cases p) auto
      then have m': "memfs_wf m'" "a_open (abs_fs m) path (of_fd osf) osf = Inr (abs_fs m', i)" using r by simp_all
      have i: "i < length (files m')"
        using p by (auto simp: memfs_open_def Let_def bind_res_eq_Inr split: if_splits prod.splits)
      have id: "mf_id (files m' ! i) = i" using wf_handle[OF m'(1) i] by (simp add: handle_wf_def)
      then have id': "mf_id (files (upd_file i (\<lambda>x. x\<lparr>mf_off := off\<rparr>) m') ! i) = i" for off
        using i by (simp add: upd_file_def)
      show ?thesis
        using 3 en p m' i id id' wf_bounds(1)[OF m'(1) i] off_update_wf[OF m'(1) i] abs_upd_off[OF i]
        by (simp add: hook_open_def Let_def)
    qed
  qed
qed

lemma fopen_hook_refines:
  assumes "memfs_wf m" "op_ok (Fopen path mode r)"
  shows "refines (fs_exec m (Fopen path mode r)) (afs_exec (abs_fs m) (Fopen path mode r))"
proof -
  have en: "ski_memfs_enabled m" using assms(1) by (simp add: memfs_wf_def)
  show ?thesis
  proof (cases "memfs_intercept_filename path")
    case False
    then show ?thesis using ignore_refines[OF assms(1), of path "Stream (map_option (\<lambda>(file, _). Os file) r)"] en
      by (simp add: hook_fopen_def)
  next
    case True
    show ?thesis
    proof (cases r)
      case None
      then show ?thesis using True en assms(1) by (simp add: hook_fopen_def)
    next
      case (Some q)
      obtain fp osf where q: "q = (fp, osf)" by force
      have "refines (memfs_open m path 0 (Some fp) osf) (a_open (abs_fs m) path (of_fd osf) osf)"
        using open_refines[OF assms(1), of osf 0 "Some fp" path] assms(2) Some q by simp
      then have "refines (bind_res (memfs_open m path 0 (Some fp) osf) (\<lambda>(m, i). Inr (m, Stream (Some (Mem i)))))
          (bind_res (a_open (abs_fs m) path (of_fd osf) osf) (\<lambda>(a, i). Inr (a, Stream (Some (Mem i)))))"
        by (rule refines_bind) simp
      then show ?thesis using True en Some q
        by (simp add: hook_fopen_def MEMFS_ASSERT_def SKI_ASSERT_MSG_def case_prod_unfold)
    qed
  qed
qed

lemmas hook_defs = hook_close_def hook_fclose_def hook_read_def hook_pread_def hook_fread_def hook_write_def
  hook_pwrite_def hook_fwrite_def hook_lseek_def hook_fseek_def hook_rewind_def hook_ftruncate_def

lemma close_reply:
  "bind_res (bind_res h (\<lambda>r. Inr (case r of None \<Rightarrow> (m, 0) | Some x \<Rightarrow> x))) (\<lambda>(m, r). Inr (m, Value r)) =
    bind_res h (\<lambda>r. Inr (case r of None \<Rightarrow> (m, Value 0) | Some (m', x) \<Rightarrow> (m', Value x)))"
  by (cases h) (auto split: option.splits)

lemma exec_refines:
  assumes "memfs_wf m" "op_ok op"
  shows "refines (fs_exec m op) (afs_exec (abs_fs m) op)"
proof (cases op)
  case (Open path flags osf)
  then show ?thesis using open_hook_refines assms by simp
next
  case (Fopen path mode r)
  then show ?thesis using fopen_hook_refines assms by blast
next
  case (Close fd)
  show ?thesis unfolding Close fs_exec.simps afs_exec.simps hook_defs on_stream_on_fd close_reply
    by (rule on_fd_refines[OF assms(1)]) (use close_refines[OF assms(1)] in \<open>simp add: memfs_close_def\<close>)
next
  case (Fclose fp)
  show ?thesis unfolding Fclose fs_exec.simps afs_exec.simps hook_defs on_stream_on_fd close_reply
    by (rule on_fd_refines[OF assms(1)]) (use close_refines[OF assms(1)] in \<open>simp add: memfs_close_def\<close>)
next
  case (Read fd n)
  show ?thesis unfolding Read fs_exec.simps afs_exec.simps hook_defs on_stream_on_fd reply_def
    by (rule on_fd_refines[OF assms(1)]) (use read_at_off[OF assms(1), of _ 1 n] assms(2) Read in simp)
next
  case (Pread fd n offset)
  show ?thesis unfolding Pread fs_exec.simps afs_exec.simps hook_defs on_stream_on_fd reply_def
    by (rule on_fd_refines[OF assms(1)]) (use read_refines[OF assms(1), of _ 1 n offset False] assms(2) Pread in simp)
next
  case (Fread sz n fp)
  show ?thesis unfolding Fread fs_exec.simps afs_exec.simps hook_defs on_stream_on_fd reply_def
    by (rule on_fd_refines[OF assms(1)], rule fread_refines[OF assms(1)]) (use assms(2) Fread in simp_all)
next
  case (Write fd bs)
  show ?thesis unfolding Write fs_exec.simps afs_exec.simps hook_defs on_stream_on_fd reply_def
    by (rule on_fd_refines[OF assms(1)]) (use write_at_off[OF assms(1), of _ 1 "length bs" bs int] assms(2) Write in simp)
next
  case (Pwrite fd bs offset)
  show ?thesis unfolding Pwrite fs_exec.simps afs_exec.simps hook_defs on_stream_on_fd reply_def
    by (rule on_fd_refines[OF assms(1)]) (use write_refines[OF assms(1), of _ 1 "length bs" bs offset False int] assms(2) Pwrite in simp)
next
  case (Fwrite bs sz n fp)
  show ?thesis unfolding Fwrite fs_exec.simps afs_exec.simps hook_defs on_stream_on_fd reply_def
    by (rule on_fd_refines[OF assms(1)], rule fwrite_refines[OF assms(1)]) (use assms(2) Fwrite in simp_all)
next
  case (Lseek fd offset whence)
  show ?thesis unfolding Lseek fs_exec.simps afs_exec.simps hook_defs on_stream_on_fd reply_def
    by (rule on_fd_refines[OF assms(1)]) (use seek_refines[OF assms(1), where tell = True] assms(2) Lseek in simp)
next
  case (Fseek fp offset whence)
  show ?thesis unfolding Fseek fs_exec.simps afs_exec.simps hook_defs on_stream_on_fd reply_def
    by (rule on_fd_refines[OF assms(1)]) (use seek_refines[OF assms(1), where tell = False] assms(2) Fseek in simp)
next
  case (Rewind fp)
  show ?thesis unfolding Rewind fs_exec.simps afs_exec.simps hook_defs on_stream_on_fd reply_def
    by (rule on_fd_refines[OF assms(1)]) (use off_update_wf[OF assms(1)] abs_upd_off assms(2) Rewind in simp)
next
  case (Ftruncate fd l)
  show ?thesis unfolding Ftruncate fs_exec.simps afs_exec.simps hook_defs on_stream_on_fd reply_def
    by (rule on_fd_refines[OF assms(1)]) (use truncate_refines[OF assms(1)] assms(2) Ftruncate in simp)
qed

lemma run_refines:
  assumes "memfs_wf m" "list_all op_ok ops"
  shows "refines (fs_run m ops) (afs_run (abs_fs m) ops)"
  using assms
proof (induction ops arbitrary: m)
  case (Cons op ops)
  have "refines (fs_exec m op) (afs_exec (abs_fs m) op)" using exec_refines Cons.prems by simp
  then show ?case unfolding fs_run.simps afs_run.simps
  proof (rule refines_bind)
    fix m' r
    assume "memfs_wf m'"
    then have "refines (fs_run m' ops) (afs_run (abs_fs m') ops)" using Cons by simp
    then have "refines (bind_res (fs_run m' ops) (\<lambda>(m, rs). Inr (m, r # rs)))
        (bind_res (afs_run (abs_fs m') ops) (\<lambda>(a, rs). Inr (a, r # rs)))"
      by (rule refines_bind) simp
    then show "refines (case (m', r) of (m, r) \<Rightarrow> bind_res (fs_run m ops) (\<lambda>(m, rs). Inr (m, r # rs)))
        (case (abs_fs m', r) of (a, r) \<Rightarrow> bind_res (afs_run a ops) (\<lambda>(a, rs). Inr (a, r # rs)))"
      by simp
  qed
qed simp

section \<open>Properties\<close>

text \<open>
  C6: the in-memory file system implements its contract.  Every sequence of open, close, read,
  write, seek and truncate calls, on descriptors and streams in any order, ends in the same
  error or gives the same replies as the abstract system in which a file is a list of bytes
  that all handles of its inode share; the states stay related, and the invariant of the file
  tables holds at the end.
\<close>

theorem memfs_refinement:
  assumes "memfs_wf m" "list_all op_ok ops"
  shows "case fs_run m ops of
      Inl e \<Rightarrow> afs_run (abs_fs m) ops = Inl e
    | Inr (m', rs) \<Rightarrow> memfs_wf m' \<and> afs_run (abs_fs m) ops = Inr (abs_fs m', rs)"
  using run_refines[OF assms] by (simp add: refines_def)

definition memfs_start :: memfs where
  "memfs_start = \<lparr>sups = [], files = [], ignorelist = [], ski_memfs_enabled = True\<rparr>"

definition sample_os :: os_file where
  "sample_os = \<lparr>of_fd = 5, of_stat = Some (7, 3), of_content = (\<lambda>i. of_nat (i + 1)), of_mmap_ok = True, of_extra_ok = True\<rparr>"

definition sample_ops :: "fs_op list" where
  "sample_ops = [Open ''disk'' 2 sample_os, Open ''disk'' 0 sample_os, Pwrite 100 [9, 8] 5, Read 101 10, Lseek 101 0 0]"

lemma sample_ops_ok: "memfs_wf memfs_start \<and> list_all op_ok sample_ops"
  by (simp add: memfs_wf_def memfs_start_def sample_ops_def sample_os_def os_ok_def off_ok_def)

lemma sample_ops_abs:
  "\<exists>a. afs_run (abs_fs memfs_start) sample_ops =
    Inr (a, [Value 100, Value 101, Value 2, Data [1, 2, 3, 0, 0, 9, 8], Value 0])"
proof -
  have "memfs_intercept_filename ''disk''" by (simp add: memfs_intercept_filename_def str_ends_with_def)
  moreover have "int32 7 = 7" by (simp add: c_int_def)
  moreover have "replicate 2 (0 :: byte) = [0, 0]" by (simp add: numeral_2_eq_2)
  ultimately show ?thesis
    by (simp add: sample_ops_def sample_os_def abs_fs_def memfs_start_def a_open_def a_on_def a_write_def a_read_def
        a_move_def a_file_def a_put_def a_seek_def file_write_def file_read_def upt_0_3 Let_def)
qed

theorem memfs_refinement_witness:
  "\<exists>m'. fs_run memfs_start sample_ops =
    Inr (m', [Value 100, Value 101, Value 2, Data [1, 2, 3, 0, 0, 9, 8], Value 0]) \<and> memfs_wf m'"
  using memfs_refinement[of memfs_start sample_ops] sample_ops_ok sample_ops_abs
  by (auto split: sum.splits prod.splits)

lemma on_fd_open:
  "ski_memfs_enabled m \<Longrightarrow> i < length (files m) \<Longrightarrow> \<not> mf_closed (files m ! i) \<Longrightarrow>
    on_fd m (int i + MEMFS_FD_START) body = bind_res (body i) (\<lambda>r. Inr (Some r))"
  by (simp add: on_fd_def memfs_get_fd_def MEMFS_ASSERT_def SKI_ASSERT_MSG_def)

text \<open>
  C22: what is written at a position is read back from it, through every open handle of the
  same file, bytes of that file outside the range and all other files are untouched, and no
  handle moves.
\<close>

theorem pwrite_pread:
  assumes "memfs_wf m" "i < length (files m)" "\<not> mf_closed (files m ! i)"
    and "bs \<noteq> []" "length bs < 2 ^ 63" "off_ok off"
    and w: "hook_pwrite m (int i + MEMFS_FD_START) bs off = Inr (Some (m', k))"
  shows "k = length bs \<and> files m' = files m \<and>
    (\<forall>j<length (files m). \<not> mf_closed (files m ! j) \<longrightarrow>
      (mf_sup (files m ! j) \<noteq> mf_sup (files m ! i) \<longrightarrow> sup_of m' j = sup_of m j) \<and>
      (mf_sup (files m ! j) = mf_sup (files m ! i) \<longrightarrow>
        hook_pread m' (int j + MEMFS_FD_START) (length bs) off = Inr (Some (m', bs)) \<and>
        (\<forall>n a. 0 < n \<and> a + n \<le> ms_length (sup_of m j) \<and> (int (a + n) \<le> off \<or> off + int (length bs) \<le> int a) \<longrightarrow>
          (\<exists>ds. hook_pread m (int j + MEMFS_FD_START) n (int a) = Inr (Some (m, ds)) \<and>
            hook_pread m' (int j + MEMFS_FD_START) n (int a) = Inr (Some (m', ds))))))"
proof -
  have en: "ski_memfs_enabled m" using assms(1) by (simp add: memfs_wf_def)
  have lt: "size_t off < 2 ^ 64" using assms(6) by (simp add: size_t_off off_ok_def nat_less_iff)
  obtain s' where s': "sup_write (Some bs) 1 (length bs) (size_t off) (sup_of m i) = Inr (s', k)" "m' = upd_sup i s' m"
    using w en assms(2,3) by (auto simp: hook_pwrite_def on_fd_open memfs_write_def bind_res_eq_Inr)
  note r = support.wr_result[OF wf_sup[OF assms(1,2)] assms(5) lt s'(1)]
  have off: "0 \<le> off" "size_t off = nat off"
  proof -
    have "size_t off + 1 * length bs \<le> sup_capacity (sup_of m i)"
      using support.wr_full[OF wf_sup[OF assms(1,2)], of "Some bs" 1 "length bs" "size_t off"] s'(1) assms(5) lt
      by (auto simp: ptr_ok_def)
    then have "\<not> sup_capacity (sup_of m i) < size_t off" by simp
    then show "0 \<le> off" "size_t off = nat off"
      using size_t_outside(2)[OF assms(6) wf_bounds(2)[OF assms(1,2)]] size_t_off[OF assms(6)] by auto
  qed
  have fl: "sup_of m' j = (if mf_sup (files m ! j) = mf_sup (files m ! i) then s' else sup_of m j)" for j
    using wf_handle[OF assms(1,2)] by (auto simp: s'(2) sup_of_def upd_sup_def handle_wf_def)
  have again: "hook_pread m' (int j + MEMFS_FD_START) (length bs) off = Inr (Some (m', bs))"
    if "j < length (files m)" "\<not> mf_closed (files m ! j)" "mf_sup (files m ! j) = mf_sup (files m ! i)" for j
    using support.read_written[OF wf_sup[OF assms(1,2)] assms(5) lt s'(1) assms(4)] that en fl[of j]
    by (simp add: hook_pread_def on_fd_open memfs_read_def s'(2))
  have other: "\<exists>ds. hook_pread m (int j + MEMFS_FD_START) n (int a) = Inr (Some (m, ds)) \<and>
      hook_pread m' (int j + MEMFS_FD_START) n (int a) = Inr (Some (m', ds))"
    if j: "j < length (files m)" "\<not> mf_closed (files m ! j)" "mf_sup (files m ! j) = mf_sup (files m ! i)"
      and a: "0 < n" "a + n \<le> ms_length (sup_of m j)" "int (a + n) \<le> off \<or> off + int (length bs) \<le> int a" for j n a
  proof -
    have same: "sup_of m j = sup_of m i" using j(3) by (simp add: sup_of_def)
    have n: "n < 2 ^ 63" "a < 2 ^ 64" using a(2) wf_bounds(1,2)[OF assms(1) j(1)] pow_63_64 by linarith+
    have "a + n \<le> size_t off \<or> size_t off + length bs \<le> a" using a(3) off by linarith
    then have "sup_read s' 1 n a = sup_read (sup_of m i) 1 n a"
      using support.read_elsewhere[OF wf_sup[OF assms(1,2)] assms(5) lt s'(1) a(1) n(1), of a] a(2) same by simp
    then show ?thesis
      using j en fl[of j] same n support.rd_law[OF wf_sup[OF assms(1) j(1)], of 1 n a]
      by (auto simp: hook_pread_def on_fd_open memfs_read_def s'(2))
  qed
  show ?thesis using r(4) fl again other s'(2) by auto
qed

definition sample_fs :: memfs where
  "sample_fs = memfs_start\<lparr>sups := [fresh_support ''disk'' 7 3 sample_os],
     files := map (\<lambda>i. \<lparr>mf_id = i, mf_filename = ''disk'', mf_fd = 5, mf_file = None, mf_closed = False,
       mf_off = 0, mf_sup = 0\<rparr>) [0, 1]\<rparr>"

lemma sample_fs_wf: "memfs_wf sample_fs"
  using fresh_support_wf[of 3 "''disk''" 7 sample_os]
  by (simp add: memfs_wf_def sample_fs_def memfs_start_def handle_wf_def)

theorem pwrite_pread_witness:
  "\<exists>m'. hook_pwrite sample_fs 100 [9, 8] 5 = Inr (Some (m', 2)) \<and> hook_pread m' 101 2 5 = Inr (Some (m', [9, 8]))"
proof -
  let ?s = "sup_of sample_fs 0"
  have f: "length (files sample_fs) = 2" "\<not> mf_closed (files sample_fs ! 0)" "\<not> mf_closed (files sample_fs ! Suc 0)"
    "ski_memfs_enabled sample_fs" "mf_sup (files sample_fs ! Suc 0) = mf_sup (files sample_fs ! 0)"
    by (simp_all add: sample_fs_def memfs_start_def)
  have cap: "sup_capacity ?s = 3 + MEMFS_MMAP_EXTRA_SPACE"
    by (simp add: sup_of_def sample_fs_def fresh_support_def sup_capacity_def)
  have "sup_wf ?s" using wf_sup[OF sample_fs_wf, of 0] f by simp
  then obtain s' where "sup_write (Some [9, 8]) (Suc 0) (Suc (Suc 0)) (size_t 5) ?s = Inr (s', Suc (Suc 0))"
    using support.wr_law[of ?s "Some [9, 8]" "Suc 0" "Suc (Suc 0)" "size_t 5"] cap by (auto simp: size_t_def ptr_ok_def)
  then have w: "hook_pwrite sample_fs (int 0 + MEMFS_FD_START) [9, 8] 5 = Inr (Some (upd_sup 0 s' sample_fs, 2))"
    using f unfolding hook_pwrite_def by (subst on_fd_open) (simp_all add: memfs_write_def numeral_2_eq_2)
  have p: "0 < length (files sample_fs)" "length [9, 8 :: byte] < 2 ^ 63" "off_ok 5" using f(1) by (simp_all add: off_ok_def)
  have "hook_pread (upd_sup 0 s' sample_fs) (int (Suc 0) + MEMFS_FD_START) (length [9, 8 :: byte]) 5 =
      Inr (Some (upd_sup 0 s' sample_fs, [9, 8]))"
    using pwrite_pread[OF sample_fs_wf p(1) f(2) _ p(2,3) w, THEN conjunct2, THEN conjunct2, THEN spec, of "Suc 0"] f(1,3,5)
    by simp
  then have "hook_pread (upd_sup 0 s' sample_fs) 101 2 5 = Inr (Some (upd_sup 0 s' sample_fs, [9, 8]))"
    by (simp add: numeral_2_eq_2)
  with w show ?thesis by auto
qed

end
