(* ===== verification/Ski_Sha1.thy ===== *)
theory Ski_Sha1
  imports Ski_Prelude
begin

text \<open>
  The hash that identifies the kernel and disk of a test (\<open>vmm/ski-sha1.c\<close>, used by
  \<open>ski_sha_file\<close> of \<open>vmm/vl.c\<close>): the context, the transformation of a block with its circular
  schedule and its rotating registers, the update with chunks of any size, and the padding.  It
  is proved to compute SHA-1 of the concatenated chunks, as the standard defines it.
\<close>

unbundle bit_operations_syntax

section \<open>Transformation of a block\<close>

definition rol :: "32 word \<Rightarrow> nat \<Rightarrow> 32 word" where
  "rol value bits = push_bit bits value OR drop_bit (32 - bits) value"

text \<open>The block as an array of words, on a little endian machine.\<close>

definition le32 :: "8 word \<Rightarrow> 8 word \<Rightarrow> 8 word \<Rightarrow> 8 word \<Rightarrow> 32 word" where
  "le32 b0 b1 b2 b3 = ucast b0 OR push_bit 8 (ucast b1) OR push_bit 16 (ucast b2) OR push_bit 24 (ucast b3)"

definition block_words :: "8 word list \<Rightarrow> 32 word list" where
  "block_words bs = map (\<lambda>i. le32 (bs ! (4 * i)) (bs ! (4 * i + 1)) (bs ! (4 * i + 2)) (bs ! (4 * i + 3))) [0..<16]"

definition blk0 :: "nat \<Rightarrow> 32 word list \<Rightarrow> 32 word list" where
  "blk0 i l = l[i := (rol (l ! i) 24 AND 0xFF00FF00) OR (rol (l ! i) 8 AND 0x00FF00FF)]"

definition blk :: "nat \<Rightarrow> 32 word list \<Rightarrow> 32 word list" where
  "blk i l = l[i mod 16 := rol (l ! ((i + 13) mod 16) XOR l ! ((i + 8) mod 16) XOR l ! ((i + 2) mod 16) XOR l ! (i mod 16)) 1]"

text \<open>
  The macros \<open>R0\<close> to \<open>R4\<close> on the registers \<open>r\<close>; \<open>v\<close> to \<open>z\<close> are the positions of the registers
  that they are applied to, and \<open>b\<close> is the word that \<open>blk0\<close> or \<open>blk\<close> has stored.
\<close>

definition macro_R :: "32 word \<Rightarrow> 32 word \<Rightarrow> 32 word \<Rightarrow> nat \<Rightarrow> nat \<Rightarrow> nat \<Rightarrow> 32 word list \<Rightarrow> 32 word list" where
  "macro_R f b k v w z r =
    (let r = r[z := r ! z + (f + b + k + rol (r ! v) 5)] in r[w := rol (r ! w) 30])"

fun R0 :: "nat \<Rightarrow> nat \<Rightarrow> nat \<Rightarrow> nat \<Rightarrow> nat \<Rightarrow> nat \<Rightarrow> 32 word list \<times> 32 word list \<Rightarrow> 32 word list \<times> 32 word list" where
  "R0 v w x y z i (r, l) =
    (let l = blk0 i l in (macro_R ((r ! w AND (r ! x XOR r ! y)) XOR r ! y) (l ! i) 0x5A827999 v w z r, l))"

fun R1 :: "nat \<Rightarrow> nat \<Rightarrow> nat \<Rightarrow> nat \<Rightarrow> nat \<Rightarrow> nat \<Rightarrow> 32 word list \<times> 32 word list \<Rightarrow> 32 word list \<times> 32 word list" where
  "R1 v w x y z i (r, l) =
    (let l = blk i l in (macro_R ((r ! w AND (r ! x XOR r ! y)) XOR r ! y) (l ! (i mod 16)) 0x5A827999 v w z r, l))"

fun R2 :: "nat \<Rightarrow> nat \<Rightarrow> nat \<Rightarrow> nat \<Rightarrow> nat \<Rightarrow> nat \<Rightarrow> 32 word list \<times> 32 word list \<Rightarrow> 32 word list \<times> 32 word list" where
  "R2 v w x y z i (r, l) =
    (let l = blk i l in (macro_R (r ! w XOR r ! x XOR r ! y) (l ! (i mod 16)) 0x6ED9EBA1 v w z r, l))"

fun R3 :: "nat \<Rightarrow> nat \<Rightarrow> nat \<Rightarrow> nat \<Rightarrow> nat \<Rightarrow> nat \<Rightarrow> 32 word list \<times> 32 word list \<Rightarrow> 32 word list \<times> 32 word list" where
  "R3 v w x y z i (r, l) =
    (let l = blk i l in (macro_R (((r ! w OR r ! x) AND r ! y) OR (r ! w AND r ! x)) (l ! (i mod 16)) 0x8F1BBCDC v w z r, l))"

fun R4 :: "nat \<Rightarrow> nat \<Rightarrow> nat \<Rightarrow> nat \<Rightarrow> nat \<Rightarrow> nat \<Rightarrow> 32 word list \<times> 32 word list \<Rightarrow> 32 word list \<times> 32 word list" where
  "R4 v w x y z i (r, l) =
    (let l = blk i l in (macro_R (r ! w XOR r ! x XOR r ! y) (l ! (i mod 16)) 0xCA62C1D6 v w z r, l))"

text \<open>
  The unrolled rounds: the macro of round \<open>i\<close> is applied to the registers \<open>a\<close> to \<open>e\<close> rotated by
  \<open>i\<close> places.
\<close>

definition sha_round :: "32 word list \<times> 32 word list \<Rightarrow> nat \<Rightarrow> 32 word list \<times> 32 word list" where
  "sha_round s i =
    (let v = 4 * i mod 5; w = (4 * i + 1) mod 5; x = (4 * i + 2) mod 5; y = (4 * i + 3) mod 5; z = (4 * i + 4) mod 5
     in if i < 16 then R0 v w x y z i s
        else if i < 20 then R1 v w x y z i s
        else if i < 40 then R2 v w x y z i s
        else if i < 60 then R3 v w x y z i s
        else R4 v w x y z i s)"

definition SHA1Transform :: "32 word list \<Rightarrow> 8 word list \<Rightarrow> 32 word list" where
  "SHA1Transform state buffer =
    (let (r, l) = foldl sha_round (map ((!) state) [0..<5], block_words buffer) [0..<80]
     in map (\<lambda>i. state ! i + r ! i) [0..<5])"

section \<open>Context\<close>

record SHA1_CTX =
  sha_state :: "32 word list"
  sha_count0 :: "32 word"
  sha_count1 :: "32 word"
  sha_buffer :: "8 word list"

definition SHA1Init :: "SHA1_CTX \<Rightarrow> SHA1_CTX" where
  "SHA1Init context = context\<lparr>sha_state := [0x67452301, 0xEFCDAB89, 0x98BADCFE, 0x10325476, 0xC3D2E1F0],
     sha_count0 := 0, sha_count1 := 0\<rparr>"

definition memcpy_at :: "8 word list \<Rightarrow> nat \<Rightarrow> 8 word list \<Rightarrow> 8 word list res" where
  "memcpy_at dst j src =
    (if j + length src \<le> length dst then Inr (take j dst @ src @ drop (j + length src) dst) else Inl Out_of_bounds)"

text \<open>
  The loop over whole blocks.  The index is a 32-bit number, so its sum with 63 wraps; a block
  past the end of the data is read out of bounds.
\<close>

function update_blocks :: "8 word list \<Rightarrow> nat \<Rightarrow> 32 word list \<Rightarrow> (nat \<times> 32 word list) res" where
  "update_blocks data i state =
    (if (i + 63) mod 2 ^ 32 < length data
     then if length data < i + 64 then Inl Out_of_bounds
          else update_blocks data (i + 64) (SHA1Transform state (take 64 (drop i data)))
     else Inr (i, state))"
  by pat_completeness auto
termination
  by (relation "measure (\<lambda>(data, i, state). length data - i)") auto

declare update_blocks.simps [simp del]

definition SHA1Update :: "SHA1_CTX \<Rightarrow> 8 word list \<Rightarrow> SHA1_CTX res" where
  "SHA1Update context data =
    (let len = (of_nat (length data) :: 32 word);
         j = sha_count0 context;
         context = context\<lparr>sha_count0 := j + push_bit 3 len\<rparr>;
         context = (if sha_count0 context < j then context\<lparr>sha_count1 := sha_count1 context + 1\<rparr> else context);
         context = context\<lparr>sha_count1 := sha_count1 context + drop_bit 29 len\<rparr>;
         j = unat (drop_bit 3 j AND 63)
     in bind_res (if (j + length data) mod 2 ^ 32 > 63
          then if length data < 64 - j then Inl Out_of_bounds
               else bind_res (memcpy_at (sha_buffer context) j (take (64 - j) data)) (\<lambda>buffer.
                    bind_res (update_blocks data (64 - j) (SHA1Transform (sha_state context) buffer)) (\<lambda>(i, state).
                      Inr (context\<lparr>sha_buffer := buffer, sha_state := state\<rparr>, i, 0)))
          else Inr (context, 0, j)) (\<lambda>(context, i, j).
        bind_res (memcpy_at (sha_buffer context) j (drop i data)) (\<lambda>buffer.
          Inr (context\<lparr>sha_buffer := buffer\<rparr>))))"

definition finalcount_of :: "SHA1_CTX \<Rightarrow> 8 word list" where
  "finalcount_of context = map (\<lambda>i. ucast (drop_bit ((3 - i mod 4) * 8)
    (if i \<ge> 4 then sha_count0 context else sha_count1 context) AND 255)) [0..<8]"

lemma update_count0: "SHA1Update c data = Inr c' \<Longrightarrow> sha_count0 c' = sha_count0 c + push_bit 3 (of_nat (length data))"
  by (auto simp: SHA1Update_def Let_def bind_res_eq_Inr split: if_splits prod.splits)

text \<open>The number of zero bytes that are missing to the last eight bytes of a block.\<close>

definition pad_left :: "32 word \<Rightarrow> nat" where
  "pad_left c = (120 - unat c div 8 mod 64) mod 64"

lemma byte_index_mod: "x mod 2 ^ 32 div 8 mod 64 = x div 8 mod (64 :: nat)"
proof -
  have "x mod (8 * 536870912) = 8 * (x div 8 mod 536870912) + x mod 8" by (rule mod_mult2_eq)
  then have "x mod 2 ^ 32 div 8 = x div 8 mod 536870912" by simp
  then show ?thesis by (simp add: mod_mod_cancel)
qed

lemma and_504: "c AND 504 = 448 \<longleftrightarrow> unat (c :: 32 word) div 8 mod 64 = 56"
proof -
  have eq: "(504 :: 32 word) = push_bit 3 (mask 6)" by (simp add: mask_eq_exp_minus_1 push_bit_eq_mult)
  have b: "bit (504 :: 32 word) n \<longleftrightarrow> 3 \<le> n \<and> n < 9" for n
    unfolding eq by (auto simp: bit_push_bit_iff bit_mask_iff)
  have p: "c AND 504 = push_bit 3 (take_bit 6 (drop_bit 3 c))"
  proof (rule bit_eqI)
    fix n
    assume "possible_bit TYPE(32 word) n"
    then show "bit (c AND 504) n \<longleftrightarrow> bit (push_bit 3 (take_bit 6 (drop_bit 3 c))) n"
      using b[of n] by (cases "3 \<le> n") (auto simp: bit_and_iff bit_push_bit_iff bit_take_bit_iff bit_drop_bit_eq)
  qed
  have u: "unat (take_bit 6 (drop_bit 3 c)) = unat c div 8 mod 64"
    by (simp add: take_bit_eq_mod drop_bit_eq_div unat_div unat_mod)
  have "unat c div 8 mod 64 < 64" by simp
  then have "unat (c AND 504) = 8 * (unat c div 8 mod 64)"
    unfolding p using u by (simp add: push_bit_eq_mult unat_word_ariths)
  then show ?thesis by (simp add: word_unat_eq_iff)
qed

lemma pad_left_step:
  assumes "c AND 504 \<noteq> (448 :: 32 word)"
  shows "pad_left (c + 8) + 1 = pad_left c"
proof -
  define u where "u = unat c div 8 mod 64"
  have u: "u < 64" "u \<noteq> 56" using assms and_504[of c] by (simp_all add: u_def)
  have "unat (c + 8) = (unat c + 8) mod 2 ^ 32" by (simp add: unat_word_ariths)
  moreover have "(unat c + 8) div 8 = Suc (unat c div 8)" by simp
  ultimately have s: "unat (c + 8) div 8 mod 64 = (u + 1) mod 64"
    using byte_index_mod[of "unat c + 8"] by (simp add: u_def mod_Suc_eq)
  have m: "(120 - v) mod 64 = (if v \<le> 56 then 56 - v else 120 - v)" if "v < 64" for v :: nat
    using that by (auto simp: mod_if)
  have "Suc u mod 64 = (if u = 63 then 0 else Suc u)" using u by simp
  then have "Suc ((120 - Suc u mod 64) mod 64) = (120 - u) mod 64" using m[of u] m[of "Suc u mod 64"] u by auto
  then show ?thesis unfolding pad_left_def s u_def[symmetric] by simp
qed

function pad_loop :: "SHA1_CTX \<Rightarrow> SHA1_CTX res" where
  "pad_loop context =
    (if sha_count0 context AND 504 \<noteq> 448
     then bind_res (SHA1Update context [0]) pad_loop
     else Inr context)"
  by pat_completeness auto
termination
proof (relation "measure (\<lambda>c. pad_left (sha_count0 c))")
  fix c c'
  assume "sha_count0 c AND 504 \<noteq> 448" "SHA1Update c [0] = Inr c'"
  then show "(c', c) \<in> measure (\<lambda>c. pad_left (sha_count0 c))"
    using pad_left_step[of "sha_count0 c"] update_count0[of c "[0]" c'] by (simp add: push_bit_eq_mult)
qed simp

declare pad_loop.simps [simp del]

definition SHA1Final :: "SHA1_CTX \<Rightarrow> (8 word list \<times> SHA1_CTX) res" where
  "SHA1Final context =
    (let finalcount = finalcount_of context
     in bind_res (SHA1Update context [0x80]) (\<lambda>context.
        bind_res (pad_loop context) (\<lambda>context.
        bind_res (SHA1Update context finalcount) (\<lambda>context.
          Inr (map (\<lambda>i. ucast (drop_bit ((3 - i mod 4) * 8) (sha_state context ! (i div 4)) AND 255)) [0..<20],
               \<lparr>sha_state = replicate 5 0, sha_count0 = 0, sha_count1 = 0, sha_buffer = replicate 64 0\<rparr>)))))"

section \<open>Hashing a file\<close>

abbreviation (input) SKI_HASH_BUFFER_SIZE :: nat where "SKI_HASH_BUFFER_SIZE \<equiv> 20971520"
abbreviation (input) SKI_HASH_READ_MAX :: nat where "SKI_HASH_READ_MAX \<equiv> 50000000"

text \<open>The loop over the file; \<open>rest\<close> is what is still to be read.\<close>

function hash_loop :: "8 word list \<Rightarrow> nat \<Rightarrow> SHA1_CTX \<Rightarrow> (nat \<times> SHA1_CTX) res" where
  "hash_loop rest total_bytes ctx =
    (let buffer = take (min SKI_HASH_BUFFER_SIZE (SKI_HASH_READ_MAX - total_bytes)) rest
     in if buffer = [] then Inr (total_bytes, ctx)
        else bind_res (SHA1Update ctx buffer) (\<lambda>ctx.
          hash_loop (drop (length buffer) rest) (total_bytes + length buffer) ctx))"
  by pat_completeness auto
termination
  by (relation "measure (\<lambda>(rest, total_bytes, ctx). length rest)") (auto simp: Let_def)

declare hash_loop.simps [simp del]

definition hex_byte :: "8 word \<Rightarrow> string" where
  "hex_byte b = (let d = (\<lambda>n. ''0123456789abcdef'' ! n) in [d (unat b div 16), d (unat b mod 16)])"

text \<open>The contents of the file, or \<open>None\<close> if it cannot be opened; \<open>ctx\<close> is what the stack holds.\<close>

definition ski_sha_file :: "8 word list option \<Rightarrow> SHA1_CTX \<Rightarrow> (string \<times> nat) res" where
  "ski_sha_file file ctx =
    (case file of
       None \<Rightarrow> Inr ([], 0)
     | Some bytes \<Rightarrow>
         bind_res (hash_loop bytes 0 (SHA1Init ctx)) (\<lambda>(total_bytes, ctx).
         bind_res (SHA1Final ctx) (\<lambda>(hash, _).
           Inr (concat (map hex_byte hash), total_bytes))))"

text \<open>What is recorded of an image (\<open>ski_init_kernel_*\<close> and \<open>ski_init_disk_*\<close>).\<close>

record image_info =
  img_filename :: string
  img_sha1 :: string
  img_size :: int

definition ski_hash_kernel :: "(string \<Rightarrow> 8 word list option) \<Rightarrow> SHA1_CTX \<Rightarrow> string option \<Rightarrow> image_info res" where
  "ski_hash_kernel fopen ctx kernel_filename =
    (case kernel_filename of
       Some name \<Rightarrow> bind_res (ski_sha_file (fopen name) ctx) (\<lambda>(sha1, n).
         Inr \<lparr>img_filename = name, img_sha1 = sha1, img_size = int n\<rparr>)
     | None \<Rightarrow> Inr \<lparr>img_filename = [], img_sha1 = [], img_size = -1\<rparr>)"

definition ski_hash_disk :: "(string \<Rightarrow> 8 word list option) \<Rightarrow> SHA1_CTX \<Rightarrow> string option \<Rightarrow> image_info res" where
  "ski_hash_disk fopen ctx disk_filename =
    (case disk_filename of
       Some name \<Rightarrow> bind_res (ski_sha_file (fopen name) ctx) (\<lambda>(sha1, n).
         Inr \<lparr>img_filename = name, img_sha1 = sha1, img_size = int n\<rparr>)
     | None \<Rightarrow> Inr \<lparr>img_filename = [], img_sha1 = [], img_size = -1\<rparr>)"

section \<open>The standard\<close>

text \<open>SHA-1 as in FIPS 180-4: the schedule of 80 words, the round function and the padding.\<close>

definition be32 :: "8 word \<Rightarrow> 8 word \<Rightarrow> 8 word \<Rightarrow> 8 word \<Rightarrow> 32 word" where
  "be32 b0 b1 b2 b3 = push_bit 24 (ucast b0) OR push_bit 16 (ucast b1) OR push_bit 8 (ucast b2) OR ucast b3"

fun extend :: "nat \<Rightarrow> 32 word list \<Rightarrow> 32 word list" where
  "extend 0 ws = ws"
| "extend (Suc n) ws =
    (let t = length ws
     in extend n (ws @ [word_rotl 1 (ws ! (t - 3) XOR ws ! (t - 8) XOR ws ! (t - 14) XOR ws ! (t - 16))]))"

definition first_words :: "8 word list \<Rightarrow> 32 word list" where
  "first_words bs = map (\<lambda>i. be32 (bs ! (4 * i)) (bs ! (4 * i + 1)) (bs ! (4 * i + 2)) (bs ! (4 * i + 3))) [0..<16]"

definition schedule :: "8 word list \<Rightarrow> 32 word list" where
  "schedule bs = extend 64 (first_words bs)"

definition std_f :: "nat \<Rightarrow> 32 word \<Rightarrow> 32 word \<Rightarrow> 32 word \<Rightarrow> 32 word" where
  "std_f t x y z =
    (if t < 20 then (x AND y) XOR (NOT x AND z)
     else if 40 \<le> t \<and> t < 60 then (x AND y) XOR (x AND z) XOR (y AND z)
     else x XOR y XOR z)"

definition std_K :: "nat \<Rightarrow> 32 word" where
  "std_K t = (if t < 20 then 0x5A827999 else if t < 40 then 0x6ED9EBA1 else if t < 60 then 0x8F1BBCDC else 0xCA62C1D6)"

type_synonym regs = "32 word \<times> 32 word \<times> 32 word \<times> 32 word \<times> 32 word"

fun std_round :: "32 word list \<Rightarrow> regs \<Rightarrow> nat \<Rightarrow> regs" where
  "std_round ws (a, b, c, d, e) t =
    (word_rotl 5 a + std_f t b c d + e + std_K t + ws ! t, a, word_rotl 30 b, c, d)"

definition compress :: "32 word list \<Rightarrow> 8 word list \<Rightarrow> 32 word list" where
  "compress h bs =
    (case foldl (std_round (schedule bs)) (h ! 0, h ! 1, h ! 2, h ! 3, h ! 4) [0..<80] of
       (a, b, c, d, e) \<Rightarrow> [h ! 0 + a, h ! 1 + b, h ! 2 + c, h ! 3 + d, h ! 4 + e])"

function hash_blocks :: "32 word list \<Rightarrow> 8 word list \<Rightarrow> 32 word list" where
  "hash_blocks h bs = (if length bs < 64 then h else hash_blocks (compress h (take 64 bs)) (drop 64 bs))"
  by pat_completeness auto
termination
  by (relation "measure (\<lambda>(h, bs). length bs)") auto

declare hash_blocks.simps [simp del]

definition be_bytes :: "nat \<Rightarrow> nat \<Rightarrow> 8 word list" where
  "be_bytes n v = map (\<lambda>i. of_nat (v div 256 ^ (n - 1 - i))) [0..<n]"

definition padding :: "nat \<Rightarrow> 8 word list" where
  "padding n = 0x80 # replicate ((119 - n mod 64) mod 64) 0 @ be_bytes 8 (8 * n)"

definition std_sha1 :: "8 word list \<Rightarrow> 8 word list" where
  "std_sha1 msg =
    concat (map (\<lambda>h. be_bytes 4 (unat h))
      (hash_blocks [0x67452301, 0xEFCDAB89, 0x98BADCFE, 0x10325476, 0xC3D2E1F0] (msg @ padding (length msg))))"

section \<open>The transformation implements the compression\<close>

lemma rol_rotl:
  assumes "0 < n" "n < 32"
  shows "rol x n = word_rotl n x"
proof (rule bit_eqI)
  fix k
  assume "possible_bit TYPE(32 word) k"
  then have k: "k < 32" by simp
  show "bit (rol x n) k \<longleftrightarrow> bit (word_rotl n x) k"
  proof (cases "n \<le> k")
    case True
    then have "(k + (32 - n)) mod 32 = k - n" using k assms by (simp add: mod_if)
    moreover have "\<not> bit x (32 - n + k)" using bit_imp_le_length[of x "32 - n + k"] True assms by auto
    ultimately show ?thesis using k True assms
      by (simp add: rol_def bit_or_iff bit_push_bit_iff bit_drop_bit_eq bit_word_rotl_iff)
  next
    case False
    then have "(k + (32 - n)) mod 32 = 32 - n + k" using k assms by simp
    then show ?thesis using k False assms
      by (simp add: rol_def bit_or_iff bit_push_bit_iff bit_drop_bit_eq bit_word_rotl_iff)
  qed
qed

lemma ch_eq: "(w AND (x XOR y)) XOR y = (w AND x) XOR (NOT w AND (y :: 32 word))"
  by (rule bit_eqI) (auto simp: bit_simps)

lemma maj_eq: "((w OR x) AND y) OR (w AND x) = (w AND x) XOR (w AND y) XOR (x AND (y :: 32 word))"
  by (rule bit_eqI) (auto simp: bit_simps)

lemma byte_bit: "8 \<le> n \<Longrightarrow> bit (b :: 8 word) n = False"
  using bit_imp_le_length[of b n] by auto

lemma swap_eq: "(rol (le32 b0 b1 b2 b3) 24 AND 0xFF00FF00) OR (rol (le32 b0 b1 b2 b3) 8 AND 0x00FF00FF) = be32 b0 b1 b2 b3"
proof (rule bit_eqI)
  fix k
  assume "possible_bit TYPE(32 word) k"
  then have "k < 32" by simp
  then have "k \<in> set [0..<32]" by simp
  then show "bit ((rol (le32 b0 b1 b2 b3) 24 AND 0xFF00FF00) OR (rol (le32 b0 b1 b2 b3) 8 AND 0x00FF00FF)) k \<longleftrightarrow>
      bit (be32 b0 b1 b2 b3) k"
    by (simp add: upt_rec, elim disjE; simp add: rol_def le32_def be32_def bit_simps byte_bit; simp add: numeral_eq_Suc)
qed

lemma length_extend [simp]: "length (extend n ws) = length ws + n"
  by (induction n arbitrary: ws) (simp_all add: Let_def)

lemma extend_prefix: "t < length ws \<Longrightarrow> extend n ws ! t = ws ! t"
  by (induction n arbitrary: ws) (simp_all add: Let_def nth_append)

lemma extend_nth:
  assumes "16 \<le> length ws" "length ws \<le> t" "t < length ws + n"
  shows "extend n ws ! t = word_rotl 1 (extend n ws ! (t - 3) XOR extend n ws ! (t - 8) XOR
    extend n ws ! (t - 14) XOR extend n ws ! (t - 16))"
  using assms
proof (induction n arbitrary: ws)
  case (Suc n)
  let ?t = "length ws"
  let ?ws = "ws @ [word_rotl 1 (ws ! (?t - 3) XOR ws ! (?t - 8) XOR ws ! (?t - 14) XOR ws ! (?t - 16))]"
  have e: "extend (Suc n) ws = extend n ?ws" by (simp add: Let_def)
  show ?case
  proof (cases "t = ?t")
    case True
    then show ?thesis unfolding e using Suc.prems(1) by (simp add: extend_prefix nth_append)
  next
    case False
    then show ?thesis unfolding e using Suc.IH[of ?ws] Suc.prems by simp
  qed
qed simp

lemma schedule_first: "t < 16 \<Longrightarrow> schedule bs ! t = first_words bs ! t"
  by (simp add: schedule_def extend_prefix first_words_def)

lemma schedule_next:
  assumes "16 \<le> t" "t < 80"
  shows "schedule bs ! t = word_rotl 1 (schedule bs ! (t - 3) XOR schedule bs ! (t - 8) XOR
    schedule bs ! (t - 14) XOR schedule bs ! (t - 16))"
  unfolding schedule_def by (rule extend_nth) (use assms in \<open>simp_all add: first_words_def\<close>)

text \<open>
  The circular schedule before round \<open>i\<close>: it holds the last sixteen words of the schedule, or
  the words of the block where none has been computed.
\<close>

definition circular :: "8 word list \<Rightarrow> nat \<Rightarrow> 32 word list \<Rightarrow> bool" where
  "circular bs i l \<longleftrightarrow> length l = 16 \<and> (\<forall>j<i. i \<le> j + 16 \<longrightarrow> l ! (j mod 16) = schedule bs ! j) \<and>
    (\<forall>k<16. i \<le> k \<longrightarrow> l ! k = block_words bs ! k)"

lemma circular_nth: "circular bs i l \<Longrightarrow> j < i \<Longrightarrow> i \<le> j + 16 \<Longrightarrow> l ! (j mod 16) = schedule bs ! j"
  by (simp add: circular_def)

lemma mod_16_window:
  assumes "j < i" "i < j + 16"
  shows "j mod 16 \<noteq> i mod (16 :: nat)"
proof
  assume "j mod 16 = i mod 16"
  then have "16 dvd i - j" using assms(1) by (metis less_imp_le_nat mod_eq_dvd_iff_nat)
  then show False using assms by (auto dest: dvd_imp_le)
qed

lemma circular_step:
  assumes "circular bs i l" "i < 80"
  shows "circular bs (Suc i) (if i < 16 then blk0 i l else blk i l)"
    "(if i < 16 then blk0 i l else blk i l) ! (i mod 16) = schedule bs ! i"
proof -
  let ?l = "if i < 16 then blk0 i l else blk i l"
  have len: "length l = 16" using assms(1) by (simp add: circular_def)
  have upd: "?l = l[i mod 16 := schedule bs ! i]"
  proof (cases "i < 16")
    case True
    then have "l ! i = block_words bs ! i" using assms(1) by (simp add: circular_def)
    then show ?thesis using True swap_eq by (simp add: blk0_def block_words_def schedule_first first_words_def)
  next
    case False
    have m: "(i + 13) mod 16 = (i - 3) mod 16" "(i + 8) mod 16 = (i - 8) mod 16" "(i + 2) mod 16 = (i - 14) mod 16"
      "i mod 16 = (i - 16) mod 16"
      using False by (simp_all add: mod_eq_dvd_iff_nat le_mod_geq)
    then show ?thesis using False assms circular_nth[OF assms(1)] schedule_next[of i bs]
      by (simp add: blk_def rol_rotl)
  qed
  show "?l ! (i mod 16) = schedule bs ! i" unfolding upd using len by simp
  show "circular bs (Suc i) ?l" unfolding upd circular_def
  proof (intro conjI allI impI)
    fix j
    assume j: "j < Suc i" "Suc i \<le> j + 16"
    show "l[i mod 16 := schedule bs ! i] ! (j mod 16) = schedule bs ! j"
    proof (cases "j = i")
      case False
      then show ?thesis using j mod_16_window[of j i] circular_nth[OF assms(1), of j] by simp
    qed (use len in simp)
  next
    fix k
    assume "k < 16" "Suc i \<le> k"
    then show "l[i mod 16 := schedule bs ! i] ! k = block_words bs ! k" using assms(1) by (simp add: circular_def)
  qed (use len in simp)
qed

text \<open>Before round \<open>i\<close> the registers of the standard are those of the code, rotated by \<open>i\<close> places.\<close>

fun rotated :: "nat \<Rightarrow> 32 word list \<Rightarrow> regs \<Rightarrow> bool" where
  "rotated i r (a, b, c, d, e) \<longleftrightarrow> length r = 5 \<and> r ! (4 * i mod 5) = a \<and> r ! ((4 * i + 1) mod 5) = b \<and>
    r ! ((4 * i + 2) mod 5) = c \<and> r ! ((4 * i + 3) mod 5) = d \<and> r ! ((4 * i + 4) mod 5) = e"

lemma macro_R_positions:
  assumes "length r = 5" "v < 5" "w < 5" "z < 5" "distinct [v, w, x, y, z]"
  shows "length (macro_R f q k v w z r) = 5" "macro_R f q k v w z r ! z = r ! z + (f + q + k + rol (r ! v) 5)"
    "macro_R f q k v w z r ! v = r ! v" "macro_R f q k v w z r ! w = rol (r ! w) 30"
    "macro_R f q k v w z r ! x = r ! x" "macro_R f q k v w z r ! y = r ! y"
  using assms by (auto simp: macro_R_def Let_def nth_list_update)

lemma rotated_step:
  assumes "rotated i r (a, b, c, d, e)"
  shows "rotated (Suc i) (macro_R f x k (4 * i mod 5) ((4 * i + 1) mod 5) ((4 * i + 4) mod 5) r)
    (e + (f + x + k + rol a 5), a, rol b 30, c, d)"
proof -
  have p: "4 * Suc i mod 5 = (4 * i + 4) mod 5" "(4 * Suc i + 1) mod 5 = 4 * i mod 5"
    "(4 * Suc i + 2) mod 5 = (4 * i + 1) mod 5" "(4 * Suc i + 3) mod 5 = (4 * i + 2) mod 5"
    "(4 * Suc i + 4) mod 5 = (4 * i + 3) mod 5"
    by (simp_all add: mod_eq_dvd_iff_nat)
  have d: "(4 * i + s) mod 5 \<noteq> (4 * i + t) mod 5" if "s < t" "t < 5" for s t :: nat
  proof
    assume "(4 * i + s) mod 5 = (4 * i + t) mod 5"
    then have "5 dvd t - s" using that(1) by (metis add_diff_cancel_left add_le_cancel_left less_imp_le_nat mod_eq_dvd_iff_nat)
    then show False using that by (auto dest: dvd_imp_le)
  qed
  have "distinct [4 * i mod 5, (4 * i + 1) mod 5, (4 * i + 2) mod 5, (4 * i + 3) mod 5, (4 * i + 4) mod 5]"
    using d[of 0 1] d[of 0 2] d[of 0 3] d[of 0 4] d[of 1 2] d[of 1 3] d[of 1 4] d[of 2 3] d[of 2 4] d[of 3 4] by simp
  from macro_R_positions[OF _ _ _ _ this, of r f x k] show ?thesis
    using assms unfolding rotated.simps p by simp
qed

lemma round_correct:
  assumes "circular bs i l" "i < 80" "rotated i r (a, b, c, d, e)" "sha_round (r, l) i = (r', l')"
  shows "circular bs (Suc i) l' \<and> rotated (Suc i) r' (std_round (schedule bs) (a, b, c, d, e) i)"
proof -
  let ?l = "if i < 16 then blk0 i l else blk i l"
  note c = circular_step[OF assms(1,2)]
  let ?f = "if i < 20 then (b AND (c XOR d)) XOR d
    else if 40 \<le> i \<and> i < 60 then ((b OR c) AND d) OR (b AND c) else b XOR c XOR d"
  have f: "?f = std_f i b c d" unfolding std_f_def ch_eq maj_eq by simp
  have "r' = macro_R ?f (?l ! (i mod 16)) (std_K i) (4 * i mod 5) ((4 * i + 1) mod 5) ((4 * i + 4) mod 5) r \<and> l' = ?l"
    using assms(3,4) by (auto simp: sha_round_def Let_def std_K_def split: if_splits)
  then have r: "r' = macro_R (std_f i b c d) (schedule bs ! i) (std_K i) (4 * i mod 5) ((4 * i + 1) mod 5) ((4 * i + 4) mod 5) r"
    and l: "l' = ?l"
    unfolding f c(2) by simp_all
  have "std_round (schedule bs) (a, b, c, d, e) i = (e + (std_f i b c d + schedule bs ! i + std_K i + rol a 5), a, rol b 30, c, d)"
    by (simp add: rol_rotl algebra_simps)
  then show ?thesis using rotated_step[OF assms(3)] c(1) unfolding r l by simp
qed

lemma rounds_correct:
  assumes "n \<le> 80" "length h = 5"
  shows "\<exists>r l. foldl sha_round (h, block_words bs) [0..<n] = (r, l) \<and> circular bs n l \<and>
    rotated n r (foldl (std_round (schedule bs)) (h ! 0, h ! 1, h ! 2, h ! 3, h ! 4) [0..<n])"
  using assms(1)
proof (induction n)
  case 0
  have "circular bs 0 (block_words bs)" by (simp add: circular_def block_words_def)
  then show ?case using assms(2) by (simp add: numeral_2_eq_2)
next
  case (Suc n)
  then obtain r l where IH: "foldl sha_round (h, block_words bs) [0..<n] = (r, l)" "circular bs n l"
    "rotated n r (foldl (std_round (schedule bs)) (h ! 0, h ! 1, h ! 2, h ! 3, h ! 4) [0..<n])" by auto
  obtain a b c d e where t: "foldl (std_round (schedule bs)) (h ! 0, h ! 1, h ! 2, h ! 3, h ! 4) [0..<n] = (a, b, c, d, e)"
    by (metis prod.exhaust)
  obtain r' l' where s: "sha_round (r, l) n = (r', l')" by force
  show ?case using round_correct[OF IH(2) _ _ s, of a b c d e] IH(1,3) t s Suc.prems by auto
qed

lemma length_5: "length h = 5 \<Longrightarrow> map ((!) h) [0..<5] = h"
  by (metis map_nth)

lemma transform_compress:
  assumes "length h = 5"
  shows "SHA1Transform h bs = compress h bs"
proof -
  obtain r l where r: "foldl sha_round (h, block_words bs) [0..<80] = (r, l)"
    "rotated 80 r (foldl (std_round (schedule bs)) (h ! 0, h ! 1, h ! 2, h ! 3, h ! 4) [0..<80])"
    using rounds_correct[of 80 h bs] assms by auto
  obtain a b c d e where t: "foldl (std_round (schedule bs)) (h ! 0, h ! 1, h ! 2, h ! 3, h ! 4) [0..<80] = (a, b, c, d, e)"
    by (metis prod.exhaust)
  have "[0..<5] = [0, 1, 2, 3, 4 :: nat]" by (simp add: upt_rec)
  then show ?thesis using r t length_5[OF assms]
    by (simp add: SHA1Transform_def compress_def)
qed

lemma length_compress [simp]: "length (compress h bs) = 5"
  by (simp add: compress_def split: prod.splits)

section \<open>Chunks\<close>

lemma hash_blocks_short [simp]: "length bs < 64 \<Longrightarrow> hash_blocks h bs = h"
  by (subst hash_blocks.simps) simp

lemma hash_blocks_long: "64 \<le> length bs \<Longrightarrow> hash_blocks h bs = hash_blocks (compress h (take 64 bs)) (drop 64 bs)"
  by (subst hash_blocks.simps) simp

lemma hash_blocks_append: "64 dvd length xs \<Longrightarrow> hash_blocks h (xs @ ys) = hash_blocks (hash_blocks h xs) ys"
proof (induction h xs rule: hash_blocks.induct)
  case (1 h xs)
  show ?case
  proof (cases "length xs < 64")
    case True
    then have "xs = []" using 1(2) by (auto dest: dvd_imp_le)
    then show ?thesis by simp
  next
    case False
    then have "64 dvd length (drop 64 xs)" using 1(2) by (simp add: dvd_diff_nat)
    then have "hash_blocks (compress h (take 64 xs)) (drop 64 xs @ ys) =
        hash_blocks (hash_blocks (compress h (take 64 xs)) (drop 64 xs)) ys"
      using 1(1) False by blast
    then show ?thesis using False by (simp add: hash_blocks_long)
  qed
qed

lemma length_hash_blocks [simp]: "length h = 5 \<Longrightarrow> length (hash_blocks h bs) = 5"
  by (induction h bs rule: hash_blocks.induct) (subst hash_blocks.simps, simp)

text \<open>The context after the bytes \<open>msg\<close>.\<close>

definition H0 :: "32 word list" where
  "H0 = [0x67452301, 0xEFCDAB89, 0x98BADCFE, 0x10325476, 0xC3D2E1F0]"

definition tail :: "8 word list \<Rightarrow> 8 word list" where
  "tail msg = drop (length msg div 64 * 64) msg"

definition counted :: "SHA1_CTX \<Rightarrow> nat \<Rightarrow> bool" where
  "counted c n \<longleftrightarrow> unat (sha_count1 c) * 2 ^ 32 + unat (sha_count0 c) = 8 * n mod 2 ^ 64"

definition after :: "SHA1_CTX \<Rightarrow> 8 word list \<Rightarrow> bool" where
  "after c msg \<longleftrightarrow> sha_state c = hash_blocks H0 msg \<and> length (sha_buffer c) = 64 \<and>
    take (length msg mod 64) (sha_buffer c) = tail msg \<and> counted c (length msg)"

lemma length_tail [simp]: "length (tail msg) = length msg mod 64"
  by (simp add: tail_def minus_div_mult_eq_mod)

lemma split_tail: "msg = take (length msg div 64 * 64) msg @ tail msg"
  by (simp add: tail_def)

lemma full_part: "64 dvd length (take (length msg div 64 * 64) msg)"
  by (simp add: min.absorb2)

lemma hash_blocks_tail: "hash_blocks h (msg @ ys) = hash_blocks (hash_blocks h msg) (tail msg @ ys)"
proof -
  let ?f = "take (length msg div 64 * 64) msg"
  have d: "64 dvd length ?f" by (rule full_part)
  have "hash_blocks h msg = hash_blocks (hash_blocks h ?f) (tail msg)"
    using hash_blocks_append[OF d, of h "tail msg"] split_tail[of msg] by simp
  then have "hash_blocks h msg = hash_blocks h ?f" by simp
  moreover have "hash_blocks h (msg @ ys) = hash_blocks (hash_blocks h ?f) (tail msg @ ys)"
    using hash_blocks_append[OF d, of h "tail msg @ ys"] split_tail[of msg] by (metis append.assoc)
  ultimately show ?thesis by simp
qed

lemma tail_full:
  assumes "64 dvd length xs"
  shows "tail (xs @ ys) = tail ys"
proof -
  obtain k where k: "length xs = 64 * k" using assms by blast
  then have "(length xs + length ys) div 64 * 64 = length xs + length ys div 64 * 64" by simp
  then show ?thesis by (simp add: tail_def)
qed

lemma tail_append: "tail (msg @ ys) = tail (tail msg @ ys)"
  using tail_full[OF full_part, of msg "tail msg @ ys"] split_tail[of msg] by (metis append.assoc)

text \<open>The count of bits in two words, with the carry.\<close>

lemma carry_arith:
  fixes A l M :: nat
  assumes "A < M" "l < M"
  shows "A + l = (if (A + l) mod M < A then 1 else 0) * M + (A + l) mod M"
proof (cases "A + l < M")
  case True
  then have "(A + l) mod M = A + l" by (rule mod_less)
  then show ?thesis by simp
next
  case False
  then have "(A + l) mod M = A + l - M" using assms by (simp add: le_mod_geq not_less)
  then show ?thesis using False assms by simp
qed

lemma count_arith:
  fixes A B L M :: nat
  assumes "A < M" "B < M" "0 < M"
  shows "(B + (if (A + L mod M) mod M < A then 1 else 0) + L div M) mod M * M + (A + L mod M) mod M =
    (B * M + A + L) mod (M * M)"
proof -
  let ?c = "if (A + L mod M) mod M < A then 1 else 0 :: nat"
  have "L mod M < M" using assms(3) by simp
  note carry = carry_arith[OF assms(1) this]
  have "B * M + A + L = B * M + (A + L mod M) + L div M * M" using div_mult_mod_eq[of L M] by linarith
  also have "\<dots> = B * M + (?c * M + (A + L mod M) mod M) + L div M * M" by (simp only: carry[symmetric])
  also have "\<dots> = (B + ?c + L div M) * M + (A + L mod M) mod M" by (simp only: distrib_right add.assoc add.commute add.left_commute)
  finally have s: "B * M + A + L = (B + ?c + L div M) * M + (A + L mod M) mod M" .
  have "(B * M + A + L) mod (M * M) = M * ((B * M + A + L) div M mod M) + (B * M + A + L) mod M"
    by (rule mod_mult2_eq)
  moreover have "(B * M + A + L) div M = B + ?c + L div M" "(B * M + A + L) mod M = (A + L mod M) mod M"
    unfolding s using assms(3) by simp_all
  ultimately show ?thesis by (simp add: mult.commute)
qed

lemma update_counted:
  assumes "counted c n" "length data < 2 ^ 32" "SHA1Update c data = Inr c'"
  shows "counted c' (n + length data)"
proof -
  let ?A = "unat (sha_count0 c)" and ?B = "unat (sha_count1 c)" and ?L = "8 * length data"
  let ?len = "of_nat (length data) :: 32 word"
  have len: "unat ?len = length data" using assms(2) by (simp add: unat_of_nat)
  have low: "unat (push_bit 3 ?len) = ?L mod 2 ^ 32"
    using len by (simp add: push_bit_eq_mult unat_word_ariths mult.commute)
  have high: "unat (drop_bit 29 ?len) = ?L div 2 ^ 32"
    using len div_mult2_eq[of ?L 8 "2 ^ 29"] by (simp add: drop_bit_eq_div unat_div)
  have c0: "sha_count0 c' = sha_count0 c + push_bit 3 ?len"
    and c1: "sha_count1 c' = sha_count1 c + (if sha_count0 c + push_bit 3 ?len < sha_count0 c then 1 else 0) + drop_bit 29 ?len"
    using assms(3) by (auto simp: SHA1Update_def Let_def bind_res_eq_Inr split: if_splits prod.splits)
  have A: "unat (sha_count0 c') = (?A + ?L mod 2 ^ 32) mod 2 ^ 32"
    unfolding c0 using low by (simp add: unat_word_ariths)
  have lt: "sha_count0 c + push_bit 3 ?len < sha_count0 c \<longleftrightarrow> (?A + ?L mod 2 ^ 32) mod 2 ^ 32 < ?A"
    using A c0 by (simp add: word_less_nat_alt)
  have B: "unat (sha_count1 c') = (?B + (if (?A + ?L mod 2 ^ 32) mod 2 ^ 32 < ?A then 1 else 0) + ?L div 2 ^ 32) mod 2 ^ 32"
    unfolding c1 lt using high by (simp add: unat_word_ariths mod_simps)
  have "unat (sha_count1 c') * 2 ^ 32 + unat (sha_count0 c') = (?B * 2 ^ 32 + ?A + ?L) mod (2 ^ 32 * 2 ^ 32)"
    unfolding A B by (rule count_arith) (use unsigned_less[of "sha_count0 c"] unsigned_less[of "sha_count1 c"] in simp_all)
  then show ?thesis using assms(1) by (simp add: counted_def mod_simps distrib_left)
qed

lemma counted_index:
  assumes "counted c n"
  shows "unat (drop_bit 3 (sha_count0 c) AND 63) = n mod 64"
proof -
  have "drop_bit 3 (sha_count0 c) AND 63 = take_bit 6 (drop_bit 3 (sha_count0 c))"
    using take_bit_eq_mask[of 6 "drop_bit 3 (sha_count0 c)"] by (simp add: mask_eq_exp_minus_1)
  then have "unat (drop_bit 3 (sha_count0 c) AND 63) = unat (sha_count0 c) div 8 mod 64"
    by (simp add: take_bit_eq_mod drop_bit_eq_div unat_div unat_mod)
  moreover have "unat (sha_count0 c) = 8 * n mod 2 ^ 64 mod 2 ^ 32"
  proof -
    have "(unat (sha_count1 c) * 2 ^ 32 + unat (sha_count0 c)) mod 2 ^ 32 = unat (sha_count0 c)"
    proof -
      have "unat (sha_count0 c) < 2 ^ LENGTH(32)" by (rule unsigned_less)
      then show ?thesis by simp
    qed
    then show ?thesis using assms by (simp only: counted_def)
  qed
  moreover have "8 * n mod 2 ^ 64 mod 2 ^ 32 = 8 * n mod (2 ^ 32 :: nat)" by (simp add: mod_mod_cancel)
  ultimately show ?thesis using byte_index_mod[of "8 * n"] by simp
qed

lemma update_blocks_spec:
  assumes "i \<le> length data" "length data < 2 ^ 32 - 64" "length st = 5"
  shows "update_blocks data i st = Inr (i + (length data - i) div 64 * 64, hash_blocks st (drop i data))"
  using assms
proof (induction data i st rule: update_blocks.induct)
  case (1 data i st)
  have m: "(i + 63) mod 2 ^ 32 = i + 63" using 1(2,3) by simp
  show ?case
  proof (cases "i + 63 < length data")
    case True
    have q: "(length data - i) div 64 = Suc ((length data - (i + 64)) div 64)"
      using True div_add_self2[of 64 "length data - (i + 64)"] by simp
    have "update_blocks data (i + 64) (SHA1Transform st (take 64 (drop i data))) =
        Inr (i + 64 + (length data - (i + 64)) div 64 * 64, hash_blocks (SHA1Transform st (take 64 (drop i data))) (drop (i + 64) data))"
      using 1(1) m True 1(3,4) by (simp add: transform_compress)
    then show ?thesis using True m q 1(4)
      by (subst update_blocks.simps) (simp add: transform_compress hash_blocks_long[of "drop i data"] add.commute)
  next
    case False
    then show ?thesis using m 1(2) by (subst update_blocks.simps) simp
  qed
qed

lemma update_after:
  assumes "after c msg" "length data < 2 ^ 32 - 64"
  shows "\<exists>c'. SHA1Update c data = Inr c' \<and> after c' (msg @ data)"
proof -
  let ?j = "length msg mod 64"
  have c: "sha_state c = hash_blocks H0 msg" "length (sha_buffer c) = 64" "take ?j (sha_buffer c) = tail msg"
    "counted c (length msg)"
    using assms(1) by (simp_all add: after_def)
  have h: "length (hash_blocks H0 msg) = 5" by (simp add: H0_def)
  have j: "unat (drop_bit 3 (sha_count0 c) AND 63) = ?j" by (rule counted_index[OF c(4)])
  have j64: "?j < 64" by simp
  have m: "(?j + length data) mod 2 ^ 32 = ?j + length data" using assms(2) j64 by (intro mod_less) linarith
  show ?thesis
  proof (cases "?j + length data > 63")
    case False
    have "\<exists>c'. SHA1Update c data = Inr c' \<and> sha_state c' = sha_state c \<and>
        sha_buffer c' = tail msg @ data @ drop (?j + length data) (sha_buffer c)"
      using False c(2,3) j m by (auto simp: SHA1Update_def Let_def memcpy_at_def)
    then obtain c' where c': "SHA1Update c data = Inr c'" "sha_state c' = hash_blocks H0 msg"
      "sha_buffer c' = tail msg @ data @ drop (?j + length data) (sha_buffer c)" using c(1) by auto
    have "(length msg + length data) mod 64 = (?j + length data) mod 64" by (simp add: mod_add_left_eq)
    then have "(length msg + length data) mod 64 = ?j + length data" using False by simp
    moreover have "tail (msg @ data) = tail msg @ data" using tail_append[of msg data] False by (simp add: tail_def[of "tail msg @ data"])
    moreover have "counted c' (length msg + length data)" using update_counted[OF c(4) _ c'(1)] assms(2) by simp
    ultimately show ?thesis using c' c(2) False hash_blocks_tail[of H0 msg data] by (auto simp: after_def)
  next
    case True
    let ?d1 = "take (64 - ?j) data" and ?rest = "drop (64 - ?j) data"
    define i where "i = 64 - ?j + (length data - (64 - ?j)) div 64 * 64"
    let ?buf = "tail msg @ ?d1"
    have buf: "length ?buf = 64" using True j64 by simp
    have blocks: "update_blocks data (64 - ?j) (SHA1Transform (hash_blocks H0 msg) ?buf) =
        Inr (i, hash_blocks (compress (hash_blocks H0 msg) ?buf) ?rest)"
      using update_blocks_spec[of "64 - ?j" data] True assms(2) transform_compress[OF h] by (simp add: i_def)
    have tl: "tail (msg @ data) = drop i data"
    proof -
      have "tail (msg @ data) = tail (?buf @ ?rest)" using tail_append[of msg data] by simp
      also have "\<dots> = tail ?rest" by (rule tail_full) (use buf in simp)
      finally show ?thesis by (simp add: tail_def i_def add.commute)
    qed
    have len: "length (drop i data) = (length msg + length data) mod 64" using length_tail[of "msg @ data"] unfolding tl by (simp only: length_append)
    have "\<exists>c'. SHA1Update c data = Inr c' \<and> sha_state c' = hash_blocks (compress (hash_blocks H0 msg) ?buf) ?rest \<and>
        sha_buffer c' = drop i data @ drop (length (drop i data)) ?buf"
    proof -
      have "memcpy_at (sha_buffer c) ?j ?d1 = Inr ?buf"
        using c(2,3) True j64 by (simp add: memcpy_at_def)
      moreover have "memcpy_at ?buf 0 (drop i data) = Inr (drop i data @ drop (length (drop i data)) ?buf)"
        unfolding memcpy_at_def using buf len by simp
      ultimately show ?thesis using True j m c(1) blocks
        by (simp add: SHA1Update_def Let_def)
    qed
    then obtain c' where c': "SHA1Update c data = Inr c'" "sha_state c' = hash_blocks (compress (hash_blocks H0 msg) ?buf) ?rest"
      "sha_buffer c' = drop i data @ drop (length (drop i data)) ?buf" by blast
    have "hash_blocks H0 (msg @ data) = hash_blocks (hash_blocks H0 msg) (?buf @ ?rest)"
      using hash_blocks_tail[of H0 msg data] by simp
    also have "\<dots> = hash_blocks (compress (hash_blocks H0 msg) ?buf) ?rest"
      using hash_blocks_long[of "?buf @ ?rest"] buf by simp
    finally have st: "hash_blocks H0 (msg @ data) = hash_blocks (compress (hash_blocks H0 msg) ?buf) ?rest" .
    have "length (drop i data) < 64" unfolding len by simp
    then have "length (drop i data @ drop (length (drop i data)) ?buf) = 64"
      unfolding length_append[of "drop i data"] length_drop[of _ ?buf] buf by linarith
    then have "length (sha_buffer c') = 64" by (simp only: c'(3))
    moreover have "take ((length msg + length data) mod 64) (sha_buffer c') = drop i data"
      unfolding c'(3) len[symmetric] by (simp only: take_append take_all_iff diff_self_eq_0 take_0 append_Nil2 order_refl)
    moreover have "counted c' (length msg + length data)" using update_counted[OF c(4) _ c'(1)] assms(2) by simp
    ultimately show ?thesis using c'(1,2) st tl by (simp add: after_def)
  qed
qed

section \<open>Padding and digest\<close>

lemma byte_of: "ucast (drop_bit k (w :: 32 word) AND 255) = (of_nat (unat w div 2 ^ k) :: 8 word)"
proof -
  have "drop_bit k w AND 255 = take_bit 8 (drop_bit k w)"
    using take_bit_eq_mask[of 8 "drop_bit k w"] by (simp add: mask_eq_exp_minus_1)
  moreover have "unat (drop_bit k w) = unat w div 2 ^ k"
    unfolding unat_drop_bit_eq by (rule drop_bit_eq_div)
  moreover have "unat (take_bit 8 y) = unat y mod 256" for y :: "32 word"
    unfolding unsigned_take_bit_eq by (simp add: take_bit_eq_mod)
  ultimately show ?thesis
    by (simp only: word_unat_eq_iff unat_of_nat unsigned_ucast_eq) (simp add: take_bit_eq_mod)
qed

lemma digit_mod: "(x mod (a * (b * c))) div a mod b = x div a mod (b :: nat)"
proof (cases "a = 0")
  case False
  have "x mod (a * (b * c)) div a = x div a mod (b * c)"
    using mod_mult2_eq[of x a "b * c"] False by simp
  then show ?thesis by (simp add: mod_mod_cancel)
qed simp

lemma word8_eqI: "x mod 256 = y mod 256 \<Longrightarrow> (of_nat x :: 8 word) = of_nat y"
  by (simp add: word_unat_eq_iff unat_of_nat)

lemma finalcount_bytes:
  assumes "counted c n"
  shows "finalcount_of c = be_bytes 8 (8 * n)"
proof (rule nth_equalityI)
  fix i
  assume "i < length (finalcount_of c)"
  then have i: "i < 8" by (simp add: finalcount_of_def)
  define V where "V = 8 * n mod 2 ^ 64"
  have lt: "unat (sha_count0 c) < 2 ^ LENGTH(32)" by (rule unsigned_less)
  have V: "V = unat (sha_count1 c) * 2 ^ 32 + unat (sha_count0 c)" using assms by (simp only: V_def counted_def)
  have c1: "unat (sha_count1 c) = V div 2 ^ 32" and c0: "unat (sha_count0 c) = V mod 2 ^ 32"
    unfolding V using lt by simp_all
  have f: "finalcount_of c ! i = of_nat (unat (if i \<ge> 4 then sha_count0 c else sha_count1 c) div 2 ^ ((3 - i mod 4) * 8))"
    using i by (simp add: finalcount_of_def byte_of)
  have g: "be_bytes 8 (8 * n) ! i = of_nat (8 * n div 256 ^ (7 - i))" using i by (simp add: be_bytes_def)
  have pow: "(256 :: nat) ^ k = 2 ^ (8 * k)" for k by (simp add: power_mult)
  show "finalcount_of c ! i = be_bytes 8 (8 * n) ! i"
  proof (cases "4 \<le> i")
    case True
    let ?k = "8 * (7 - i)"
    have k: "(3 - i mod 4) * 8 = ?k" using True i by (auto simp: mod_if)
    have "?k + (8 + (24 - ?k)) = 32" "?k + (8 + (56 - ?k)) = 64" using True i by auto
    then have p: "(2 :: nat) ^ ?k * (2 ^ 8 * 2 ^ (24 - ?k)) = 2 ^ 32" "(2 :: nat) ^ ?k * (2 ^ 8 * 2 ^ (56 - ?k)) = 2 ^ 64"
      by (simp_all only: power_add[symmetric])
    have "V mod 2 ^ 32 div 2 ^ ?k mod 2 ^ 8 = 8 * n div 2 ^ ?k mod 2 ^ 8"
      using digit_mod[of V "2 ^ ?k" "2 ^ 8" "2 ^ (24 - ?k)"] digit_mod[of "8 * n" "2 ^ ?k" "2 ^ 8" "2 ^ (56 - ?k)"]
      by (simp only: p V_def)
    then show ?thesis unfolding f g pow k using True c0 by (intro word8_eqI) simp
  next
    case False
    let ?k = "8 * (3 - i)"
    have k: "(3 - i mod 4) * 8 = ?k" "8 * (7 - i) = 32 + ?k" using False by auto
    have "32 + ?k + (8 + (24 - ?k)) = 64" using False by auto
    then have p: "(2 :: nat) ^ (32 + ?k) * (2 ^ 8 * 2 ^ (24 - ?k)) = 2 ^ 64" by (simp only: power_add[symmetric])
    have "V div 2 ^ 32 div 2 ^ ?k = V div 2 ^ (32 + ?k)" by (simp only: power_add div_mult2_eq)
    then have "V div 2 ^ 32 div 2 ^ ?k mod 2 ^ 8 = 8 * n div 2 ^ (32 + ?k) mod 2 ^ 8"
      using digit_mod[of "8 * n" "2 ^ (32 + ?k)" "2 ^ 8" "2 ^ (24 - ?k)"] by (simp only: p V_def)
    then show ?thesis unfolding f g pow k using False c1 by (intro word8_eqI) simp
  qed
qed (simp add: finalcount_of_def be_bytes_def)

lemma counted_pad:
  assumes "counted c n"
  shows "unat (sha_count0 c) div 8 mod 64 = n mod 64"
proof -
  have "drop_bit 3 (sha_count0 c) AND 63 = take_bit 6 (drop_bit 3 (sha_count0 c))"
    using take_bit_eq_mask[of 6 "drop_bit 3 (sha_count0 c)"] by (simp add: mask_eq_exp_minus_1)
  then have "unat (drop_bit 3 (sha_count0 c) AND 63) = unat (sha_count0 c) div 8 mod 64"
    by (simp add: take_bit_eq_mod drop_bit_eq_div unat_div unat_mod)
  then show ?thesis using counted_index[OF assms] by simp
qed

lemma pad_loop_after:
  assumes "after c msg"
  shows "\<exists>c'. pad_loop c = Inr c' \<and> after c' (msg @ replicate (pad_left (sha_count0 c)) 0)"
  using assms
proof (induction "pad_left (sha_count0 c)" arbitrary: c msg)
  case 0
  then have "\<not> sha_count0 c AND 504 \<noteq> 448" using pad_left_step[of "sha_count0 c"] by auto
  then show ?case using 0 by (subst pad_loop.simps) simp
next
  case (Suc k)
  obtain c1 where c1: "SHA1Update c [0] = Inr c1" "after c1 (msg @ [0])" using update_after[OF Suc.prems, of "[0]"] by auto
  have ne: "sha_count0 c AND 504 \<noteq> 448"
    using Suc.hyps(2) and_504[of "sha_count0 c"] by (auto simp: pad_left_def)
  have k: "k = pad_left (sha_count0 c1)"
    using pad_left_step[OF ne] update_count0[OF c1(1)] Suc.hyps(2) by (simp add: push_bit_eq_mult)
  obtain c2 where "pad_loop c1 = Inr c2" "after c2 ((msg @ [0]) @ replicate k 0)" using Suc.hyps(1)[OF k c1(2)] k by auto
  then show ?case using ne c1(1) Suc.hyps(2)[symmetric] by (subst pad_loop.simps) simp
qed

lemma pad_length: "(120 - Suc n mod 64) mod 64 = (119 - n mod 64) mod (64 :: nat)"
  and block_length: "64 dvd n + (1 + ((119 - n mod 64) mod 64 + 8))" for n :: nat
proof -
  define r where "r = n mod 64"
  have r: "r < 64" by (simp add: r_def)
  have s: "Suc n mod 64 = (if r = 63 then 0 else Suc r)" by (simp add: r_def mod_Suc)
  have m: "(119 - r) mod 64 = (if r \<le> 55 then 55 - r else 119 - r)" using r by (auto simp: mod_if)
  show "(120 - Suc n mod 64) mod 64 = (119 - n mod 64) mod 64" using r s unfolding r_def[symmetric] by auto
  have "(n + (1 + ((119 - r) mod 64 + 8))) mod 64 = (r + (1 + ((119 - r) mod 64 + 8))) mod 64"
    unfolding r_def by (rule mod_add_left_eq[symmetric])
  also have "\<dots> = 0" using m r by auto
  finally show "64 dvd n + (1 + ((119 - n mod 64) mod 64 + 8))" unfolding r_def by (rule mod_0_imp_dvd)
qed

lemma digest_bytes:
  assumes "length (st :: 32 word list) = 5"
  shows "map (\<lambda>i. ucast (drop_bit ((3 - i mod 4) * 8) (st ! (i div 4)) AND 255)) [0..<20] =
    concat (map (\<lambda>h. be_bytes 4 (unat h)) st)"
proof -
  obtain a b c d e where st: "st = [a, b, c, d, e]" using assms by (auto simp: length_Suc_conv numeral_eq_Suc)
  have "[0..<20] = [0, 1, 2, 3, 4, 5, 6, 7, 8, 9, 10, 11, 12, 13, 14, 15, 16, 17, 18, 19 :: nat]" by (simp add: upt_rec)
  moreover have "be_bytes 4 v = [of_nat (v div 2 ^ 24), of_nat (v div 2 ^ 16), of_nat (v div 2 ^ 8), of_nat v]" for v
    by (simp add: be_bytes_def upt_rec)
  ultimately show ?thesis unfolding st using byte_of[of 0] byte_of[of 8] byte_of[of 16] byte_of[of 24] by simp
qed

lemma final_after:
  assumes "after c msg"
  shows "\<exists>c'. SHA1Final c = Inr (std_sha1 msg, c')"
proof -
  let ?n = "length msg"
  have fc: "finalcount_of c = be_bytes 8 (8 * ?n)" using finalcount_bytes assms by (simp add: after_def)
  obtain c1 where c1: "SHA1Update c [0x80] = Inr c1" "after c1 (msg @ [0x80])" using update_after[OF assms, of "[0x80]"] by auto
  have p: "pad_left (sha_count0 c1) = (119 - ?n mod 64) mod 64"
    using counted_pad[of c1 "Suc ?n"] c1(2) pad_length[of ?n] by (simp add: after_def pad_left_def)
  let ?z = "replicate ((119 - ?n mod 64) mod 64) 0"
  obtain c2 where c2: "pad_loop c1 = Inr c2" "after c2 (msg @ 0x80 # ?z)" using pad_loop_after[OF c1(2)] p by auto
  obtain c3 where c3: "SHA1Update c2 (finalcount_of c) = Inr c3" "after c3 (msg @ padding ?n)"
    using update_after[OF c2(2), of "finalcount_of c"] fc by (auto simp: padding_def be_bytes_def)
  have "sha_state c3 = hash_blocks H0 (msg @ padding ?n)" using c3(2) by (simp add: after_def)
  moreover have "length (hash_blocks H0 (msg @ padding ?n)) = 5" by (simp add: H0_def)
  ultimately show ?thesis using c1(1) c2(1) c3(1) digest_bytes[of "sha_state c3"]
    by (simp add: SHA1Final_def Let_def std_sha1_def H0_def)
qed

lemma init_after: "length (sha_buffer ctx) = 64 \<Longrightarrow> after (SHA1Init ctx) []"
  by (simp add: after_def SHA1Init_def H0_def tail_def counted_def)

section \<open>The digest of a stream\<close>

lemma updates_after:
  "after c msg \<Longrightarrow> list_all (\<lambda>data. length data < 2 ^ 32 - 64) chunks \<Longrightarrow>
    \<exists>c'. fold_res SHA1Update c chunks = Inr c' \<and> after c' (msg @ concat chunks)"
proof (induction chunks arbitrary: c msg)
  case (Cons data chunks)
  then obtain c1 where c1: "SHA1Update c data = Inr c1" "after c1 (msg @ data)" using update_after[of c msg data] by auto
  then show ?case using Cons.IH[OF c1(2)] Cons.prems(2) by simp
qed simp

lemma hash_loop_after:
  "after c msg \<Longrightarrow> total_bytes \<le> SKI_HASH_READ_MAX \<Longrightarrow>
    \<exists>c'. hash_loop rest total_bytes c =
        Inr (total_bytes + min (length rest) (SKI_HASH_READ_MAX - total_bytes), c') \<and>
      after c' (msg @ take (SKI_HASH_READ_MAX - total_bytes) rest)"
proof (induction rest total_bytes c arbitrary: msg rule: hash_loop.induct)
  case (1 rest total_bytes ctx)
  define left where "left = SKI_HASH_READ_MAX - total_bytes"
  define buffer where "buffer = take (min SKI_HASH_BUFFER_SIZE left) rest"
  note unfold = hash_loop.simps[of rest total_bytes ctx, unfolded Let_def, folded left_def, folded buffer_def]
  show ?case
  proof (cases "buffer = []")
    case True
    then have "rest = [] \<or> left = 0" by (auto simp: buffer_def)
    then show ?thesis using unfold True 1(2) unfolding left_def[symmetric] by auto
  next
    case False
    have len: "length buffer \<le> left" "length buffer < 2 ^ 32 - 64" by (simp_all add: buffer_def)
    have split: "buffer = take (length buffer) rest" unfolding buffer_def by (cases "length rest \<le> min SKI_HASH_BUFFER_SIZE left") (simp_all add: min_def)
    obtain c1 where c1: "SHA1Update ctx buffer = Inr c1" "after c1 (msg @ buffer)"
      using update_after[OF 1(2) len(2)] by auto
    have left': "SKI_HASH_READ_MAX - (total_bytes + length buffer) = left - length buffer" by (simp add: left_def)
    have "total_bytes + length buffer \<le> SKI_HASH_READ_MAX" using len(1) 1(3) unfolding left_def by linarith
    then obtain c' where c': "hash_loop (drop (length buffer) rest) (total_bytes + length buffer) c1 =
        Inr (total_bytes + length buffer + min (length rest - length buffer) (left - length buffer), c')"
      "after c' ((msg @ buffer) @ take (left - length buffer) (drop (length buffer) rest))"
      using 1(1)[OF refl False[unfolded buffer_def left_def], of c1 "msg @ buffer"] c1 
      unfolding left' buffer_def[symmetric] left_def[symmetric] by auto
    have "buffer @ take (left - length buffer) (drop (length buffer) rest) = take left rest"
      using len(1) by (subst split) (simp add: take_add[symmetric])
    moreover have "length buffer \<le> length rest" by (simp add: buffer_def)
    ultimately show ?thesis using unfold False c1(1) c' len(1) unfolding left_def[symmetric] by (simp add: min_diff)
  qed
qed

text \<open>
  C19: the digest does not depend on how a message is cut.  When the context is initialised,
  updated with any chunks (each below 2^32 - 64 bytes, so that the 32-bit position does not wrap)
  and finished, every step succeeds, inside the 64-byte buffer, and the twenty bytes are SHA-1 of
  the concatenated chunks as FIPS 180-4 defines it: the circular schedule of sixteen words, the
  rotating registers, the carry of the bit count and the padding one byte at a time implement the
  schedule of eighty words, the five-register step and the padding of the standard.
\<close>

theorem sha1_streaming:
  assumes "length (sha_buffer ctx) = 64" "list_all (\<lambda>data. length data < 2 ^ 32 - 64) chunks"
  shows "\<exists>c'. bind_res (fold_res SHA1Update (SHA1Init ctx) chunks) SHA1Final =
    Inr (std_sha1 (concat chunks), c')"
proof -
  obtain c1 where c1: "fold_res SHA1Update (SHA1Init ctx) chunks = Inr c1" "after c1 (concat chunks)"
    using updates_after[OF init_after[OF assms(1)] assms(2)] by auto
  then show ?thesis using final_after[OF c1(2)] by simp
qed

theorem sha1_streaming_witness:
  "\<exists>c'. bind_res (fold_res SHA1Update
      (SHA1Init \<lparr>sha_state = [], sha_count0 = 1, sha_count1 = 2, sha_buffer = replicate 64 7\<rparr>)
      [[0x61], [], [0x62, 0x63]]) SHA1Final =
    Inr (std_sha1 [0x61, 0x62, 0x63], c')"
  using sha1_streaming[of "\<lparr>sha_state = [], sha_count0 = 1, sha_count1 = 2, sha_buffer = replicate 64 7\<rparr>"
    "[[0x61], [], [0x62, 0x63]]"] by simp

text \<open>
  The digest of a file is that of its first 50,000,000 bytes, whatever the reads of 20 MiB cut.
\<close>

lemma ski_sha_file_exact:
  assumes "length (sha_buffer ctx) = 64"
  shows "ski_sha_file (Some bytes) ctx =
    Inr (concat (map hex_byte (std_sha1 (take SKI_HASH_READ_MAX bytes))), min (length bytes) SKI_HASH_READ_MAX)"
proof -
  obtain c1 where c1: "hash_loop bytes 0 (SHA1Init ctx) = Inr (min (length bytes) SKI_HASH_READ_MAX, c1)"
      "after c1 (take SKI_HASH_READ_MAX bytes)"
    using hash_loop_after[OF init_after[OF assms], of 0 bytes] by auto
  then show ?thesis using final_after[OF c1(2)] by (auto simp: ski_sha_file_def)
qed

text \<open>
  Two images that agree in their first 50,000,000 bytes have the same recorded digest: what lies
  behind is not covered, although the recorded digest is that of "the disk".
\<close>

lemma hash_disk_prefix:
  assumes "length (sha_buffer ctx) = 64" "fopen name = Some a" "fopen' name = Some b"
    "take SKI_HASH_READ_MAX a = take SKI_HASH_READ_MAX b"
  shows "ski_hash_disk fopen ctx (Some name) = ski_hash_disk fopen' ctx (Some name)"
proof -
  have "min (length a) SKI_HASH_READ_MAX = min (length b) SKI_HASH_READ_MAX" using assms(4) by (metis length_take)
  then show ?thesis using assms by (simp add: ski_hash_disk_def ski_sha_file_exact)
qed

end
