(* ===== verification/Ski_Coop.thy ===== *)
theory Ski_Coop
  imports Ski_Prelude
begin

text \<open>
  Forking a process with several threads (\<open>vmm/forkall-coop.c\<close>).  \<open>fork\<close> copies only the thread
  that calls it.  So the other threads run \<open>ski_forkall_slave\<close> from time to time; once the master
  has requested a fork, they save their stack and registers in a table and stop, and the master
  forks when all of them have done so.  In the child the master creates a thread for every entry
  of the table, at the same stack, and these threads restore the saved stack and registers.

  The threads interleave: every thread has a position in the code of \<open>ski_forkall_slave\<close> or
  \<open>ski_forkall_thread_restore\<close>, and the definitions below are the actions between two positions.
  The contents of a stack and a set of registers are type parameters; a stack is what the thread
  has on it outside of these two functions, 0 is a fresh mapping.  The identifiers that the
  operating system gives to threads are arguments.  Log messages are left out, and so is
  \<open>ski_forkall_patch_thread_references\<close>, which is never called.
\<close>

section \<open>State\<close>

record ('s, 'e) forkall_thread =
  ft_tid_original :: int
  ft_tid_restore :: int
  ft_thread_original :: nat
  ft_thread_restore :: nat
  ft_forkall_env :: "'e option"
  ft_stack :: 's
  ft_thread_seq :: nat
  ft_stack_min :: int
  ft_stack_max :: int

datatype thread_pc =
    Outside                \<comment> \<open>not in one of the two functions\<close>
  | At_setjmp nat          \<comment> \<open>its stack is saved, in the entry that it has found\<close>
  | At_count               \<comment> \<open>its registers are saved\<close>
  | Hanging                \<comment> \<open>in the endless loop\<close>
  | At_restore             \<comment> \<open>created by the master of the child\<close>
  | At_longjmp             \<comment> \<open>on the temporary stack, its own stack is restored\<close>
  | Returned bool bool     \<comment> \<open>back from \<open>ski_forkall_slave\<close>, with \<open>did_fork\<close> and \<open>is_child\<close>\<close>
  | Absent                 \<comment> \<open>does not exist in this process\<close>

record ('s, 'e) run_thread =
  rt_pc :: thread_pc
  rt_tid :: int
  rt_stack :: 's
  rt_regs :: 'e

text \<open>
  The list \<open>co_threads\<close> holds the first \<open>thread_count\<close> entries of \<open>forkall_threads\<close>; the thread of
  entry \<open>i\<close> is element \<open>i\<close> of \<open>co_run\<close>.
\<close>

record ('s, 'e) coop =
  co_threads :: "('s, 'e) forkall_thread list"
  co_run :: "('s, 'e) run_thread list"
  co_forking :: bool
  co_threads_done :: int
  co_is_child :: bool
  co_simulate_child :: bool

abbreviation (input) FORKALL_THREAD_STACK_BEGIN :: int where "FORKALL_THREAD_STACK_BEGIN \<equiv> 0x5f06a0000000"
abbreviation (input) FORKALL_THREAD_STACK_SIZE :: int where "FORKALL_THREAD_STACK_SIZE \<equiv> 0x20000"
abbreviation (input) FORKALL_THREAD_STACK_DISTANCE :: int where "FORKALL_THREAD_STACK_DISTANCE \<equiv> 0x21000"
abbreviation (input) FORKALL_MAX_THREADS :: nat where "FORKALL_MAX_THREADS \<equiv> 10"

definition upd_thread :: "nat \<Rightarrow> (('s, 'e) forkall_thread \<Rightarrow> ('s, 'e) forkall_thread) \<Rightarrow> ('s, 'e) coop \<Rightarrow> ('s, 'e) coop" where
  "upd_thread i f st = st\<lparr>co_threads := (co_threads st)[i := f (co_threads st ! i)]\<rparr>"

definition upd_run :: "nat \<Rightarrow> (('s, 'e) run_thread \<Rightarrow> ('s, 'e) run_thread) \<Rightarrow> ('s, 'e) coop \<Rightarrow> ('s, 'e) coop" where
  "upd_run i f st = st\<lparr>co_run := (co_run st)[i := f (co_run st ! i)]\<rparr>"

abbreviation thread_at :: "('s, 'e) coop \<Rightarrow> nat \<Rightarrow> ('s, 'e) forkall_thread" where "thread_at st i \<equiv> co_threads st ! i"
abbreviation run_at :: "('s, 'e) coop \<Rightarrow> nat \<Rightarrow> ('s, 'e) run_thread" where "run_at st i \<equiv> co_run st ! i"
abbreviation thread_count :: "('s, 'e) coop \<Rightarrow> nat" where "thread_count st \<equiv> length (co_threads st)"

definition ski_forkall_initialize :: "('s, 'e) coop \<Rightarrow> ('s, 'e) coop" where
  "ski_forkall_initialize st = st\<lparr>co_forking := False\<rparr>"

section \<open>Creation and registration of threads\<close>

definition ski_forkall_thread_new :: "('s :: zero, 'e) coop \<Rightarrow> (('s, 'e) coop \<times> nat) res" where
  "ski_forkall_thread_new st =
    (let thread_seq = thread_count st;
         stack_min = FORKALL_THREAD_STACK_BEGIN + int thread_seq * FORKALL_THREAD_STACK_DISTANCE
     in bind_res (c_assert (thread_seq + 1 < FORKALL_MAX_THREADS)) (\<lambda>_.
        Inr (st\<lparr>co_threads := co_threads st @
               [\<lparr>ft_tid_original = -1, ft_tid_restore = -1, ft_thread_original = 0, ft_thread_restore = 0,
                 ft_forkall_env = None, ft_stack = 0, ft_thread_seq = thread_seq,
                 ft_stack_min = stack_min, ft_stack_max = stack_min + FORKALL_THREAD_STACK_SIZE\<rparr>]\<rparr>, thread_seq)))"

text \<open>
  The stack is mapped at its fixed address, where it replaces an earlier mapping, and the thread
  starts on it with the registers \<open>regs\<close>; the calls of the operating system succeed.
\<close>

definition ski_create_thread_custom_stack :: "nat \<Rightarrow> thread_pc \<Rightarrow> int \<Rightarrow> 'e \<Rightarrow> ('s :: zero, 'e) coop \<Rightarrow> ('s, 'e) coop" where
  "ski_create_thread_custom_stack seq start tid regs st =
    (let th = \<lparr>rt_pc = start, rt_tid = tid, rt_stack = 0, rt_regs = regs\<rparr>
     in if seq < length (co_run st) then st\<lparr>co_run := (co_run st)[seq := th]\<rparr>
        else st\<lparr>co_run := co_run st @ [th]\<rparr>)"

definition ski_forkall_pthread_create :: "nat \<Rightarrow> int \<Rightarrow> 'e \<Rightarrow> ('s :: zero, 'e) coop \<Rightarrow> ('s, 'e) coop res" where
  "ski_forkall_pthread_create thread tid regs st =
    bind_res (ski_forkall_thread_new st) (\<lambda>(st, t).
      Inr (upd_thread t (\<lambda>ft. ft\<lparr>ft_thread_original := thread\<rparr>)
        (ski_create_thread_custom_stack t Outside tid regs st)))"

text \<open>\<open>dummy\<close> is the address of a variable on the stack of the calling thread.\<close>

definition ski_forkall_thread_add_self_tid :: "int \<Rightarrow> int \<Rightarrow> ('s, 'e) coop \<Rightarrow> ('s, 'e) coop res" where
  "ski_forkall_thread_add_self_tid dummy tid st =
    (case index_from (\<lambda>t. dummy > ft_stack_min t \<and> dummy < ft_stack_max t) 0 (co_threads st) of
       Some i \<Rightarrow> Inr (upd_thread i (\<lambda>t. t\<lparr>ft_tid_original := tid\<rparr>) st)
     | None \<Rightarrow> Inl Assert_failed)"

definition ski_thread_find :: "int \<Rightarrow> ('s, 'e) coop \<Rightarrow> nat option" where
  "ski_thread_find tid st = index_from (\<lambda>t. ft_tid_original t = tid) 0 (co_threads st)"

text \<open>The destination of a signal.\<close>

datatype signal_target = To_thread nat | To_tid int

definition ski_forkall_pthread_kill :: "nat \<Rightarrow> ('s, 'e) coop \<Rightarrow> signal_target res" where
  "ski_forkall_pthread_kill thread st =
    (if \<not> co_is_child st then Inr (To_thread thread)
     else case index_from (\<lambda>t. ft_thread_original t = thread) 0 (co_threads st) of
            Some i \<Rightarrow> bind_res (c_assert (ft_tid_restore (thread_at st i) \<noteq> 0)) (\<lambda>_.
              Inr (To_tid (ft_tid_restore (thread_at st i))))
          | None \<Rightarrow> Inl Assert_failed)"

section \<open>The actions of a thread\<close>

text \<open>\<open>ski_forkall_slave\<close> up to the copy of the stack; \<open>did_fork\<close> is 0 if there is no request.\<close>

definition slave_enter :: "('s, 'e) coop \<Rightarrow> nat \<Rightarrow> ('s, 'e) coop res" where
  "slave_enter st i =
    (if \<not> co_forking st \<or> co_simulate_child st then Inr st
     else case ski_thread_find (rt_tid (run_at st i)) st of
            None \<Rightarrow> Inl Assert_failed
          | Some t \<Rightarrow>
              Inr (upd_run i (\<lambda>th. th\<lparr>rt_pc := At_setjmp t\<rparr>)
                (upd_thread t (\<lambda>ft. ft\<lparr>ft_stack := rt_stack (run_at st t)\<rparr>) st)))"

text \<open>\<open>setjmp\<close>, which returns 0 here, and the test behind it.\<close>

definition slave_setjmp :: "nat \<Rightarrow> ('s, 'e) coop \<Rightarrow> nat \<Rightarrow> ('s, 'e) coop" where
  "slave_setjmp t st i =
    upd_run i (\<lambda>th. th\<lparr>rt_pc := if \<not> co_forking st then Returned True True else At_count\<rparr>)
      (upd_thread t (\<lambda>ft. ft\<lparr>ft_forkall_env := Some (rt_regs (run_at st i))\<rparr>) st)"

definition slave_count :: "('s, 'e) coop \<Rightarrow> nat \<Rightarrow> ('s, 'e) coop" where
  "slave_count st i =
    upd_run i (\<lambda>th. th\<lparr>rt_pc := Hanging\<rparr>) (st\<lparr>co_threads_done := co_threads_done st + 1\<rparr>)"

definition slave_hang :: "('s, 'e) coop \<Rightarrow> nat \<Rightarrow> ('s, 'e) coop" where
  "slave_hang st i = (if co_simulate_child st then upd_run i (\<lambda>th. th\<lparr>rt_pc := Returned True True\<rparr>) st else st)"

text \<open>A thread of the child: its stack is restored while it runs on the temporary one.\<close>

definition ski_forkall_thread_restore :: "('s, 'e) coop \<Rightarrow> nat \<Rightarrow> ('s, 'e) coop" where
  "ski_forkall_thread_restore st i =
    upd_run i (\<lambda>th. th\<lparr>rt_pc := At_longjmp, rt_stack := ft_stack (thread_at st i)\<rparr>)
      (upd_thread i (\<lambda>ft. ft\<lparr>ft_tid_restore := rt_tid (run_at st i)\<rparr>) st)"

text \<open>\<open>longjmp\<close> goes back to the call of \<open>setjmp\<close>, which now returns 1.\<close>

definition ski_forkall_thread_restore_registers :: "('s, 'e) coop \<Rightarrow> nat \<Rightarrow> ('s, 'e) coop res" where
  "ski_forkall_thread_restore_registers st i =
    bind_res (null_check (ft_forkall_env (thread_at st i))) (\<lambda>env.
      Inr (upd_run i (\<lambda>th. th\<lparr>rt_pc := Returned True True, rt_regs := env\<rparr>) st))"

text \<open>The next action of thread \<open>i\<close> in the two functions.\<close>

definition thread_step :: "('s, 'e) coop \<Rightarrow> nat \<Rightarrow> ('s, 'e) coop res" where
  "thread_step st i =
    (case rt_pc (run_at st i) of
       Outside \<Rightarrow> slave_enter st i
     | At_setjmp t \<Rightarrow> Inr (slave_setjmp t st i)
     | At_count \<Rightarrow> Inr (slave_count st i)
     | Hanging \<Rightarrow> Inr (slave_hang st i)
     | At_restore \<Rightarrow> Inr (ski_forkall_thread_restore st i)
     | At_longjmp \<Rightarrow> ski_forkall_thread_restore_registers st i
     | _ \<Rightarrow> Inr st)"

section \<open>The actions of the master\<close>

definition master_request :: "('s, 'e) coop \<Rightarrow> ('s, 'e) coop" where
  "master_request st = st\<lparr>co_forking := True\<rparr>"

text \<open>One turn of the waiting loop: whether the master goes on to the fork.\<close>

definition master_poll :: "('s, 'e) coop \<Rightarrow> bool" where
  "master_poll st \<longleftrightarrow> co_threads_done st = int (thread_count st)"

text \<open>The child has the memory of the parent and none of its other threads.\<close>

definition fork_child :: "('s, 'e) coop \<Rightarrow> ('s, 'e) coop" where
  "fork_child st =
    st\<lparr>co_run := map (\<lambda>th. th\<lparr>rt_pc := Absent\<rparr>) (co_run st), co_forking := False, co_is_child := True\<rparr>"

text \<open>The body of the loop that recreates the threads.\<close>

definition restore_thread :: "nat \<Rightarrow> nat \<Rightarrow> int \<Rightarrow> 'e \<Rightarrow> ('s :: zero, 'e) coop \<Rightarrow> ('s, 'e) coop" where
  "restore_thread i thread tid regs st =
    upd_thread i (\<lambda>ft. ft\<lparr>ft_thread_restore := thread\<rparr>)
      (ski_create_thread_custom_stack (ft_thread_seq (thread_at st i)) At_restore tid regs st)"

text \<open>The loop, when no thread runs in between; \<open>ids\<close> are the threads that the system creates.\<close>

definition restore_threads :: "(nat \<times> int \<times> 'e) list \<Rightarrow> ('s :: zero, 'e) coop \<Rightarrow> ('s, 'e) coop" where
  "restore_threads ids st =
    foldl (\<lambda>st i. case ids ! i of (thread, tid, regs) \<Rightarrow> restore_thread i thread tid regs st) st [0..<thread_count st]"

section \<open>Interleavings\<close>

text \<open>
  The steps of the parent: threads are created and registered, work on their own stack and
  registers, and call \<open>ski_forkall_slave\<close>; the master requests a fork.  The operating system
  gives identifiers that are not in use.
\<close>

inductive coop_step :: "('s :: zero, 'e) coop \<Rightarrow> ('s, 'e) coop \<Rightarrow> bool" where
  create: "0 < tid \<Longrightarrow> tid \<notin> rt_tid ` set (co_run st) \<Longrightarrow> thread \<notin> ft_thread_original ` set (co_threads st) \<Longrightarrow>
    ski_forkall_pthread_create thread tid regs st = Inr st' \<Longrightarrow> coop_step st st'"
| register: "i < thread_count st \<Longrightarrow> rt_pc (run_at st i) = Outside \<Longrightarrow>
    ft_stack_min (thread_at st i) < dummy \<Longrightarrow> dummy < ft_stack_max (thread_at st i) \<Longrightarrow>
    ski_forkall_thread_add_self_tid dummy (rt_tid (run_at st i)) st = Inr st' \<Longrightarrow> coop_step st st'"
| work: "i < thread_count st \<Longrightarrow> rt_pc (run_at st i) = Outside \<Longrightarrow>
    coop_step st (upd_run i (\<lambda>th. th\<lparr>rt_stack := s, rt_regs := r\<rparr>) st)"
| thread: "i < thread_count st \<Longrightarrow> thread_step st i = Inr st' \<Longrightarrow> coop_step st st'"
| request: "coop_step st (master_request st)"

text \<open>The child after \<open>k\<close> turns of its loop, interleaved with the threads that it has created.\<close>

inductive child_run :: "('s :: zero, 'e) coop \<Rightarrow> nat \<Rightarrow> ('s, 'e) coop \<Rightarrow> bool" where
  fork: "child_run st 0 (fork_child st)"
| restore: "child_run st k st1 \<Longrightarrow> k < thread_count st1 \<Longrightarrow> 0 < tid \<Longrightarrow>
    child_run st (Suc k) (restore_thread k thread tid regs st1)"
| thread: "child_run st k st1 \<Longrightarrow> i < k \<Longrightarrow> \<forall>d c. rt_pc (run_at st1 i) \<noteq> Returned d c \<Longrightarrow>
    thread_step st1 i = Inr st2 \<Longrightarrow> child_run st k st2"

definition no_threads :: "('s, 'e) coop" where
  "no_threads = \<lparr>co_threads = [], co_run = [], co_forking = False, co_threads_done = 0, co_is_child = False, co_simulate_child = False\<rparr>"

section \<open>Saved states\<close>

lemma length_filter_update:
  "i < length xs \<Longrightarrow> length (filter P (xs[i := y])) + (if P (xs ! i) then 1 else 0) =
    length (filter P xs) + (if P y then 1 else 0)"
proof (induction xs arbitrary: i)
  case (Cons x xs)
  then show ?case by (cases i) (auto split: if_splits)
qed simp

lemma length_filter_all: "length (filter P xs) = length xs \<longleftrightarrow> (\<forall>x\<in>set xs. P x)"
proof (induction xs)
  case (Cons x xs)
  have "length (filter P xs) \<noteq> Suc (length xs)" using length_filter_le[of P xs] by linarith
  with Cons show ?case by simp
qed simp

text \<open>
  What holds of an entry of the table and its thread in the parent: an entry is at its place,
  and a thread that has passed a part of \<open>ski_forkall_slave\<close> has saved its stack or registers.
\<close>

definition entry_ok :: "bool \<Rightarrow> nat \<Rightarrow> ('s, 'e) forkall_thread \<Rightarrow> ('s, 'e) run_thread \<Rightarrow> bool" where
  "entry_ok forking i t th \<longleftrightarrow> ft_thread_seq t = i \<and>
    ft_stack_min t = FORKALL_THREAD_STACK_BEGIN + int i * FORKALL_THREAD_STACK_DISTANCE \<and>
    ft_stack_max t = ft_stack_min t + FORKALL_THREAD_STACK_SIZE \<and>
    0 < rt_tid th \<and> ft_tid_original t \<in> {-1, rt_tid th} \<and>
    (case rt_pc th of
       Outside \<Rightarrow> True
     | At_setjmp j \<Rightarrow> forking \<and> j = i \<and> ft_tid_original t = rt_tid th \<and> ft_stack t = rt_stack th
     | At_count \<Rightarrow> forking \<and> ft_tid_original t = rt_tid th \<and> ft_stack t = rt_stack th \<and> ft_forkall_env t = Some (rt_regs th)
     | Hanging \<Rightarrow> forking \<and> ft_tid_original t = rt_tid th \<and> ft_stack t = rt_stack th \<and> ft_forkall_env t = Some (rt_regs th)
     | _ \<Rightarrow> False)"

abbreviation hanging :: "('s, 'e) run_thread list \<Rightarrow> nat" where
  "hanging ths \<equiv> length (filter (\<lambda>th. rt_pc th = Hanging) ths)"

definition coop_inv :: "('s, 'e) coop \<Rightarrow> bool" where
  "coop_inv st \<longleftrightarrow> length (co_run st) = thread_count st \<and> distinct (map rt_tid (co_run st)) \<and>
    distinct (map ft_thread_original (co_threads st)) \<and>
    (\<forall>i<thread_count st. entry_ok (co_forking st) i (thread_at st i) (run_at st i)) \<and>
    co_threads_done st = int (hanging (co_run st)) \<and> \<not> co_is_child st \<and> \<not> co_simulate_child st"

lemma coop_invD:
  assumes "coop_inv st"
  shows "length (co_run st) = thread_count st" "distinct (map rt_tid (co_run st))"
    "distinct (map ft_thread_original (co_threads st))"
    "i < thread_count st \<Longrightarrow> entry_ok (co_forking st) i (thread_at st i) (run_at st i)"
    "co_threads_done st = int (hanging (co_run st))" "\<not> co_is_child st" "\<not> co_simulate_child st"
  using assms by (simp_all add: coop_inv_def)

lemma coop_inv_upd:
  assumes inv: "coop_inv st" and i: "i < thread_count st" and ok: "entry_ok (co_forking st) i t th"
    and same: "rt_tid th = rt_tid (run_at st i)" "ft_thread_original t = ft_thread_original (thread_at st i)"
    and don: "don + (if rt_pc (run_at st i) = Hanging then 1 else 0) = co_threads_done st + (if rt_pc th = Hanging then 1 else 0)"
  shows "coop_inv (st\<lparr>co_threads := (co_threads st)[i := t], co_run := (co_run st)[i := th], co_threads_done := don\<rparr>)"
proof -
  note d = coop_invD[OF inv]
  have "map rt_tid ((co_run st)[i := th]) = map rt_tid (co_run st)"
    using same(1) i d(1) by (simp add: map_update list_update_same_conv)
  moreover have "map ft_thread_original ((co_threads st)[i := t]) = map ft_thread_original (co_threads st)"
    using same(2) i by (simp add: map_update list_update_same_conv)
  moreover have "don = int (hanging ((co_run st)[i := th]))"
    using length_filter_update[of i "co_run st" "\<lambda>th. rt_pc th = Hanging" th] don d(1,5) i by (auto split: if_splits)
  ultimately show ?thesis using d i ok by (simp add: coop_inv_def nth_list_update)
qed

lemma entry_tid: "entry_ok forking i t th \<Longrightarrow> 0 < rt_tid th \<and> (ft_tid_original t = -1 \<or> ft_tid_original t = rt_tid th)"
  and entry_stack: "entry_ok forking i t th \<Longrightarrow> ft_thread_seq t = i \<and>
    ft_stack_min t = FORKALL_THREAD_STACK_BEGIN + int i * FORKALL_THREAD_STACK_DISTANCE \<and>
    ft_stack_max t = ft_stack_min t + FORKALL_THREAD_STACK_SIZE"
  by (simp_all add: entry_ok_def)

text \<open>A thread finds its own entry, by its identifier and by the address of a variable.\<close>

lemma thread_find:
  assumes "coop_inv st" "i < thread_count st"
  shows "ski_thread_find (rt_tid (run_at st i)) st =
    (if ft_tid_original (thread_at st i) = rt_tid (run_at st i) then Some i else None)"
proof -
  note d = coop_invD[OF assms(1)]
  have other: "j = i" if "ft_tid_original (thread_at st j) = rt_tid (run_at st i)" "j < thread_count st" for j
  proof -
    have "ft_tid_original (thread_at st j) \<noteq> -1" unfolding that(1) using entry_tid[OF d(4)[OF assms(2)]] by linarith
    then have "rt_tid (run_at st j) = rt_tid (run_at st i)" using entry_tid[OF d(4)[OF that(2)]] that(1) by metis
    then show ?thesis using nth_eq_iff_index_eq[OF d(2)] that(2) assms(2) d(1) by (metis length_map nth_map)
  qed
  show ?thesis
  proof (cases "ft_tid_original (thread_at st i) = rt_tid (run_at st i)")
    case True
    have "index_from (\<lambda>t. ft_tid_original t = rt_tid (run_at st i)) 0 (co_threads st) = Some i"
      by (rule index_from_unique[OF assms(2)]) (use other True in blast)
    then show ?thesis using True by (simp add: ski_thread_find_def)
  next
    case False
    then have "index_from (\<lambda>t. ft_tid_original t = rt_tid (run_at st i)) 0 (co_threads st) = None"
      unfolding index_from_None by (metis in_set_conv_nth other)
    then show ?thesis using False by (simp add: ski_thread_find_def)
  qed
qed

lemma add_self_spec:
  assumes "coop_inv st" "i < thread_count st" "ft_stack_min (thread_at st i) < dummy" "dummy < ft_stack_max (thread_at st i)"
  shows "ski_forkall_thread_add_self_tid dummy tid st = Inr (upd_thread i (\<lambda>t. t\<lparr>ft_tid_original := tid\<rparr>) st)"
proof -
  note d = coop_invD(4)[OF assms(1)]
  have "ft_stack_min (thread_at st j) < dummy \<and> dummy < ft_stack_max (thread_at st j) \<longleftrightarrow> j = i" if "j < thread_count st" for j
  proof -
    have "\<not> (ft_stack_min (thread_at st j) < dummy \<and> dummy < ft_stack_max (thread_at st j))" if ne: "j \<noteq> i"
    proof -
      consider "int j + 1 \<le> int i" | "int i + 1 \<le> int j" using ne by linarith
      then show ?thesis using entry_stack[OF d[OF \<open>j < thread_count st\<close>]] entry_stack[OF d[OF assms(2)]] assms(3,4)
        by cases auto
    qed
    then show ?thesis using assms(3,4) by auto
  qed
  then have "index_from (\<lambda>t. dummy > ft_stack_min t \<and> dummy < ft_stack_max t) 0 (co_threads st) = Some i"
    using assms(2) by (intro index_from_unique) auto
  then show ?thesis by (simp add: ski_forkall_thread_add_self_tid_def)
qed

text \<open>The three actions of \<open>ski_forkall_slave\<close> in the parent.\<close>

lemma thread_step_parent:
  assumes inv: "coop_inv st" and i: "i < thread_count st"
  defines "t \<equiv> thread_at st i" and "th \<equiv> run_at st i"
  shows "thread_step st i =
    (case rt_pc th of
       Outside \<Rightarrow>
         if \<not> co_forking st then Inr st
         else if ft_tid_original t \<noteq> rt_tid th then Inl Assert_failed
         else Inr (st\<lparr>co_threads := (co_threads st)[i := t\<lparr>ft_stack := rt_stack th\<rparr>],
                      co_run := (co_run st)[i := th\<lparr>rt_pc := At_setjmp i\<rparr>]\<rparr>)
     | At_setjmp _ \<Rightarrow>
         Inr (st\<lparr>co_threads := (co_threads st)[i := t\<lparr>ft_forkall_env := Some (rt_regs th)\<rparr>],
                 co_run := (co_run st)[i := th\<lparr>rt_pc := At_count\<rparr>]\<rparr>)
     | At_count \<Rightarrow>
         Inr (st\<lparr>co_run := (co_run st)[i := th\<lparr>rt_pc := Hanging\<rparr>], co_threads_done := co_threads_done st + 1\<rparr>)
     | _ \<Rightarrow> Inr st)"
proof -
  note ok = coop_invD(4)[OF inv i] and sim = coop_invD(7)[OF inv] and len = coop_invD(1)[OF inv]
  show ?thesis
  proof (cases "rt_pc (run_at st i)")
    case Outside
    then show ?thesis using sim thread_find[OF inv i] unfolding t_def th_def
      by (simp add: thread_step_def slave_enter_def upd_thread_def upd_run_def)
  qed (use ok sim i len in \<open>simp_all add: t_def th_def thread_step_def entry_ok_def slave_setjmp_def slave_count_def
    slave_hang_def upd_thread_def upd_run_def\<close>)
qed

lemma coop_inv_upd_run:
  assumes "coop_inv st" "i < thread_count st" "entry_ok (co_forking st) i (thread_at st i) th"
    "rt_tid th = rt_tid (run_at st i)" "rt_pc (run_at st i) \<noteq> Hanging" "rt_pc th \<noteq> Hanging"
  shows "coop_inv (st\<lparr>co_run := (co_run st)[i := th]\<rparr>)"
  using coop_inv_upd[OF assms(1-4) refl, of "co_threads_done st"] assms(5,6) by simp

lemma coop_inv_upd_both:
  assumes "coop_inv st" "i < thread_count st" "entry_ok (co_forking st) i t th"
    "rt_tid th = rt_tid (run_at st i)" "ft_thread_original t = ft_thread_original (thread_at st i)"
    "rt_pc (run_at st i) \<noteq> Hanging" "rt_pc th \<noteq> Hanging"
  shows "coop_inv (st\<lparr>co_threads := (co_threads st)[i := t], co_run := (co_run st)[i := th]\<rparr>)"
  using coop_inv_upd[OF assms(1-5), of "co_threads_done st"] assms(6,7) by simp

lemma thread_step_inv:
  assumes inv: "coop_inv st" and i: "i < thread_count st" and step: "thread_step st i = Inr st'"
  shows "coop_inv st'"
proof -
  note ok = coop_invD(4)[OF inv i] and st = thread_step_parent[OF inv i]
  show ?thesis
  proof (cases "rt_pc (run_at st i)")
    case Outside
    then show ?thesis using step st ok inv
      by (auto split: if_splits intro!: coop_inv_upd_both[OF inv i] simp: entry_ok_def)
  next
    case (At_setjmp j)
    then show ?thesis using step st ok by (auto intro!: coop_inv_upd_both[OF inv i] simp: entry_ok_def)
  next
    case At_count
    then have "entry_ok (co_forking st) i (thread_at st i) (run_at st i\<lparr>rt_pc := Hanging\<rparr>)" using ok by (simp add: entry_ok_def)
    from coop_inv_upd[OF inv i this, of "co_threads_done st + 1"] show ?thesis using step st At_count by simp
  qed (use step st inv in auto)
qed

lemma create_inv:
  assumes inv: "coop_inv st" and tid: "0 < tid" "tid \<notin> rt_tid ` set (co_run st)"
    and thr: "thread \<notin> ft_thread_original ` set (co_threads st)"
    and cr: "ski_forkall_pthread_create thread tid regs st = Inr st'"
  shows "coop_inv st'"
proof -
  note d = coop_invD[OF inv]
  let ?n = "thread_count st"
  define t where "t = \<lparr>ft_tid_original = -1, ft_tid_restore = -1, ft_thread_original = thread, ft_thread_restore = 0,
    ft_forkall_env = (None :: 'b option), ft_stack = (0 :: 'a), ft_thread_seq = ?n,
    ft_stack_min = FORKALL_THREAD_STACK_BEGIN + int ?n * FORKALL_THREAD_STACK_DISTANCE,
    ft_stack_max = FORKALL_THREAD_STACK_BEGIN + int ?n * FORKALL_THREAD_STACK_DISTANCE + FORKALL_THREAD_STACK_SIZE\<rparr>"
  define th where "th = \<lparr>rt_pc = Outside, rt_tid = tid, rt_stack = (0 :: 'a), rt_regs = regs\<rparr>"
  have st': "st' = st\<lparr>co_threads := co_threads st @ [t], co_run := co_run st @ [th]\<rparr>"
    using cr d(1) by (auto simp: ski_forkall_pthread_create_def ski_forkall_thread_new_def bind_res_eq_Inr Let_def
      ski_create_thread_custom_stack_def upd_thread_def t_def th_def)
  have new: "entry_ok (co_forking st) ?n t th" using tid(1) by (simp add: entry_ok_def t_def th_def)
  have ids: "rt_tid th = tid" "ft_thread_original t = thread" "rt_pc th \<noteq> Hanging" by (simp_all add: t_def th_def)
  have at: "(co_run st @ [th]) ! ?n = th" unfolding d(1)[symmetric] by (rule nth_append_length)
  have entries: "\<forall>j<Suc ?n. entry_ok (co_forking st) j ((co_threads st @ [t]) ! j) ((co_run st @ [th]) ! j)"
  proof (intro allI impI)
    fix j assume "j < Suc ?n"
    then consider "j < ?n" | "j = ?n" by linarith
    then show "entry_ok (co_forking st) j ((co_threads st @ [t]) ! j) ((co_run st @ [th]) ! j)"
    proof cases
      case 1
      then show ?thesis using d(4)[OF 1] d(1) by (simp only: nth_append if_True)
    next
      case 2
      then show ?thesis using new at by (simp only: nth_append_length)
    qed
  qed
  have "distinct (map rt_tid (co_run st @ [th]))" "distinct (map ft_thread_original (co_threads st @ [t]))"
    using d(2,3) tid(2) thr ids by auto
  moreover have "hanging (co_run st @ [th]) = hanging (co_run st)" using ids(3) by simp
  ultimately show ?thesis unfolding st' coop_inv_def using d(1,5-7) entries by (simp del: map_append filter_append)
qed

lemma entry_ok_mono: "entry_ok forking i t th \<Longrightarrow> entry_ok True i t th"
  by (cases "rt_pc th") (simp_all add: entry_ok_def)

lemma step_inv: "coop_step st st' \<Longrightarrow> coop_inv st \<Longrightarrow> coop_inv st'"
proof (induction rule: coop_step.induct)
  case (create tid st thread regs st')
  show ?case by (rule create_inv[OF create(5,1-4)])
next
  case (register i st dummy st')
  let ?t = "thread_at st i\<lparr>ft_tid_original := rt_tid (run_at st i)\<rparr>"
  have "entry_ok (co_forking st) i ?t (run_at st i)"
    using coop_invD(4)[OF register(6,1)] register(2) by (simp add: entry_ok_def)
  from coop_inv_upd_both[OF register(6,1) this] have "coop_inv (upd_thread i (\<lambda>t. t\<lparr>ft_tid_original := rt_tid (run_at st i)\<rparr>) st)"
    using register(2) by (simp add: upd_thread_def)
  then show ?case using register(5) add_self_spec[OF register(6,1,3,4)] by simp
next
  case (work i st r s)
  have "entry_ok (co_forking st) i (thread_at st i) (run_at st i\<lparr>rt_stack := s, rt_regs := r\<rparr>)"
    using coop_invD(4)[OF work(3,1)] work(2) by (simp add: entry_ok_def)
  from coop_inv_upd_run[OF work(3,1) this] show ?case using work(2) by (simp add: upd_run_def)
next
  case (thread i st st')
  show ?case by (rule thread_step_inv[OF thread(3,1,2)])
next
  case (request st)
  note d = coop_invD[OF request]
  have "\<forall>i<thread_count st. entry_ok True i (thread_at st i) (run_at st i)"
    by (intro allI impI) (rule entry_ok_mono[OF d(4)])
  then show ?case using d(1-3,5-7) by (simp add: coop_inv_def master_request_def)
qed

lemma reachable_inv: "coop_step\<^sup>*\<^sup>* no_threads st \<Longrightarrow> coop_inv st"
proof (induction rule: rtranclp_induct)
  case base
  show ?case by (simp add: coop_inv_def no_threads_def)
qed (rule step_inv)

text \<open>The master goes on exactly when all threads hang.\<close>

lemma poll_hanging:
  assumes "coop_inv st"
  shows "master_poll st \<longleftrightarrow> (\<forall>i<thread_count st. rt_pc (run_at st i) = Hanging)"
proof -
  note d = coop_invD[OF assms]
  have "master_poll st \<longleftrightarrow> hanging (co_run st) = length (co_run st)" using d(1,5) by (simp add: master_poll_def)
  also have "\<dots> \<longleftrightarrow> (\<forall>th\<in>set (co_run st). rt_pc th = Hanging)"
    by (rule length_filter_all)
  also have "\<dots> \<longleftrightarrow> (\<forall>i<thread_count st. rt_pc (run_at st i) = Hanging)" using d(1) by (auto simp: all_set_conv_all_nth)
  finally show ?thesis .
qed

section \<open>Restored threads\<close>

text \<open>
  The child: an entry keeps what was saved, and its thread is absent, on its way, or has returned
  with the stack and the registers of the hanging thread of the parent.
\<close>

definition restored_ok :: "('s, 'e) run_thread \<Rightarrow> ('s, 'e) forkall_thread \<Rightarrow> ('s, 'e) run_thread \<Rightarrow> bool" where
  "restored_ok p t th \<longleftrightarrow> ft_stack t = rt_stack p \<and> ft_forkall_env t = Some (rt_regs p) \<and>
    (case rt_pc th of
       Absent \<Rightarrow> True
     | At_restore \<Rightarrow> 0 < rt_tid th
     | At_longjmp \<Rightarrow> 0 < rt_tid th \<and> ft_tid_restore t = rt_tid th \<and> rt_stack th = rt_stack p
     | Returned d c \<Rightarrow> d \<and> c \<and> 0 < rt_tid th \<and> ft_tid_restore t = rt_tid th \<and> rt_stack th = rt_stack p \<and> rt_regs th = rt_regs p
     | _ \<Rightarrow> False)"

definition child_inv :: "('s, 'e) coop \<Rightarrow> nat \<Rightarrow> ('s, 'e) coop \<Rightarrow> bool" where
  "child_inv st k ch \<longleftrightarrow> length (co_run ch) = thread_count st \<and>
    map ft_thread_original (co_threads ch) = map ft_thread_original (co_threads st) \<and>
    (\<forall>i<thread_count st. ft_thread_seq (thread_at ch i) = i \<and> restored_ok (run_at st i) (thread_at ch i) (run_at ch i) \<and>
      (rt_pc (run_at ch i) = Absent \<longleftrightarrow> k \<le> i)) \<and> co_is_child ch"

lemma child_invD:
  assumes "child_inv st k ch"
  shows "thread_count ch = thread_count st" "length (co_run ch) = thread_count st"
    "map ft_thread_original (co_threads ch) = map ft_thread_original (co_threads st)" "co_is_child ch"
    "i < thread_count st \<Longrightarrow> ft_thread_seq (thread_at ch i) = i"
    "i < thread_count st \<Longrightarrow> restored_ok (run_at st i) (thread_at ch i) (run_at ch i)"
    "i < thread_count st \<Longrightarrow> rt_pc (run_at ch i) = Absent \<longleftrightarrow> k \<le> i"
  using assms map_eq_imp_length_eq[of ft_thread_original "co_threads ch" ft_thread_original "co_threads st"]
  by (simp_all add: child_inv_def)

lemma child_inv_upd:
  assumes inv: "child_inv st k ch" and i: "i < thread_count st"
    and t: "ft_thread_seq t = i" "ft_thread_original t = ft_thread_original (thread_at ch i)"
    and ok: "restored_ok (run_at st i) t th" and pc: "rt_pc th \<noteq> Absent" and k: "k' = k \<and> i < k \<or> i = k \<and> k' = Suc k"
  shows "child_inv st k' (ch\<lparr>co_threads := (co_threads ch)[i := t], co_run := (co_run ch)[i := th]\<rparr>)"
proof -
  note d = child_invD[OF inv]
  have "map ft_thread_original ((co_threads ch)[i := t]) = map ft_thread_original (co_threads st)"
    using d(1,3) t(2) i by (simp add: map_update list_update_same_conv flip: d(3))
  moreover have "\<forall>j<thread_count st. ft_thread_seq ((co_threads ch)[i := t] ! j) = j \<and>
      restored_ok (run_at st j) ((co_threads ch)[i := t] ! j) ((co_run ch)[i := th] ! j) \<and>
      (rt_pc ((co_run ch)[i := th] ! j) = Absent \<longleftrightarrow> k' \<le> j)"
  proof (intro allI impI)
    fix j assume j: "j < thread_count st"
    show "ft_thread_seq ((co_threads ch)[i := t] ! j) = j \<and>
      restored_ok (run_at st j) ((co_threads ch)[i := t] ! j) ((co_run ch)[i := th] ! j) \<and>
      (rt_pc ((co_run ch)[i := th] ! j) = Absent \<longleftrightarrow> k' \<le> j)"
    proof (cases "j = i")
      case True
      then show ?thesis using i d(1,2) t(1) ok pc k by auto
    next
      case False
      then have "k' \<le> j \<longleftrightarrow> k \<le> j" using k by linarith
      then show ?thesis using False d(5-7)[OF j] by simp
    qed
  qed
  ultimately show ?thesis using d(1,2,4) by (simp add: child_inv_def)
qed

lemma fork_child_inv:
  assumes "coop_inv st" "master_poll st"
  shows "child_inv st 0 (fork_child st)"
proof -
  note d = coop_invD[OF assms(1)]
  have "restored_ok (run_at st i) (thread_at st i) (run_at st i\<lparr>rt_pc := Absent\<rparr>)" if "i < thread_count st" for i
    using d(4)[OF that] assms(2) that unfolding poll_hanging[OF assms(1)] by (simp add: restored_ok_def entry_ok_def)
  moreover have "ft_thread_seq (thread_at st i) = i" if "i < thread_count st" for i
    using entry_stack[OF d(4)[OF that]] by simp
  ultimately show ?thesis using d(1) by (simp add: child_inv_def fork_child_def)
qed

lemma restore_thread_eq:
  assumes "child_inv st k ch" "k < thread_count st"
  shows "restore_thread k thread tid regs ch =
    ch\<lparr>co_threads := (co_threads ch)[k := thread_at ch k\<lparr>ft_thread_restore := thread\<rparr>],
       co_run := (co_run ch)[k := \<lparr>rt_pc = At_restore, rt_tid = tid, rt_stack = 0, rt_regs = regs\<rparr>]\<rparr>"
  using child_invD(2)[OF assms(1)] child_invD(5)[OF assms] assms(2)
  by (simp add: restore_thread_def ski_create_thread_custom_stack_def upd_thread_def)

lemma restore_thread_inv:
  assumes "child_inv st k ch" "k < thread_count st" "0 < tid"
  shows "child_inv st (Suc k) (restore_thread k thread tid regs ch)"
  unfolding restore_thread_eq[OF assms(1,2)]
  using child_invD(5,6)[OF assms(1,2)] assms(3) by (intro child_inv_upd[OF assms(1,2)]) (simp_all add: restored_ok_def)

text \<open>The two actions of a thread that is restored.\<close>

lemma thread_step_child:
  assumes inv: "child_inv st k ch" and i: "i < k" "i < thread_count st"
  defines "t \<equiv> thread_at ch i" and "th \<equiv> run_at ch i"
  shows "thread_step ch i =
    (case rt_pc th of
       At_restore \<Rightarrow> Inr (ch\<lparr>co_threads := (co_threads ch)[i := t\<lparr>ft_tid_restore := rt_tid th\<rparr>],
         co_run := (co_run ch)[i := th\<lparr>rt_pc := At_longjmp, rt_stack := rt_stack (run_at st i)\<rparr>]\<rparr>)
     | At_longjmp \<Rightarrow> Inr (ch\<lparr>co_threads := (co_threads ch)[i := t],
         co_run := (co_run ch)[i := th\<lparr>rt_pc := Returned True True, rt_regs := rt_regs (run_at st i)\<rparr>]\<rparr>)
     | _ \<Rightarrow> Inr ch)"
proof -
  note ok = child_invD(6)[OF inv i(2)] and d = child_invD(1,2)[OF inv]
  show ?thesis
  proof (cases "rt_pc (run_at ch i)")
    case At_restore
    then show ?thesis using ok i(2) d
      by (simp add: t_def th_def thread_step_def ski_forkall_thread_restore_def upd_thread_def upd_run_def restored_ok_def)
  next
    case At_longjmp
    then show ?thesis using ok i(2) d
      by (simp add: t_def th_def thread_step_def ski_forkall_thread_restore_registers_def upd_run_def restored_ok_def)
  qed (use ok in \<open>simp_all add: th_def thread_step_def restored_ok_def\<close>)
qed

lemma thread_step_child_inv:
  assumes inv: "child_inv st k ch" and i: "i < k" "i < thread_count st" and step: "thread_step ch i = Inr ch'"
  shows "child_inv st k ch'"
proof -
  note ok = child_invD(6)[OF inv i(2)] and seq = child_invD(5)[OF inv i(2)] and st = thread_step_child[OF inv i]
  show ?thesis
  proof (cases "rt_pc (run_at ch i)")
    case At_restore
    let ?t = "thread_at ch i\<lparr>ft_tid_restore := rt_tid (run_at ch i)\<rparr>"
    let ?th = "run_at ch i\<lparr>rt_pc := At_longjmp, rt_stack := rt_stack (run_at st i)\<rparr>"
    have "restored_ok (run_at st i) ?t ?th" using ok At_restore by (simp add: restored_ok_def)
    from child_inv_upd[OF inv i(2) _ _ this, of k] show ?thesis using step st At_restore seq i(1) by simp
  next
    case At_longjmp
    let ?th = "run_at ch i\<lparr>rt_pc := Returned True True, rt_regs := rt_regs (run_at st i)\<rparr>"
    have "restored_ok (run_at st i) (thread_at ch i) ?th" using ok At_longjmp by (simp add: restored_ok_def)
    from child_inv_upd[OF inv i(2) _ _ this, of k] show ?thesis using step st At_longjmp seq i(1) by simp
  qed (use step st inv in simp_all)
qed

lemma child_run_inv:
  assumes "child_run st k ch" "coop_inv st" "master_poll st"
  shows "child_inv st k ch \<and> k \<le> thread_count st"
  using assms
proof (induction rule: child_run.induct)
  case (fork st)
  then show ?case using fork_child_inv by simp
next
  case (restore st k st1 tid thread regs)
  then show ?case using restore_thread_inv[of st k st1 tid] child_invD(1)[of st k st1] by simp
next
  case (thread st k st1 i st2)
  then show ?case using thread_step_child_inv[of st k st1 i st2] by simp
qed

section \<open>Fair schedules\<close>

text \<open>
  Threads that take turns: an action of a thread is always possible, brings this thread nearer to
  its end and leaves the distance of the others as it is.
\<close>

locale turns =
  fixes act :: "'st \<Rightarrow> nat \<Rightarrow> 'st res" and good :: "'st \<Rightarrow> bool" and members :: "'st \<Rightarrow> nat" and dist :: "'st \<Rightarrow> nat \<Rightarrow> nat"
  assumes turn: "good st \<Longrightarrow> i < members st \<Longrightarrow> \<exists>st'. act st i = Inr st' \<and> good st' \<and> members st' = members st \<and>
    (\<forall>j<members st. dist st' j = (if j = i then dist st j - 1 else dist st j))"
begin

lemma schedule:
  "good st \<Longrightarrow> list_all (\<lambda>i. i < members st) is \<Longrightarrow>
    \<exists>st'. fold_res act st is = Inr st' \<and> good st' \<and> members st' = members st \<and>
      (\<forall>j<members st. dist st' j = dist st j - count_list is j)"
proof (induction "is" arbitrary: st)
  case (Cons i "is")
  obtain st1 where st1: "act st i = Inr st1" "good st1" "members st1 = members st"
    "\<forall>j<members st. dist st1 j = (if j = i then dist st j - 1 else dist st j)" using turn[OF Cons.prems(1)] Cons.prems(2) by auto
  then show ?case using Cons.IH[OF st1(2)] Cons.prems(2) by fastforce
qed simp

lemma fair_schedule:
  assumes "good st" "list_all (\<lambda>i. i < members st) is" "\<And>j. j < members st \<Longrightarrow> dist st j \<le> count_list is j"
  shows "\<exists>st'. fold_res act st is = Inr st' \<and> good st' \<and> members st' = members st \<and> (\<forall>j<members st. dist st' j = 0)"
  using schedule[OF assms(1,2)] assms(3) by fastforce

end

fun pc_distance :: "thread_pc \<Rightarrow> nat" where
  "pc_distance Outside = 3"
| "pc_distance (At_setjmp _) = 2"
| "pc_distance At_count = 1"
| "pc_distance At_restore = 2"
| "pc_distance At_longjmp = 1"
| "pc_distance _ = 0"

abbreviation distance :: "('s, 'e) coop \<Rightarrow> nat \<Rightarrow> nat" where
  "distance st i \<equiv> pc_distance (rt_pc (run_at st i))"

text \<open>The parent after a request, with all threads registered.\<close>

definition requested :: "('s, 'e) coop \<Rightarrow> bool" where
  "requested st \<longleftrightarrow> coop_inv st \<and> co_forking st \<and>
    (\<forall>i<thread_count st. ft_tid_original (thread_at st i) = rt_tid (run_at st i))"

definition all_created :: "('s, 'e) coop \<Rightarrow> ('s, 'e) coop \<Rightarrow> bool" where
  "all_created st ch \<longleftrightarrow> child_inv st (thread_count st) ch"

lemma requested_turn:
  assumes req: "requested st" and i: "i < thread_count st"
  shows "\<exists>st'. thread_step st i = Inr st' \<and> requested st' \<and> thread_count st' = thread_count st \<and>
    (\<forall>j<thread_count st. distance st' j = (if j = i then distance st j - 1 else distance st j))"
proof -
  have inv: "coop_inv st" and fork: "co_forking st"
    and reg: "\<And>j. j < thread_count st \<Longrightarrow> ft_tid_original (thread_at st j) = rt_tid (run_at st j)"
    using req by (simp_all add: requested_def)
  note len = coop_invD(1)[OF inv] and ok = coop_invD(4)[OF inv i] and st = thread_step_parent[OF inv i]
  have "\<exists>st'. thread_step st i = Inr st' \<and> co_forking st' \<and> thread_count st' = thread_count st \<and>
    (\<forall>j<thread_count st. ft_tid_original (thread_at st' j) = rt_tid (run_at st' j) \<and>
      distance st' j = (if j = i then distance st j - 1 else distance st j))"
  proof (cases "rt_pc (run_at st i)")
    case Outside
    then show ?thesis using st fork reg i len by (simp add: nth_list_update)
  next
    case (At_setjmp t)
    then show ?thesis using st fork reg i len by (simp add: nth_list_update)
  next
    case At_count
    then show ?thesis using st fork reg i len by (simp add: nth_list_update)
  next
    case Hanging
    then show ?thesis using st fork reg by simp
  qed (use ok in \<open>simp_all add: entry_ok_def\<close>)
  then obtain st' where st': "thread_step st i = Inr st'" "co_forking st'" "thread_count st' = thread_count st"
    "\<forall>j<thread_count st. ft_tid_original (thread_at st' j) = rt_tid (run_at st' j) \<and>
      distance st' j = (if j = i then distance st j - 1 else distance st j)" by blast
  then show ?thesis using thread_step_inv[OF inv i st'(1)] by (simp add: requested_def)
qed

lemma all_created_turn:
  assumes inv: "all_created st ch" and i: "i < thread_count st"
  shows "\<exists>ch'. thread_step ch i = Inr ch' \<and> all_created st ch' \<and>
    (\<forall>j<thread_count st. distance ch' j = (if j = i then distance ch j - 1 else distance ch j))"
proof -
  note inv = inv[unfolded all_created_def]
  note len = child_invD(2)[OF inv] and ok = child_invD(6)[OF inv i] and st = thread_step_child[OF inv i i]
  have "\<exists>ch'. thread_step ch i = Inr ch' \<and>
    (\<forall>j<thread_count st. distance ch' j = (if j = i then distance ch j - 1 else distance ch j))"
    by (cases "rt_pc (run_at ch i)") (use ok st i len in \<open>simp_all add: restored_ok_def nth_list_update\<close>)
  then show ?thesis using thread_step_child_inv[OF inv i i] by (auto simp: all_created_def)
qed

interpretation parent: turns thread_step requested thread_count distance
  by unfold_locales (rule requested_turn)

interpretation child: turns thread_step "\<lambda>ch. all_created st ch \<and> thread_count ch = thread_count st" thread_count distance for st
proof
  fix ch i assume ch: "all_created st ch \<and> thread_count ch = thread_count st" and i: "i < thread_count ch"
  then obtain ch' where "thread_step ch i = Inr ch'" "all_created st ch'"
    "\<forall>j<thread_count st. distance ch' j = (if j = i then distance ch j - 1 else distance ch j)"
    using all_created_turn[of st ch i] by auto
  then show "\<exists>ch'. thread_step ch i = Inr ch' \<and> (all_created st ch' \<and> thread_count ch' = thread_count st) \<and>
    thread_count ch' = thread_count ch \<and> (\<forall>j<thread_count ch. distance ch' j = (if j = i then distance ch j - 1 else distance ch j))"
    using ch child_invD(1)[of st "thread_count st" ch'] by (auto simp: all_created_def)
qed

lemma restore_threads_created:
  assumes inv: "child_inv st 0 ch" and ids: "\<And>i. i < thread_count st \<Longrightarrow> 0 < fst (snd (ids ! i))"
  shows "all_created st (restore_threads ids ch)"
proof -
  have "child_inv st k (foldl (\<lambda>ch i. case ids ! i of (thread, tid, regs) \<Rightarrow> restore_thread i thread tid regs ch) ch [0..<k])"
    if "k \<le> thread_count st" for k
    using that
  proof (induction k)
    case 0
    show ?case using inv by simp
  next
    case (Suc k)
    then show ?case using restore_thread_inv[OF Suc.IH, of "fst (snd (ids ! k))"] ids[of k] by (simp add: case_prod_beta)
  qed
  then show ?thesis using child_invD(1)[OF inv] by (simp add: all_created_def restore_threads_def)
qed

section \<open>The fork of all threads\<close>

text \<open>
  C5: whatever the threads of the parent have done before and however they interleave with the
  master, when the master stops waiting and forks, every thread hangs; and however the threads of
  the child interleave, each one that returns from \<open>ski_forkall_slave\<close> is told that it is in the
  child of a fork and has the stack and the registers of its thread in the parent.  From then on
  a signal for the original thread reaches it.
\<close>

theorem coop_handshake:
  assumes "coop_step\<^sup>*\<^sup>* no_threads st" "master_poll st" "child_run st k ch"
    and "i < thread_count st" "rt_pc (run_at ch i) = Returned d c"
  shows "rt_pc (run_at st i) = Hanging \<and> d \<and> c \<and>
    rt_stack (run_at ch i) = rt_stack (run_at st i) \<and> rt_regs (run_at ch i) = rt_regs (run_at st i) \<and>
    ski_forkall_pthread_kill (ft_thread_original (thread_at st i)) ch = Inr (To_tid (rt_tid (run_at ch i)))"
proof -
  note inv = reachable_inv[OF assms(1)]
  have ch: "child_inv st k ch" using child_run_inv[OF assms(3) inv assms(2)] by simp
  note d = child_invD[OF ch] and ok = child_invD(6)[OF ch assms(4)]
  have ret: "d" "c" "0 < rt_tid (run_at ch i)" "ft_tid_restore (thread_at ch i) = rt_tid (run_at ch i)"
    "rt_stack (run_at ch i) = rt_stack (run_at st i)" "rt_regs (run_at ch i) = rt_regs (run_at st i)"
    using ok assms(5) by (simp_all add: restored_ok_def)
  have orig: "ft_thread_original (thread_at ch j) = ft_thread_original (thread_at st j)" if "j < thread_count st" for j
    using d(1,3) that by (metis nth_map)
  have "ft_thread_original (thread_at ch j) = ft_thread_original (thread_at st i) \<longleftrightarrow> j = i" if "j < thread_count ch" for j
    using nth_eq_iff_index_eq[OF coop_invD(3)[OF inv], of j i] orig[of j] that assms(4) d(1) by simp
  then have "index_from (\<lambda>t. ft_thread_original t = ft_thread_original (thread_at st i)) 0 (co_threads ch) = Some i"
    using assms(4) d(1) by (intro index_from_unique) simp_all
  then have "ski_forkall_pthread_kill (ft_thread_original (thread_at st i)) ch = Inr (To_tid (rt_tid (run_at ch i)))"
    using d(4) ret(3,4) by (simp add: ski_forkall_pthread_kill_def)
  then show ?thesis using ret assms(2,4) unfolding poll_hanging[OF inv] by blast
qed

text \<open>
  C20: the fork happens.  After a request, when all threads are registered, every schedule that
  gives each thread three actions lets the master go on; and in the child every schedule that
  gives each recreated thread two actions brings all of them back from \<open>ski_forkall_slave\<close>.
\<close>

theorem coop_progress:
  assumes "coop_step\<^sup>*\<^sup>* no_threads st" "co_forking st"
    and "\<And>i. i < thread_count st \<Longrightarrow> ft_tid_original (thread_at st i) = rt_tid (run_at st i)"
    and "list_all (\<lambda>i. i < thread_count st) is" "\<And>i. i < thread_count st \<Longrightarrow> 3 \<le> count_list is i"
    and "list_all (\<lambda>i. i < thread_count st) js" "\<And>i. i < thread_count st \<Longrightarrow> 2 \<le> count_list js i"
    and "\<And>i. i < thread_count st \<Longrightarrow> 0 < fst (snd (ids ! i))"
  shows "\<exists>st1 ch. fold_res thread_step st is = Inr st1 \<and> master_poll st1 \<and>
    fold_res thread_step (restore_threads ids (fork_child st1)) js = Inr ch \<and>
    (\<forall>i<thread_count st. rt_pc (run_at ch i) = Returned True True)"
proof -
  have req: "requested st" using reachable_inv[OF assms(1)] assms(2,3) by (simp add: requested_def)
  have le3: "distance st j \<le> 3" for j by (cases "rt_pc (run_at st j)") simp_all
  obtain st1 where st1: "fold_res thread_step st is = Inr st1" "requested st1" "thread_count st1 = thread_count st"
    "\<forall>j<thread_count st. distance st1 j = 0"
    using parent.fair_schedule[OF req assms(4) le_trans[OF le3 assms(5)]] by auto
  have inv1: "coop_inv st1" using st1(2) by (simp add: requested_def)
  have "rt_pc (run_at st1 j) = Hanging" if "j < thread_count st1" for j
    using coop_invD(4)[OF inv1 that] st1(3,4) that by (cases "rt_pc (run_at st1 j)") (auto simp: entry_ok_def)
  then have poll: "master_poll st1" by (simp add: poll_hanging[OF inv1])
  let ?ch0 = "restore_threads ids (fork_child st1)"
  have cr: "all_created st1 ?ch0" using restore_threads_created[OF fork_child_inv[OF inv1 poll]] assms(8) st1(3) by simp
  note ci = cr[unfolded all_created_def]
  have cnt: "thread_count ?ch0 = thread_count st1" by (rule child_invD(1)[OF ci])
  have le2: "distance ?ch0 j \<le> 2" if "j < thread_count st1" for j
    using child_invD(6)[OF ci that] by (cases "rt_pc (run_at ?ch0 j)") (simp_all add: restored_ok_def)
  obtain ch where ch: "fold_res thread_step ?ch0 js = Inr ch" "all_created st1 ch" "\<forall>j<thread_count ?ch0. distance ch j = 0"
    using child.fair_schedule[of st1 ?ch0 js, unfolded cnt, OF _ _ le_trans[OF le2]] cr assms(6,7) st1(3) cnt by auto
  note cj = ch(2)[unfolded all_created_def]
  have "rt_pc (run_at ch j) = Returned True True" if "j < thread_count st1" for j
    using child_invD(6,7)[OF cj that] ch(3) cnt that by (cases "rt_pc (run_at ch j)") (auto simp: restored_ok_def)
  then show ?thesis using st1(1,3) poll ch(1) by auto
qed

section \<open>An example\<close>

text \<open>One thread that is created, registered, and works until the fork is requested.\<close>

definition sample_entry :: "int \<Rightarrow> (nat, nat) forkall_thread" where
  "sample_entry tid = \<lparr>ft_tid_original = tid, ft_tid_restore = -1, ft_thread_original = 5, ft_thread_restore = 0,
    ft_forkall_env = None, ft_stack = 0, ft_thread_seq = 0, ft_stack_min = FORKALL_THREAD_STACK_BEGIN,
    ft_stack_max = FORKALL_THREAD_STACK_BEGIN + FORKALL_THREAD_STACK_SIZE\<rparr>"

definition sample_coop :: "int \<Rightarrow> nat \<Rightarrow> nat \<Rightarrow> bool \<Rightarrow> (nat, nat) coop" where
  "sample_coop tid s r forking = no_threads\<lparr>co_threads := [sample_entry tid],
    co_run := [\<lparr>rt_pc = Outside, rt_tid = 100, rt_stack = s, rt_regs = r\<rparr>], co_forking := forking\<rparr>"

lemma sample_coop_fields:
  "co_threads (sample_coop tid s r f) = [sample_entry tid]"
  "co_run (sample_coop tid s r f) = [\<lparr>rt_pc = Outside, rt_tid = 100, rt_stack = s, rt_regs = r\<rparr>]"
  "co_forking (sample_coop tid s r f) = f"
  by (simp_all add: sample_coop_def)

lemma sample_reachable: "coop_step\<^sup>*\<^sup>* no_threads (sample_coop 100 11 7 True)"
proof -
  have "ski_forkall_pthread_create 5 100 0 no_threads = Inr (sample_coop (-1) 0 0 False)"
    by (simp add: ski_forkall_pthread_create_def ski_forkall_thread_new_def no_threads_def upd_thread_def Let_def
      ski_create_thread_custom_stack_def sample_coop_def sample_entry_def)
  then have "coop_step no_threads (sample_coop (-1) 0 0 False)"
    by (intro coop_step.create[of 100 _ 5 0]) (simp_all add: no_threads_def)
  moreover have "ski_forkall_thread_add_self_tid (FORKALL_THREAD_STACK_BEGIN + 8) 100 (sample_coop (-1) 0 0 False) =
      Inr (sample_coop 100 0 0 False)"
    by (simp add: ski_forkall_thread_add_self_tid_def upd_thread_def sample_coop_def sample_entry_def)
  then have "coop_step (sample_coop (-1) 0 0 False) (sample_coop 100 0 0 False)"
    by (intro coop_step.register[of 0 _ "FORKALL_THREAD_STACK_BEGIN + 8"]) (simp_all add: sample_coop_fields sample_entry_def)
  moreover have "coop_step (sample_coop 100 0 0 False) (sample_coop 100 11 7 False)"
    using coop_step.work[of 0 "sample_coop 100 0 0 False" 7 11] by (simp add: upd_run_def sample_coop_def no_threads_def)
  moreover have "coop_step (sample_coop 100 11 7 False) (sample_coop 100 11 7 True)"
    using coop_step.request[of "sample_coop 100 11 7 False"] by (simp add: master_request_def sample_coop_def no_threads_def)
  ultimately show ?thesis by (meson converse_rtranclp_into_rtranclp rtranclp.rtrancl_refl)
qed

definition sample_hanging :: "(nat, nat) coop" where
  "sample_hanging = no_threads\<lparr>co_threads := [sample_entry 100\<lparr>ft_stack := 11, ft_forkall_env := Some 7\<rparr>],
    co_run := [\<lparr>rt_pc = Hanging, rt_tid = 100, rt_stack = 11, rt_regs = 7\<rparr>], co_forking := True, co_threads_done := 1\<rparr>"

lemmas thread_defs = thread_step_def slave_enter_def ski_thread_find_def slave_setjmp_def slave_count_def
  ski_forkall_thread_restore_def ski_forkall_thread_restore_registers_def upd_thread_def upd_run_def

lemma sample_steps: "fold_res thread_step (sample_coop 100 11 7 True) [0, 0, 0] = Inr sample_hanging"
  by (simp add: thread_defs sample_coop_def sample_entry_def sample_hanging_def no_threads_def)

lemma thread_step_count: "thread_step st i = Inr st' \<Longrightarrow> thread_count st' = thread_count st"
  by (cases "rt_pc (run_at st i)")
    (auto simp: thread_defs slave_hang_def bind_res_eq_Inr split: if_splits option.splits)

lemma fold_steps:
  "fold_res thread_step st is = Inr st' \<Longrightarrow> list_all (\<lambda>i. i < thread_count st) is \<Longrightarrow> coop_step\<^sup>*\<^sup>* st st'"
proof (induction "is" arbitrary: st)
  case (Cons i "is")
  then obtain st1 where st1: "thread_step st i = Inr st1" "fold_res thread_step st1 is = Inr st'" by (auto simp: bind_res_eq_Inr)
  have "coop_step\<^sup>*\<^sup>* st1 st'" using Cons.IH[OF st1(2)] Cons.prems(2) thread_step_count[OF st1(1)] by simp
  moreover have "coop_step st st1" using coop_step.thread[OF _ st1(1)] Cons.prems(2) by simp
  ultimately show ?case by (rule converse_rtranclp_into_rtranclp[rotated])
qed simp

theorem coop_handshake_witness:
  "\<exists>ch. child_run sample_hanging 1 ch \<and> rt_pc (run_at ch 0) = Returned True True \<and>
    rt_stack (run_at ch 0) = 11 \<and> rt_regs (run_at ch 0) = 7 \<and> ski_forkall_pthread_kill 5 ch = Inr (To_tid 200)"
proof -
  have reach: "coop_step\<^sup>*\<^sup>* no_threads sample_hanging"
    using sample_reachable fold_steps[OF sample_steps] by (simp add: sample_coop_fields)
  have poll: "master_poll sample_hanging" by (simp add: master_poll_def sample_hanging_def)
  define c0 where "c0 = restore_thread 0 6 200 0 (fork_child sample_hanging)"
  have c0: "child_run sample_hanging 1 c0"
    using child_run.restore[OF child_run.fork[of sample_hanging], of 200 6 0] unfolding c0_def
    by (simp add: fork_child_def sample_hanging_def)
  note defs = c0_def restore_thread_def fork_child_def sample_hanging_def ski_create_thread_custom_stack_def
    thread_defs sample_entry_def no_threads_def
  obtain c1 where c1: "thread_step c0 0 = Inr c1" by (simp add: defs)
  obtain c2 where c2: "thread_step c1 0 = Inr c2" using c1 by (auto simp: defs)
  have pc: "rt_pc (run_at c0 0) = At_restore" "rt_pc (run_at c1 0) = At_longjmp" "rt_pc (run_at c2 0) = Returned True True"
    "rt_tid (run_at c2 0) = 200" using c1 c2 by (auto simp: defs)
  have run: "child_run sample_hanging 1 c2"
    using child_run.thread[OF child_run.thread[OF c0 _ _ c1] _ _ c2] pc by simp
  have s: "thread_count sample_hanging = 1" "rt_stack (run_at sample_hanging 0) = 11" "rt_regs (run_at sample_hanging 0) = 7"
    "ft_thread_original (thread_at sample_hanging 0) = 5" by (simp_all add: sample_hanging_def sample_entry_def)
  show ?thesis using coop_handshake[OF reach poll run _ pc(3)] s pc run by auto
qed

theorem coop_progress_witness:
  "\<exists>st1 ch. fold_res thread_step (sample_coop 100 11 7 True) [0, 0, 0] = Inr st1 \<and> master_poll st1 \<and>
    fold_res thread_step (restore_threads [(6, 200, 0)] (fork_child st1)) [0, 0] = Inr ch \<and>
    rt_pc (run_at ch 0) = Returned True True"
  using coop_progress[OF sample_reachable, of "[0, 0, 0]" "[0, 0]" "[(6, 200, 0)]"]
  by (simp add: sample_coop_fields sample_entry_def del: fold_res.simps)

end
