(* ===== verification/Spec2Isabelle.thy ===== *)
theory Spec2Isabelle
  imports Ski_Instrument Ski_Input Ski_Delivery Ski_Forkall Ski_Files Ski_Sha1 Ski_Coop
begin

text \<open>
  Verification of SKI, the systematic kernel interleaving explorer, which is built into QEMU.

  \<^bold>\<open>The program.\<close>  SKI runs a kernel in an emulated machine and explores schedules of it.  The
  parent process (\<open>vmm/vl.c\<close>) loads a snapshot of the machine and forks one child per test, a pair
  of inputs and a seed (\<open>vmm/ski-input.c\<close>).  Forking copies all threads of the emulator
  (\<open>vmm/forkall-coop.c\<close>), files of the host are replaced by private copies
  (\<open>vmm/ski-memfs.c\<close>), and the images are identified by a hash (\<open>vmm/ski-sha1.c\<close>).  In a child the
  guest enters the test by a hypercall (\<open>vmm/ski-hyper.c\<close>).  From then on only one CPU executes at
  a time: the scheduler (\<open>vmm/cpu-exec.c\<close>) keeps a table of threads, one for the test on each CPU
  and one for each interrupt, with priorities from a file (\<open>vmm/ski-priorities.c\<close>), and runs the
  thread of highest priority that is able to run.  The interrupt controllers (\<open>vmm/hw/apic.c\<close>,
  \<open>vmm/hw/ioapic.c\<close>, \<open>vmm/hw/i8259.c\<close>, \<open>vmm/hw/pc.c\<close>) report raised vectors to the scheduler and
  hand out the vector that it chose.  The translated guest code calls helpers
  (\<open>vmm/target-i386/op_helper.c\<close>) which count instructions, change priorities at the planned
  preemption points, put a waiting thread to sleep on its read set (\<open>vmm/ski-liveness.h\<close>), feed
  the detectors (\<open>vmm/ski-race-detector.c\<close>, \<open>vmm/ski-instruction-detector.c\<close>) and the
  statistics (\<open>vmm/ski-stats.c\<close>), and write the trace.  The parent learns from the statistics
  where the next children preempt.

  \<^bold>\<open>Conventions.\<close>  An operation of the program is a function of the state and returns the new
  state; if it can fail it returns \<open>'a res\<close>, where \<open>Inl\<close> holds the way the run stops: a failed
  assertion, a trap, an exit with its code, or undefined behaviour of C.  Structures are records
  with the fields of the source under a prefix, pointers into an array or a list are positions,
  pointers that may be null are options.  Machine words are words of their width where bits or
  wrap-around matter; counters of type \<open>int\<close> are integers, with the conversion \<open>int32\<close> where the
  code converts.  Results of the operating system, the C library's random numbers and the page
  table of the guest are arguments.  Names are those of the source where they are free.

  \<^bold>\<open>Theories.\<close>
  \<^item> \<open>Ski_Prelude\<close>: errors and results, the loops with failing bodies, the search and selection
    loops, generic facts.
  \<^item> \<open>Ski_Bitmap\<close>: 256-bit tables in eight words (interface \<open>bit_table\<close>), and the search for the
    highest vector.
  \<^item> \<open>Ski_Liveness\<close>: the read set of \<open>ski-liveness.h\<close>, with slots, access list and hash index kept
    consistent; it is a least recently used cache and implements the interface \<open>read_set\<close>.
  \<^item> \<open>Ski_State\<close>: the records of CPUs, threads and globals of the scheduler.
  \<^item> \<open>Ski_Threads\<close>: construction of the thread table, effective priority and choice of the next
    thread, which is the eligible one of least priority value, and what happens if there is none.
  \<^item> \<open>Ski_Interrupts\<close>: raising, start and end of interrupts, the stack of a CPU (interface
    \<open>lifo_stack\<close>) and the invariant of every run of these operations.
  \<^item> \<open>Ski_Sched\<close>: starvation, waiting and waking (proved over \<open>read_set\<close>), inversion, the list of
    preemption points, and \<open>ski_cpu_can_run\<close>: at most one CPU of the test executes.
  \<^item> \<open>Ski_Priorities\<close>: generator, parser and shuffle; a printed file is read back.
  \<^item> \<open>Ski_Hyper\<close>: hypercalls, barrier, blocking of other CPUs, resuming from a snapshot, the
    decision of \<open>tcg_exec_all\<close> (\<open>vmm/cpus.c\<close>) and the commands of \<open>vmm/piking.c\<close>.
  \<^item> \<open>Ski_Detectors\<close>, \<open>Ski_Stats\<close>: the detectors report exactly the conflicts, executions and
    communication points of a trace.
  \<^item> \<open>Ski_Loop\<close>: the compression of loops in the trace, which loses nothing.
  \<^item> \<open>Ski_Instrument\<close>: all helpers of the translated code, joining the components above; when a
    planned preemption takes effect.
  \<^item> \<open>Ski_Input\<close>: options, ranges and input files; parsing of ranges and enumeration of the tests.
  \<^item> \<open>Ski_Pic\<close>, \<open>Ski_Apic\<close>, \<open>Ski_Irq\<close>, \<open>Ski_Delivery\<close>: the interrupt controllers with the hooks of
    the scheduler, one state for the whole machine; well-formedness along every run of guest
    accesses, lines and acknowledge cycles, termination of raising a vector, destinations of a
    message, the acknowledge cycle and the timer.
  \<^item> \<open>Ski_Forkall\<close>: the loop of the parent over the children and their slots.
  \<^item> \<open>Ski_Coop\<close>: the fork of all threads as interleaved actions of the threads and the master; fair
    schedules are treated once, in the interface \<open>turns\<close>.
  \<^item> \<open>Ski_Memfs\<close>, \<open>Ski_Files\<close>: the intercepted file calls (interface \<open>byte_file\<close> of a support), and
    their refinement of a file system of byte lists and handles.
  \<^item> \<open>Ski_Sha1\<close>: the streaming hash and its equivalence with the definition of the standard.
  \<^item> This theory: the exploration as a whole, the loop of the parent over the space of the tests.

  \<^bold>\<open>Bounds.\<close>  Loops are structural or have a termination proof.  The exception is the mutual
  recursion of \<open>apic_set_irq\<close> and \<open>apic_update_irq\<close>, which can be endless: it carries the number of
  stack frames left and ends in \<open>Stack_overflow\<close>; two frames are shown to be enough except in the
  configuration that is endless with any number.  A wait of the parent that is not over is the
  value \<open>None\<close>, and it is proved that it ends when the children do.  The interleavings of \<open>Ski_Coop\<close>
  are inductive relations; that the fork happens is proved for every schedule that gives each
  thread three turns.  Sizes of tables are those of the source.

  \<^bold>\<open>Not modelled.\<close>  Output: messages, the trace of memory accesses, report files, and the snapshot
  that a test writes.  The watchdog, which is a timer and a flag.  The memory detector and the
  selective trace, which are switched off at compile time.  The command line, the debugging
  mode in which the parent executes the test, and the test mode of the file system.  The programs of the
  guest, scripts and configuration.  The emulator itself: translation and execution of guest
  code, other devices, block layer, network, user interface, migration, and targets that SKI does
  not use.
\<close>

section \<open>The exploration as a whole\<close>

text \<open>
  C3: what is explored.  Along every run of the parent process, whatever children \<open>fork\<close> gives
  and in whatever order they end, the tests that the children execute are, in this order, the
  product of the three ranges: the first rounds cover each combination of inputs and seed once,
  and every round after the product is used up repeats the last combination.
\<close>

theorem exploration_tests:
  assumes run: "forkall_start addresses p0 = Inr p" "0 < fa_concurrency p0" "forkall_run p ts p'"
    and st: "st = fa_input p0"
    and ranges: "\<not> ir_from_file_pairs (input1_range st)" "ir_range (input1_range st) \<noteq> []"
      "ir_range (input2_range st) \<noteq> []" "ir_range (interleaving_range st) \<noteq> []"
      "ir_iterator (input1_range st) = 0" "ir_iterator (input2_range st) = 0" "ir_iterator (interleaving_range st) = 0"
    and v: "\<And>i1 i2. i1 < n1_of st \<Longrightarrow> i2 < n2_of st \<Longrightarrow>
      next_inputs (pos_at st i1 i2 0 (0, 0) 0) = Inr (v i1 i2)"
  shows "ts = take (length ts) (all_tests st v @
    replicate (length ts - length (all_tests st v)) (v (n1_of st - 1) (n2_of st - 1), seed_at st (n3_of st - 1), False))"
proof -
  let ?N = "n1_of st * (n2_of st * n3_of st)"
  have inits: "fork_inits (length ts) st = Inr (ts, fa_input p')"
    using run_inv[OF run(3)] start_inv[OF run(1,2)] st by simp
  obtain st' where all: "fork_inits ?N st = Inr (all_tests st v, st')" "ski_input_fork_init st' = Inr (st', False)"
    using fork_inits_all[OF ranges(1,3-7) v] by auto
  have len: "length (all_tests st v) = ?N" using fork_inits_length[OF all(1)] .
  have last: "options_input_number st' = v (n1_of st - 1) (n2_of st - 1)" "options_seed st' = seed_at st (n3_of st - 1)"
    using fork_inits_last[of "?N - 1" st "all_tests st v" st'] all(1) ranges(2-4) last_test[of st v] by simp_all
  show ?thesis
  proof (cases "length ts \<le> ?N")
    case True
    then show ?thesis using fork_inits_prefix[OF inits, of "?N - length ts"] all(1) len by simp
  next
    case False
    have "fork_inits (?N + (length ts - ?N)) st =
        Inr (all_tests st v @ replicate (length ts - ?N) (options_input_number st', options_seed st', False), st')"
      unfolding fork_inits_add using all by (simp add: fork_inits_still)
    then show ?thesis using False inits len last by simp
  qed
qed

theorem exploration_tests_witness:
  "\<exists>p t p'. forkall_start None sample_parent = Inr p \<and> forkall_run p [t] p' \<and> t = ((4, 5), 7, True)"
proof -
  obtain p t p' where p: "forkall_start None sample_parent = Inr p" "forkall_run p [t] p'" using sample_parent_run by blast
  define v :: "nat \<Rightarrow> nat \<Rightarrow> int \<times> int" where "v i1 i2 = (if i1 = 0 then (4, 5) else (6, 7))" for i1 i2
  have i32: "int32 4 = 4" "int32 5 = 5" "int32 6 = 6" "int32 7 = 7" "int32 8 = 8" by (simp_all add: c_int_def)
  have "next_inputs (pos_at sample_input i1 i2 0 (0, 0) 0) = Inr (v i1 i2)" if "i1 < 2" "i2 < 1" for i1 i2
    using that i32 by (auto simp: less_2_cases_iff next_inputs_def pos_at_def sample_input_def zero_range_def
        ski_input_get_current_def ski_input_get_current_relative_def range_at_def v_def)
  then have "[t] = take 1 (all_tests sample_input v)"
    using exploration_tests[OF p(1) _ p(2), of sample_input v]
    by (simp add: sample_parent_def sample_input_def zero_range_def numeral_2_eq_2 all_tests_def tests_of_def)
  also have "\<dots> = [((4, 5), 7, True)]"
    using i32 by (simp add: all_tests_def tests_of_def sample_input_def zero_range_def v_def seed_at_def upt_rec)
  finally have "t = ((4, 5), 7, True)" by simp
  then show ?thesis using p by blast
qed

end
